(* ===== verification/Prelude.thy ===== *)
theory Prelude
  imports Main "HOL-Library.Word" "HOL-Library.While_Combinator"
begin

unbundle bit_operations_syntax

text \<open>
  Shared vocabulary of the development: the native word \<open>JITNUINT\<close> and arrays of
  such words used as bit sets, the \<open>do ... while (modified)\<close> loop of the data-flow
  analyses, and the generic lemmas on lists that the components share.
  The collection \<open>blk_simps\<close> holds the rules that move between the words of a
  bit set and the set of numbers it stands for.
\<close>

named_theorems blk_simps
named_theorems ir_defs

type_synonym JITNUINT = "64 word"
type_synonym blocks = "64 word list"

section \<open>Arrays of words as bit sets\<close>

text \<open>
  The idiom of every analysis of the repository: element \<open>v\<close> lives in the word
  \<open>v / (sizeof(JITNINT) * 8)\<close> at the bit \<open>v % (sizeof(JITNINT) * 8)\<close>.
\<close>

definition trigger_of :: "nat \<Rightarrow> nat" where
  "trigger_of v = v div 64"

definition mask_of :: "nat \<Rightarrow> JITNUINT" where
  "mask_of v = push_bit (v mod 64) 1"

definition blk_set :: "blocks \<Rightarrow> nat set" where
  "blk_set bs = {v. trigger_of v < length bs \<and> bit (bs ! trigger_of v) (v mod 64)}"

definition blk_add :: "nat \<Rightarrow> blocks \<Rightarrow> blocks" where
  "blk_add v bs = bs[trigger_of v := bs ! trigger_of v OR mask_of v]"

lemma bit_mask_of [blk_simps]: "bit (mask_of v) k \<longleftrightarrow> k = v mod 64"
  unfolding mask_of_def bit_push_bit_iff bit_1_iff
  by (auto simp: order.strict_trans2 possible_bit_def)

lemma mem_blk_set: "v \<in> blk_set bs \<longleftrightarrow> trigger_of v < length bs \<and> bit (bs ! trigger_of v) (v mod 64)"
  by (simp add: blk_set_def)

lemma trigger_of_mult [simp]: "k < 64 \<Longrightarrow> trigger_of (64 * c + k) = c"
  by (simp add: trigger_of_def)

lemma trigger_mod_eq: "trigger_of u = trigger_of v \<Longrightarrow> u mod 64 = v mod 64 \<Longrightarrow> u = v"
  unfolding trigger_of_def by (metis div_mult_mod_eq)

lemma trigger_of_less: "v < 64 * n \<Longrightarrow> trigger_of v < n"
  unfolding trigger_of_def by (simp add: less_mult_imp_div_less mult.commute)

lemma trigger_of_less_iff: "trigger_of v < n \<longleftrightarrow> v < 64 * n"
  by (simp add: trigger_of_def div_less_iff_less_mult mult.commute)

lemma trigger_of_blocks: "v \<le> n \<Longrightarrow> trigger_of v < n div 64 + 1"
  unfolding trigger_of_def by (simp add: div_le_mono le_imp_less_Suc)

lemma length_blk_add [simp]: "length (blk_add v bs) = length bs"
  by (simp add: blk_add_def)

lemma blk_set_add [blk_simps]:
  "trigger_of v < length bs \<Longrightarrow> blk_set (blk_add v bs) = insert v (blk_set bs)"
  by (auto simp: blk_set_def blk_add_def nth_list_update bit_or_iff bit_mask_of dest: trigger_mod_eq)

lemma blk_set_replicate_0 [blk_simps]: "blk_set (replicate n 0) = {}"
  by (auto simp: blk_set_def)

lemma blk_set_bound: "v \<in> blk_set bs \<Longrightarrow> v < 64 * length bs"
  by (simp add: mem_blk_set trigger_of_less_iff)

lemma finite_blk_set [simp]: "finite (blk_set bs)"
  by (rule finite_subset [of _ "{..<64 * length bs}"]) (auto dest: blk_set_bound)

lemma card_blk_set: "card (blk_set bs) \<le> 64 * length bs"
  using card_mono [of "{..<64 * length bs}" "blk_set bs"] blk_set_bound by fastforce

text \<open>Two arrays of the same length hold the same words exactly when they stand for the same set.\<close>

lemma blk_set_eq_iff:
  assumes "length as = length bs"
  shows "blk_set as = blk_set bs \<longleftrightarrow> as = bs"
proof
  assume eq: "blk_set as = blk_set bs"
  show "as = bs"
  proof (rule nth_equalityI [OF assms])
    fix c assume c: "c < length as"
    show "as ! c = bs ! c"
    proof (rule bit_word_eqI)
      fix k assume "k < LENGTH(64)"
      then have k: "k < 64" by simp
      then have "64 * c + k \<in> blk_set as \<longleftrightarrow> bit (as ! c) k"
        and "64 * c + k \<in> blk_set bs \<longleftrightarrow> bit (bs ! c) k"
        using c assms by (simp_all add: mem_blk_set)
      with eq show "bit (as ! c) k = bit (bs ! c) k" by simp
    qed
  qed
qed simp

text \<open>The test \<open>(word & mask) == mask\<close> and the test \<open>(word & mask) != 0\<close> read the same bit.\<close>

lemma and_mask_of_eq [blk_simps]: "(w AND mask_of v = mask_of v) \<longleftrightarrow> bit w (v mod 64)"
proof
  assume "w AND mask_of v = mask_of v"
  then have "bit (w AND mask_of v) (v mod 64)" by (simp add: bit_mask_of)
  then show "bit w (v mod 64)" by (simp add: bit_and_iff)
next
  assume "bit w (v mod 64)"
  then show "w AND mask_of v = mask_of v"
    by (intro bit_word_eqI) (auto simp: bit_and_iff bit_mask_of)
qed

lemma and_mask_of_neq_0 [blk_simps]: "(w AND mask_of v \<noteq> 0) \<longleftrightarrow> bit w (v mod 64)"
proof
  assume "w AND mask_of v \<noteq> 0"
  then obtain k where "bit (w AND mask_of v) k" by (auto simp: bit_eq_iff)
  then show "bit w (v mod 64)" by (auto simp: bit_and_iff bit_mask_of)
next
  assume "bit w (v mod 64)"
  then have "bit (w AND mask_of v) (v mod 64)" by (simp add: bit_and_iff bit_mask_of)
  then show "w AND mask_of v \<noteq> 0" by (metis bit_0_eq bot_apply bot_bool_def)
qed

text \<open>\<open>JITMAXNUINT - x\<close> is the complement of \<open>x\<close>.\<close>

definition JITMAXNUINT :: JITNUINT where
  "JITMAXNUINT = - 1"

lemma JITMAXNUINT_minus [blk_simps]: "JITMAXNUINT - x = NOT x"
  by (simp add: JITMAXNUINT_def not_eq_complement)

text \<open>
  The expression \<open>0x1 << (v % 64)\<close> has type \<open>int\<close>, 32 bits wide: \<open>None\<close> where C gives it no
  value. Some functions of the repository build their mask this way instead of shifting a
  \<open>JITNUINT\<close>.
\<close>

definition int_mask_of :: "nat \<Rightarrow> JITNUINT option" where
  "int_mask_of v = (if v mod 64 < 31 then Some (mask_of v) else None)"

section \<open>Loops over the words of an array\<close>

text \<open>
  \<open>for (count = 0; count < n; count++) \<lbrace> old = a[count]; new = f(count, old);
  if (old != new) \<lbrace> modified = JITTRUE; a[count] = new; \<rbrace> \<rbrace>\<close>
\<close>

definition blk_loop :: "(nat \<Rightarrow> JITNUINT \<Rightarrow> JITNUINT) \<Rightarrow> nat \<Rightarrow> bool \<times> blocks \<Rightarrow> bool \<times> blocks" where
  "blk_loop f n = fold (\<lambda>count (modified, a).
     let old = a ! count; new = f count old
     in if old \<noteq> new then (True, a[count := new]) else (modified, a)) [0..<n]"

lemma blk_loop_0 [simp]: "blk_loop f 0 x = x"
  by (simp add: blk_loop_def)

lemma blk_loop_Suc:
  "blk_loop f (Suc n) x = (case blk_loop f n x of (modified, a) \<Rightarrow>
     if a ! n \<noteq> f n (a ! n) then (True, a[n := f n (a ! n)]) else (modified, a))"
  by (simp add: blk_loop_def Let_def)

lemma blk_loop_eq:
  assumes "n \<le> length a"
  shows "blk_loop f n (md, a) =
    (md \<or> map (\<lambda>c. f c (a ! c)) [0..<n] \<noteq> take n a, map (\<lambda>c. f c (a ! c)) [0..<n] @ drop n a)"
  using assms
proof (induction n)
  case (Suc n)
  have d: "drop n a = a ! n # drop (Suc n) a"
    using Suc.prems by (simp add: Cons_nth_drop_Suc)
  have t: "take (Suc n) a = take n a @ [a ! n]"
    using Suc.prems by (simp add: take_Suc_conv_app_nth)
  show ?case
    using Suc by (auto simp: blk_loop_Suc nth_append list_update_append d t)
qed simp

lemma blk_loop_full:
  assumes "length a = n"
  shows "blk_loop f n (md, a) =
    (md \<or> map (\<lambda>c. f c (a ! c)) [0..<n] \<noteq> a, map (\<lambda>c. f c (a ! c)) [0..<n])"
  using blk_loop_eq [of n a f md] assms by simp

lemma mem_blk_set_map [blk_simps]:
  "v \<in> blk_set (map g [0..<n]) \<longleftrightarrow> trigger_of v < n \<and> bit (g (trigger_of v)) (v mod 64)"
  by (auto simp: mem_blk_set)

section \<open>The loop \<open>do ... while (modified)\<close>\<close>

definition do_while :: "('s \<Rightarrow> bool \<times> 's) \<Rightarrow> 's \<Rightarrow> 's option" where
  "do_while step s = map_option snd (while_option fst (\<lambda>(_, s). step s) (True, s))"

lemma do_while_unfold:
  "do_while step s = (case step s of (again, s') \<Rightarrow> if again then do_while step s' else Some s')"
proof -
  have "while_option fst (\<lambda>(_, s). step s) (True, s) = while_option fst (\<lambda>(_, s). step s) (step s)"
    by (subst while_option_unfold) simp
  moreover have "while_option fst (\<lambda>(_, s). step s) (False, s') = Some (False, s')" for s'
    by (subst while_option_unfold) simp
  ultimately show ?thesis
    by (auto simp: do_while_def split: prod.splits)
qed

lemma do_while_terminates:
  assumes inv: "I s"
    and keep: "\<And>s. I s \<Longrightarrow> I (snd (step s))"
    and grow: "\<And>s. I s \<Longrightarrow> fst (step s) \<Longrightarrow> weight s < weight (snd (step s))"
    and bound: "\<And>s. I s \<Longrightarrow> weight s \<le> (n::nat)"
  shows "\<exists>t. do_while step s = Some (snd (step t)) \<and> I t \<and> \<not> fst (step t)"
  using inv
proof (induction "n - weight s" arbitrary: s rule: less_induct)
  case less
  show ?case
  proof (cases "fst (step s)")
    case True
    then have "n - weight (snd (step s)) < n - weight s"
      using grow [OF less.prems True] bound [OF keep [OF less.prems]] by linarith
    from less.hyps [OF this keep [OF less.prems]] True show ?thesis
      by (subst do_while_unfold) (auto split: prod.splits)
  next
    case False
    then have "do_while step s = Some (snd (step s))"
      by (subst do_while_unfold) (simp add: case_prod_beta)
    then show ?thesis
      using less.prems False by blast
  qed
qed

text \<open>The same loop with a bound on the number of rounds; it shows that a simulation carries over.\<close>

fun do_rounds :: "('s \<Rightarrow> bool \<times> 's) \<Rightarrow> nat \<Rightarrow> 's \<Rightarrow> 's option" where
  "do_rounds step 0 s = None"
| "do_rounds step (Suc k) s = (case step s of (again, s') \<Rightarrow> if again then do_rounds step k s' else Some s')"

lemma do_while_rounds: "do_while step s = Some t \<longleftrightarrow> (\<exists>k. do_rounds step k s = Some t)"
proof -
  have one: "do_rounds step k s = Some t \<Longrightarrow> do_while step s = Some t" for k s t
  proof (induction k arbitrary: s)
    case (Suc k)
    then show ?case by (subst do_while_unfold) (auto split: prod.splits if_splits)
  qed simp
  define f where "f = (\<lambda>(_ :: bool, s). step s)"
  have f: "f (b, s) = step s" for b s by (simp add: f_def)
  have two: "\<not> fst ((f ^^ k) (True, s)) \<Longrightarrow> \<exists>k t. do_rounds step k s = Some t" for k s
  proof (induction k arbitrary: s)
    case (Suc k)
    obtain again s' where st: "step s = (again, s')" by fastforce
    show ?case
    proof (cases again)
      case True
      with Suc.prems st have "\<not> fst ((f ^^ k) (True, s'))" by (simp add: funpow_swap1 f)
      then obtain k' t where "do_rounds step k' s' = Some t" using Suc.IH by blast
      with st True show ?thesis by (intro exI [of _ "Suc k'"] exI [of _ t]) simp
    next
      case False
      with st show ?thesis by (intro exI [of _ "Suc 0"] exI [of _ s']) simp
    qed
  qed simp
  show ?thesis
  proof
    assume d: "do_while step s = Some t"
    then obtain x where "while_option fst f (True, s) = Some x"
      by (auto simp: do_while_def f_def)
    then obtain k where "\<not> fst ((f ^^ k) (True, s))"
      using while_option_stop2 by metis
    with two obtain k' t' where r: "do_rounds step k' s = Some t'" by blast
    with one [OF r] d show "\<exists>k. do_rounds step k s = Some t" by auto
  qed (use one in blast)
qed

lemma do_while_simulation:
  assumes sim: "\<And>s. ok s \<Longrightarrow> ok (snd (step s)) \<and> step' (f s) = (fst (step s), f (snd (step s)))"
    and "ok s" and "do_while step' (f s) = Some t'"
  shows "\<exists>t. do_while step s = Some t \<and> ok t \<and> f t = t'"
proof -
  have "\<exists>t. do_rounds step k s = Some t \<and> ok t \<and> f t = t'"
    if "do_rounds step' k (f s) = Some t'" "ok s" for k
    using that
  proof (induction k arbitrary: s)
    case (Suc k)
    obtain again s1 where st: "step s = (again, s1)" by fastforce
    with sim [OF Suc.prems(2)] have "ok s1" "step' (f s) = (again, f s1)" by auto
    with Suc st show ?case by (cases again) auto
  qed simp
  with assms(2,3) show ?thesis unfolding do_while_rounds by blast
qed

section \<open>Lists\<close>

lemma list_update_same_iff: "i < length xs \<Longrightarrow> xs[i := x] = xs \<longleftrightarrow> x = xs ! i"
  by (metis list_update_id nth_list_update_eq)

lemma sum_list_update_less:
  fixes g :: "'a \<Rightarrow> nat"
  assumes "i < length xs" and "g (xs ! i) < g x"
  shows "sum_list (map g xs) < sum_list (map g (xs[i := x]))"
  using assms
proof (induction xs arbitrary: i)
  case (Cons y ys)
  then show ?case by (cases i) auto
qed simp

lemma sum_list_bound:
  fixes g :: "'a \<Rightarrow> nat"
  assumes "\<And>x. x \<in> set xs \<Longrightarrow> g x \<le> b"
  shows "sum_list (map g xs) \<le> b * length xs"
  using assms by (induction xs) (auto intro: add_mono)

lemma fold_update_upt:
  "n \<le> length s \<Longrightarrow> fold (\<lambda>i s. s[i := f i]) [0..<n] s = map f [0..<n] @ drop n s"
proof (induction n)
  case (Suc n)
  have "drop n s = s ! n # drop (Suc n) s" using Suc.prems by (simp add: Cons_nth_drop_Suc)
  with Suc show ?case by (simp add: list_update_append)
qed simp

text \<open>First element of a list that satisfies a test, with its position.\<close>

fun find_from :: "(nat \<Rightarrow> bool) \<Rightarrow> nat list \<Rightarrow> nat option" where
  "find_from P [] = None"
| "find_from P (i # is) = (if P i then Some i else find_from P is)"

lemma find_from_SomeD: "find_from P is = Some i \<Longrightarrow> i \<in> set is \<and> P i"
  by (induction "is") (auto split: if_splits)

lemma find_from_None: "find_from P is = None \<longleftrightarrow> (\<forall>i\<in>set is. \<not> P i)"
  by (induction "is") auto

lemma find_from_cong:
  "(\<And>i. i \<in> set is \<Longrightarrow> P i = Q i) \<Longrightarrow> find_from P is = find_from Q is"
  by (induction "is") auto

lemma find_from_upt:
  "find_from P [a..<b] = Some i \<longleftrightarrow> a \<le> i \<and> i < b \<and> P i \<and> (\<forall>j. a \<le> j \<longrightarrow> j < i \<longrightarrow> \<not> P j)"
proof (induction "b - a" arbitrary: a)
  case 0
  then show ?case by auto
next
  case (Suc d)
  then have ab: "a < b" and d: "d = b - Suc a" by auto
  have "find_from P [a..<b] = (if P a then Some a else find_from P [Suc a..<b])"
    using ab by (simp add: upt_conv_Cons)
  moreover have "find_from P [Suc a..<b] = Some i \<longleftrightarrow>
      Suc a \<le> i \<and> i < b \<and> P i \<and> (\<forall>j. Suc a \<le> j \<longrightarrow> j < i \<longrightarrow> \<not> P j)"
    by (rule Suc.hyps(1) [OF d])
  ultimately show ?case
  proof (cases "P a")
    case True
    with \<open>find_from P [a..<b] = _\<close> ab show ?thesis
      by (auto simp: not_less le_less)
  next
    case False
    then show ?thesis
      using ab \<open>find_from P [a..<b] = _\<close> \<open>(find_from P [Suc a..<b] = _) = _\<close>
      by simp (metis Suc_leI Suc_leD le_neq_implies_less)
  qed
qed

text \<open>
  An enumeration by repeated calls: each call receives the previous answer and the answer \<open>None\<close>
  ends it. \<open>enumerates f prev xs\<close> says that the answers after \<open>prev\<close> are \<open>xs\<close>.
\<close>

fun enumerates :: "('a option \<Rightarrow> 'a option) \<Rightarrow> 'a option \<Rightarrow> 'a list \<Rightarrow> bool" where
  "enumerates f prev [] \<longleftrightarrow> f prev = None"
| "enumerates f prev (x # xs) \<longleftrightarrow> f prev = Some x \<and> enumerates f (Some x) xs"

lemma enumerates_unique: "enumerates f prev xs \<Longrightarrow> enumerates f prev ys \<Longrightarrow> xs = ys"
proof (induction xs arbitrary: prev ys)
  case Nil
  then show ?case by (cases ys) auto
next
  case (Cons x xs)
  then show ?case by (cases ys) auto
qed

definition option_list :: "'a option \<Rightarrow> 'a list" where
  "option_list x = (case x of None \<Rightarrow> [] | Some y \<Rightarrow> [y])"

lemma option_list_simps [simp]: "option_list None = []" "option_list (Some y) = [y]"
  by (simp_all add: option_list_def)

lemma in_option_list [simp]: "y \<in> set (option_list x) \<longleftrightarrow> x = Some y"
  by (cases x) auto

lemma distinct_option_list [simp]: "distinct (option_list x)"
  by (cases x) auto

lemma enumerates_option_list [simp]:
  "enumerates f prev (option_list x) \<longleftrightarrow> f prev = x \<and> (\<forall>y. x = Some y \<longrightarrow> f (Some y) = None)"
  by (cases x) auto

text \<open>An enumeration that scans the positions \<open>[a..<n]\<close> for \<open>P\<close> and then goes on with \<open>ys\<close>.\<close>

lemma enumerates_scan:
  assumes again: "\<And>p. a \<le> p \<Longrightarrow> p < n \<Longrightarrow> P p \<Longrightarrow>
      f (Some p) = (case find_from P [p + 1..<n] of Some j \<Rightarrow> Some j | None \<Rightarrow> g)"
    and tail: "\<And>prev. f prev = g \<Longrightarrow> enumerates f prev ys"
    and first: "f prev = (case find_from P [a..<n] of Some j \<Rightarrow> Some j | None \<Rightarrow> g)"
  shows "enumerates f prev (filter P [a..<n] @ ys)"
  using again first
proof (induction "n - a" arbitrary: a prev rule: less_induct)
  case less
  show ?case
  proof (cases "find_from P [a..<n]")
    case None
    then have "filter P [a..<n] = []" by (auto simp: find_from_None)
    then show ?thesis using None less.prems tail by simp
  next
    case (Some j)
    then have j: "a \<le> j" "j < n" "P j" and b: "\<forall>k. a \<le> k \<longrightarrow> k < j \<longrightarrow> \<not> P k"
      by (auto simp: find_from_upt)
    have "[a..<n] = [a..<j] @ j # [j + 1..<n]"
      using j upt_add_eq_append [of a j "n - j"] by (simp add: upt_conv_Cons)
    moreover have "filter P [a..<j] = []" using b by (auto simp: filter_empty_conv)
    ultimately have e: "filter P [a..<n] = j # filter P [j + 1..<n]" using j by simp
    have "enumerates f (Some j) (filter P [j + 1..<n] @ ys)"
    proof (rule less.hyps)
      show "n - (j + 1) < n - a" using j by simp
    qed (use less.prems j in auto)
    then show ?thesis using Some less.prems e by simp
  qed
qed

end
