(* ===== verification/IRLang.thy ===== *)
theory IRLang
  imports Prelude
begin

text \<open>
  The IR data model shared by every component: items, instructions and methods
  (\<open>libirmanager/src/ir_method.h\<close>), the opcodes and types of
  \<open>libiljitu/src/ir_language.h\<close>, and the classification, accessor and setter functions of
  \<open>libirmanager/src/ir_method.c\<close> and \<open>libirmanager/src/ir_data.c\<close>.

  An instruction is known by its \<open>ID\<close>, which is its position in the method (theory
  \<open>InstrTable\<close> shows that every operation keeps that), so the pure part of the model keeps a
  method's instructions as a list and names an instruction by its position; the position after
  the last one is the exit node.
\<close>

section \<open>Opcodes and types\<close>

text \<open>
  The language is a set of \<open>#define\<close>d integers; the abbreviations below are those integers.
  Item types are kept as \<open>int\<close> in the field \<open>item_type\<close> (\<open>JITINT16\<close>, where
  \<open>NOPARAM\<close> is -1) and as \<open>nat\<close> in \<open>internal_type\<close> (\<open>JITUINT16\<close>, where the same
  \<open>NOPARAM\<close> is stored as 65535).
\<close>

abbreviation (input) IRMOVE :: nat where "IRMOVE \<equiv> 1"
abbreviation (input) IRADD :: nat where "IRADD \<equiv> 2"
abbreviation (input) IRADDOVF :: nat where "IRADDOVF \<equiv> 3"
abbreviation (input) IRSUB :: nat where "IRSUB \<equiv> 4"
abbreviation (input) IRSUBOVF :: nat where "IRSUBOVF \<equiv> 5"
abbreviation (input) IRMUL :: nat where "IRMUL \<equiv> 6"
abbreviation (input) IRMULOVF :: nat where "IRMULOVF \<equiv> 7"
abbreviation (input) IRDIV :: nat where "IRDIV \<equiv> 8"
abbreviation (input) IRREM :: nat where "IRREM \<equiv> 9"
abbreviation (input) IRAND :: nat where "IRAND \<equiv> 10"
abbreviation (input) IRNEG :: nat where "IRNEG \<equiv> 11"
abbreviation (input) IROR :: nat where "IROR \<equiv> 12"
abbreviation (input) IRNOT :: nat where "IRNOT \<equiv> 13"
abbreviation (input) IRXOR :: nat where "IRXOR \<equiv> 14"
abbreviation (input) IRSHL :: nat where "IRSHL \<equiv> 15"
abbreviation (input) IRSHR :: nat where "IRSHR \<equiv> 16"
abbreviation (input) IRCONV :: nat where "IRCONV \<equiv> 17"
abbreviation (input) IRCONVOVF :: nat where "IRCONVOVF \<equiv> 18"
abbreviation (input) IRBITCAST :: nat where "IRBITCAST \<equiv> 19"
abbreviation (input) IRBRANCH :: nat where "IRBRANCH \<equiv> 20"
abbreviation (input) IRBRANCHIF :: nat where "IRBRANCHIF \<equiv> 21"
abbreviation (input) IRBRANCHIFNOT :: nat where "IRBRANCHIFNOT \<equiv> 22"
abbreviation (input) IRLABEL :: nat where "IRLABEL \<equiv> 23"
abbreviation (input) IRLT :: nat where "IRLT \<equiv> 24"
abbreviation (input) IRGT :: nat where "IRGT \<equiv> 25"
abbreviation (input) IREQ :: nat where "IREQ \<equiv> 26"
abbreviation (input) IRCALL :: nat where "IRCALL \<equiv> 27"
abbreviation (input) IRLIBRARYCALL :: nat where "IRLIBRARYCALL \<equiv> 28"
abbreviation (input) IRVCALL :: nat where "IRVCALL \<equiv> 29"
abbreviation (input) IRICALL :: nat where "IRICALL \<equiv> 30"
abbreviation (input) IRNATIVECALL :: nat where "IRNATIVECALL \<equiv> 31"
abbreviation (input) IRNEWOBJ :: nat where "IRNEWOBJ \<equiv> 32"
abbreviation (input) IRNEWARR :: nat where "IRNEWARR \<equiv> 33"
abbreviation (input) IRFREEOBJ :: nat where "IRFREEOBJ \<equiv> 34"
abbreviation (input) IRLOADREL :: nat where "IRLOADREL \<equiv> 35"
abbreviation (input) IRSTOREREL :: nat where "IRSTOREREL \<equiv> 36"
abbreviation (input) IRGETADDRESS :: nat where "IRGETADDRESS \<equiv> 37"
abbreviation (input) IRRET :: nat where "IRRET \<equiv> 38"
abbreviation (input) IRCALLFINALLY :: nat where "IRCALLFINALLY \<equiv> 39"
abbreviation (input) IRTHROW :: nat where "IRTHROW \<equiv> 40"
abbreviation (input) IRSTARTFILTER :: nat where "IRSTARTFILTER \<equiv> 41"
abbreviation (input) IRENDFILTER :: nat where "IRENDFILTER \<equiv> 42"
abbreviation (input) IRSTARTFINALLY :: nat where "IRSTARTFINALLY \<equiv> 43"
abbreviation (input) IRENDFINALLY :: nat where "IRENDFINALLY \<equiv> 44"
abbreviation (input) IRSTARTCATCHER :: nat where "IRSTARTCATCHER \<equiv> 45"
abbreviation (input) IRBRANCHIFPCNOTINRANGE :: nat where "IRBRANCHIFPCNOTINRANGE \<equiv> 46"
abbreviation (input) IRCALLFILTER :: nat where "IRCALLFILTER \<equiv> 47"
abbreviation (input) IRISNAN :: nat where "IRISNAN \<equiv> 48"
abbreviation (input) IRISINF :: nat where "IRISINF \<equiv> 49"
abbreviation (input) IRINITMEMORY :: nat where "IRINITMEMORY \<equiv> 50"
abbreviation (input) IRALLOCA :: nat where "IRALLOCA \<equiv> 51"
abbreviation (input) IRMEMCPY :: nat where "IRMEMCPY \<equiv> 52"
abbreviation (input) IRMEMCMP :: nat where "IRMEMCMP \<equiv> 53"
abbreviation (input) IRCHECKNULL :: nat where "IRCHECKNULL \<equiv> 54"
abbreviation (input) IRNOP :: nat where "IRNOP \<equiv> 55"
abbreviation (input) IRCOSH :: nat where "IRCOSH \<equiv> 56"
abbreviation (input) IRSIN :: nat where "IRSIN \<equiv> 57"
abbreviation (input) IRCOS :: nat where "IRCOS \<equiv> 58"
abbreviation (input) IRACOS :: nat where "IRACOS \<equiv> 59"
abbreviation (input) IRSQRT :: nat where "IRSQRT \<equiv> 60"
abbreviation (input) IRFLOOR :: nat where "IRFLOOR \<equiv> 61"
abbreviation (input) IRCEIL :: nat where "IRCEIL \<equiv> 62"
abbreviation (input) IRPOW :: nat where "IRPOW \<equiv> 63"
abbreviation (input) IREXP :: nat where "IREXP \<equiv> 64"
abbreviation (input) IRLOG10 :: nat where "IRLOG10 \<equiv> 65"
abbreviation (input) IRALLOC :: nat where "IRALLOC \<equiv> 66"
abbreviation (input) IRALLOCALIGN :: nat where "IRALLOCALIGN \<equiv> 67"
abbreviation (input) IRREALLOC :: nat where "IRREALLOC \<equiv> 68"
abbreviation (input) IRCALLOC :: nat where "IRCALLOC \<equiv> 69"
abbreviation (input) IRFREE :: nat where "IRFREE \<equiv> 70"
abbreviation (input) IREXIT :: nat where "IREXIT \<equiv> 71"
abbreviation (input) IRPHI :: nat where "IRPHI \<equiv> 72"
abbreviation (input) IRARRAYLENGTH :: nat where "IRARRAYLENGTH \<equiv> 73"
abbreviation (input) IRSTRINGLENGTH :: nat where "IRSTRINGLENGTH \<equiv> 74"
abbreviation (input) IRSTRINGCMP :: nat where "IRSTRINGCMP \<equiv> 75"
abbreviation (input) IRSTRINGCHR :: nat where "IRSTRINGCHR \<equiv> 76"
abbreviation (input) IRSIZEOF :: nat where "IRSIZEOF \<equiv> 77"
abbreviation (input) IRDIV_NOEXCEPTION :: nat where "IRDIV_NOEXCEPTION \<equiv> 78"
abbreviation (input) IRREM_NOEXCEPTION :: nat where "IRREM_NOEXCEPTION \<equiv> 79"
abbreviation (input) IRFENCE :: nat where "IRFENCE \<equiv> 80"
abbreviation (input) IREXITNODE :: nat where "IREXITNODE \<equiv> 81"

abbreviation (input) IROFFSET :: "'a::numeral" where "IROFFSET \<equiv> 1"
abbreviation (input) IRTYPE :: "'a::numeral" where "IRTYPE \<equiv> 2"
abbreviation (input) IRLABELITEM :: "'a::numeral" where "IRLABELITEM \<equiv> 3"
abbreviation (input) IRINT8 :: "'a::numeral" where "IRINT8 \<equiv> 4"
abbreviation (input) IRINT16 :: "'a::numeral" where "IRINT16 \<equiv> 5"
abbreviation (input) IRINT32 :: "'a::numeral" where "IRINT32 \<equiv> 6"
abbreviation (input) IRINT64 :: "'a::numeral" where "IRINT64 \<equiv> 7"
abbreviation (input) IRNINT :: "'a::numeral" where "IRNINT \<equiv> 8"
abbreviation (input) IRUINT8 :: "'a::numeral" where "IRUINT8 \<equiv> 9"
abbreviation (input) IRUINT16 :: "'a::numeral" where "IRUINT16 \<equiv> 10"
abbreviation (input) IRUINT32 :: "'a::numeral" where "IRUINT32 \<equiv> 11"
abbreviation (input) IRUINT64 :: "'a::numeral" where "IRUINT64 \<equiv> 12"
abbreviation (input) IRNUINT :: "'a::numeral" where "IRNUINT \<equiv> 13"
abbreviation (input) IRFLOAT32 :: "'a::numeral" where "IRFLOAT32 \<equiv> 14"
abbreviation (input) IRFLOAT64 :: "'a::numeral" where "IRFLOAT64 \<equiv> 15"
abbreviation (input) IRNFLOAT :: "'a::numeral" where "IRNFLOAT \<equiv> 16"
abbreviation (input) IRVOID :: "'a::numeral" where "IRVOID \<equiv> 17"
abbreviation (input) IRCLASSID :: "'a::numeral" where "IRCLASSID \<equiv> 18"
abbreviation (input) IRMETHODID :: "'a::numeral" where "IRMETHODID \<equiv> 19"
abbreviation (input) IRMETHODENTRYPOINT :: "'a::numeral" where "IRMETHODENTRYPOINT \<equiv> 20"
abbreviation (input) IRMPOINTER :: "'a::numeral" where "IRMPOINTER \<equiv> 21"
abbreviation (input) IRTPOINTER :: "'a::numeral" where "IRTPOINTER \<equiv> 22"
abbreviation (input) IRFPOINTER :: "'a::numeral" where "IRFPOINTER \<equiv> 23"
abbreviation (input) IROBJECT :: "'a::numeral" where "IROBJECT \<equiv> 24"
abbreviation (input) IRVALUETYPE :: "'a::numeral" where "IRVALUETYPE \<equiv> 25"
abbreviation (input) IRSTRING :: "'a::numeral" where "IRSTRING \<equiv> 26"
abbreviation (input) IRSIGNATURE :: "'a::numeral" where "IRSIGNATURE \<equiv> 27"
abbreviation (input) IRSYMBOL :: "'a::numeral" where "IRSYMBOL \<equiv> 28"
abbreviation (input) IRGLOBAL :: "'a::numeral" where "IRGLOBAL \<equiv> 29"
abbreviation (input) NOPARAM :: int where "NOPARAM \<equiv> -1"
abbreviation (input) NOPARAM_U16 :: nat where "NOPARAM_U16 \<equiv> 65535"
abbreviation (input) NOPARAM_VALUE :: "64 word" where "NOPARAM_VALUE \<equiv> -1"

section \<open>Items, instructions and methods\<close>

text \<open>
  The union \<open>ir_value_t\<close> (an integer or a double on the same eight bytes) is the 64-bit
  word that holds those bytes; a \<open>TypeDescriptor *\<close> is an opaque address, \<open>None\<close> for NULL.
\<close>

record ir_item =
  val :: "64 word"
  item_type :: int
  internal_type :: nat
  type_infos :: "nat option"

record ir_instruction =
  inst_type :: nat
  param_1 :: ir_item
  param_2 :: ir_item
  param_3 :: ir_item
  result :: ir_item
  callParameters :: "ir_item list option"
  byte_offset :: nat

record ir_local =
  var_number :: nat
  local_type :: nat

record ir_method =
  instructions :: "ir_instruction list"
  parametersNumber :: nat
  var_max :: nat
  locals :: "ir_local list"

definition nopar_item :: ir_item where
  "nopar_item = \<lparr>val = 0, item_type = NOPARAM, internal_type = NOPARAM_U16, type_infos = None\<rparr>"

text \<open>The contents \<open>ir_instr_init\<close> gives to an instruction: everything zero, the four items \<open>NOPARAM\<close>.\<close>

definition ir_instr_init :: ir_instruction where
  "ir_instr_init = \<lparr>inst_type = 0, param_1 = nopar_item, param_2 = nopar_item,
     param_3 = nopar_item, result = nopar_item, callParameters = None, byte_offset = 0\<rparr>"

definition exit_node :: ir_instruction where
  "exit_node = ir_instr_init\<lparr>inst_type := IREXITNODE\<rparr>"

definition ir_instr_count :: "ir_method \<Rightarrow> nat" where
  "ir_instr_count m = length (instructions m)"

text \<open>The instruction at a position, for the positions \<open>0 .. ir_instr_count\<close>.\<close>

definition ir_instr_get_by_pos :: "ir_method \<Rightarrow> nat \<Rightarrow> ir_instruction" where
  "ir_instr_get_by_pos m position =
     (if position < ir_instr_count m then instructions m ! position else exit_node)"

abbreviation type_at :: "ir_method \<Rightarrow> nat \<Rightarrow> nat" where
  "type_at m i \<equiv> inst_type (ir_instr_get_by_pos m i)"

section \<open>Parameters\<close>

definition ir_instr_pars_count_get :: "ir_instruction \<Rightarrow> nat" where
  "ir_instr_pars_count_get inst =
     (if item_type (param_1 inst) = NOPARAM then 0
      else if item_type (param_2 inst) = NOPARAM then 1
      else if item_type (param_3 inst) = NOPARAM then 2
      else 3)"

definition ir_instrcall_pars_count_get :: "ir_instruction \<Rightarrow> nat" where
  "ir_instrcall_pars_count_get inst =
     (case callParameters inst of None \<Rightarrow> 0 | Some l \<Rightarrow> length l)"

definition ir_instrcall_par_get_by_pos :: "ir_instruction \<Rightarrow> nat \<Rightarrow> ir_item option" where
  "ir_instrcall_par_get_by_pos inst n =
     (case callParameters inst of None \<Rightarrow> None
      | Some l \<Rightarrow> if n < length l then Some (l ! n) else None)"

definition ir_instrcall_par_value_get :: "ir_instruction \<Rightarrow> nat \<Rightarrow> 64 word" where
  "ir_instrcall_par_value_get inst n =
     (case ir_instrcall_par_get_by_pos inst n of None \<Rightarrow> NOPARAM_VALUE | Some param \<Rightarrow> val param)"

definition ir_instrcall_par_type_get :: "ir_instruction \<Rightarrow> nat \<Rightarrow> int" where
  "ir_instrcall_par_type_get inst n =
     (case ir_instrcall_par_get_by_pos inst n of None \<Rightarrow> NOPARAM | Some param \<Rightarrow> item_type param)"

definition ir_instrcall_par_new :: "ir_item \<Rightarrow> ir_instruction \<Rightarrow> ir_instruction \<times> nat" where
  "ir_instrcall_par_new data inst =
     (let l = (case callParameters inst of None \<Rightarrow> [] | Some l \<Rightarrow> l) @ [data]
      in (inst\<lparr>callParameters := Some l\<rparr>, length l - 1))"

definition ir_instrcall_pars_delete :: "ir_instruction \<Rightarrow> ir_instruction" where
  "ir_instrcall_pars_delete inst = inst\<lparr>callParameters := None\<rparr>"

text \<open>\<open>None\<close> stands for a failed assertion (no list, no element at the position, equal positions).\<close>

definition list_delete_at :: "nat \<Rightarrow> 'a list \<Rightarrow> 'a list" where
  "list_delete_at i xs = take i xs @ drop (Suc i) xs"

definition ir_instrcall_par_delete :: "nat \<Rightarrow> ir_instruction \<Rightarrow> ir_instruction option" where
  "ir_instrcall_par_delete n inst =
     (case callParameters inst of None \<Rightarrow> None
      | Some l \<Rightarrow> if n < length l then Some (inst\<lparr>callParameters := Some (list_delete_at n l)\<rparr>)
                  else None)"

definition ir_instrcall_par_move :: "nat \<Rightarrow> nat \<Rightarrow> ir_instruction \<Rightarrow> ir_instruction option" where
  "ir_instrcall_par_move oldPos newPos inst =
     (case callParameters inst of None \<Rightarrow> None
      | Some l \<Rightarrow>
          if oldPos = newPos \<or> \<not> oldPos < length l then None
          else let data = l ! oldPos; l1 = list_delete_at oldPos l
               in if newPos = 0 then Some (inst\<lparr>callParameters := Some (data # l1)\<rparr>)
                  else if newPos - 1 < length l1
                  then Some (inst\<lparr>callParameters := Some (take newPos l1 @ data # drop newPos l1)\<rparr>)
                  else None)"

text \<open>The parameters in the order the code's \<open>switch\<close> falls through them: third, second, first.\<close>

definition ir_instr_pars :: "ir_instruction \<Rightarrow> ir_item list" where
  "ir_instr_pars inst = rev (take (ir_instr_pars_count_get inst) [param_1 inst, param_2 inst, param_3 inst])"

definition IRMETHOD_getInstructionParameter :: "ir_instruction \<Rightarrow> nat \<Rightarrow> ir_item option" where
  "IRMETHOD_getInstructionParameter inst n =
     (if n = 1 then Some (param_1 inst) else if n = 2 then Some (param_2 inst)
      else if n = 3 then Some (param_3 inst) else if n = 0 then Some (result inst) else None)"

section \<open>Classification of instructions\<close>

definition IRMETHOD_isACallInstruction :: "ir_instruction \<Rightarrow> bool" where
  "IRMETHOD_isACallInstruction inst \<longleftrightarrow>
     inst_type inst \<in> {IRCALL, IRLIBRARYCALL, IRVCALL, IRICALL, IRNATIVECALL}"

definition IRMETHOD_canInstructionPerformAMemoryLoad :: "ir_instruction \<Rightarrow> bool" where
  "IRMETHOD_canInstructionPerformAMemoryLoad inst \<longleftrightarrow>
     IRMETHOD_isACallInstruction inst \<or> inst_type inst \<in> {IRLOADREL, IRMEMCPY, IRMEMCMP}"

definition IRMETHOD_canInstructionPerformAMemoryStore :: "ir_instruction \<Rightarrow> bool" where
  "IRMETHOD_canInstructionPerformAMemoryStore inst \<longleftrightarrow>
     IRMETHOD_isACallInstruction inst \<or>
     inst_type inst \<in> {IRNEWOBJ, IRNEWARR, IRFREEOBJ, IRINITMEMORY, IRMEMCPY, IRALLOC, IRALLOCALIGN,
       IRCALLOC, IRALLOCA, IRREALLOC, IRSTOREREL}"

definition IRMETHOD_isAnExceptionInstructionType :: "nat \<Rightarrow> bool" where
  "IRMETHOD_isAnExceptionInstructionType ty \<longleftrightarrow>
     ty \<in> {IRSTARTFILTER, IRENDFILTER, IRCALLFILTER, IRTHROW, IRSTARTCATCHER}"

definition IRMETHOD_isAMemoryAllocationInstructionType :: "nat \<Rightarrow> bool" where
  "IRMETHOD_isAMemoryAllocationInstructionType ty \<longleftrightarrow>
     ty \<in> {IRNEWOBJ, IRNEWARR, IRFREEOBJ, IRALLOCA, IRALLOC, IRALLOCALIGN, IRCALLOC, IRREALLOC, IRFREE}"

definition IRMETHOD_isAMemoryInstructionType :: "nat \<Rightarrow> bool" where
  "IRMETHOD_isAMemoryInstructionType ty \<longleftrightarrow>
     ty \<in> {IRLOADREL, IRSTOREREL, IRINITMEMORY, IRMEMCPY, IRMEMCMP, IRARRAYLENGTH, IRSTRINGLENGTH,
       IRSTRINGCMP, IRSTRINGCHR}"

definition IRMETHOD_isAConversionInstructionType :: "nat \<Rightarrow> bool" where
  "IRMETHOD_isAConversionInstructionType ty \<longleftrightarrow> ty \<in> {IRCONV, IRCONVOVF, IRBITCAST}"

definition IRMETHOD_isABitwiseInstructionType :: "nat \<Rightarrow> bool" where
  "IRMETHOD_isABitwiseInstructionType ty \<longleftrightarrow> ty \<in> {IRAND, IROR, IRNOT, IRXOR, IRSHL, IRSHR}"

definition IRMETHOD_isACompareInstructionType :: "nat \<Rightarrow> bool" where
  "IRMETHOD_isACompareInstructionType ty \<longleftrightarrow> ty \<in> {IRLT, IRGT, IREQ, IRISNAN, IRISINF, IRCHECKNULL}"

definition IRMETHOD_isAJumpInstructionType :: "nat \<Rightarrow> bool" where
  "IRMETHOD_isAJumpInstructionType ty \<longleftrightarrow>
     ty \<in> {IRBRANCH, IRBRANCHIF, IRBRANCHIFNOT, IRRET, IRBRANCHIFPCNOTINRANGE, IREXIT, IRCALL,
       IRLIBRARYCALL, IRVCALL, IRICALL, IRNATIVECALL, IRCALLFINALLY, IRSTARTFINALLY, IRENDFINALLY}"

definition IRMETHOD_isABranchInstructionType :: "nat \<Rightarrow> bool" where
  "IRMETHOD_isABranchInstructionType ty \<longleftrightarrow>
     ty \<in> {IRBRANCH, IRBRANCHIF, IRBRANCHIFNOT, IRBRANCHIFPCNOTINRANGE}"

definition IRMETHOD_isAMathInstructionType :: "nat \<Rightarrow> bool" where
  "IRMETHOD_isAMathInstructionType ty \<longleftrightarrow>
     IRMETHOD_isABitwiseInstructionType ty \<or>
     ty \<in> {IRADD, IRADDOVF, IRSUB, IRSUBOVF, IRMUL, IRMULOVF, IRDIV, IRDIV_NOEXCEPTION, IRREM,
       IRREM_NOEXCEPTION, IRNEG, IRCOSH, IRCEIL, IRSIN, IRCOS, IRACOS, IRSQRT, IRFLOOR, IRPOW, IREXP,
       IRLOG10}"

definition mayInstructionOfTypeThrowException :: "nat \<Rightarrow> bool" where
  "mayInstructionOfTypeThrowException ty \<longleftrightarrow>
     ty \<in> {IRTHROW, IRSUBOVF, IRADDOVF, IRMULOVF, IRCONVOVF, IRCHECKNULL, IRDIV, IRREM, IRCALL, IRVCALL,
       IRICALL, IRLIBRARYCALL, IRNATIVECALL}"

definition ir_instr_is_a_jump_instruction :: "ir_instruction \<Rightarrow> bool" where
  "ir_instr_is_a_jump_instruction inst \<longleftrightarrow>
     IRMETHOD_isACallInstruction inst \<or>
     IRMETHOD_isAJumpInstructionType (inst_type inst) \<or>
     mayInstructionOfTypeThrowException (inst_type inst) \<or>
     inst_type inst \<in> {IRTHROW, IRCALLFILTER, IRENDFILTER} \<or>
     inst_type inst = IREXITNODE"

section \<open>Classification and size of types\<close>

definition IRMETHOD_isAPointerType :: "nat \<Rightarrow> bool" where
  "IRMETHOD_isAPointerType ty \<longleftrightarrow>
     ty \<in> {IRCLASSID, IRMETHODID, IRMETHODENTRYPOINT, IRMPOINTER, IRFPOINTER, IROBJECT, IRSTRING,
       IRSIGNATURE}"

definition IRMETHOD_isAPlatformDependentType :: "nat \<Rightarrow> bool" where
  "IRMETHOD_isAPlatformDependentType ty \<longleftrightarrow> ty \<in> {IRNINT, IRNUINT, IRNFLOAT} \<or> IRMETHOD_isAPointerType ty"

definition IRMETHOD_isADataValueType :: "nat \<Rightarrow> bool" where
  "IRMETHOD_isADataValueType ty \<longleftrightarrow> ty = IRVALUETYPE"

definition IRMETHOD_isAnIntType :: "nat \<Rightarrow> bool" where
  "IRMETHOD_isAnIntType ty \<longleftrightarrow>
     ty \<in> {IRINT8, IRINT16, IRINT32, IRINT64, IRNINT, IRUINT8, IRUINT16, IRUINT32, IRUINT64, IRNUINT}"

definition IRMETHOD_isAFloatType :: "nat \<Rightarrow> bool" where
  "IRMETHOD_isAFloatType ty \<longleftrightarrow> ty \<in> {IRFLOAT32, IRFLOAT64, IRNFLOAT}"

text \<open>The type an item stands for: the value of an \<open>IRTYPE\<close> item (cut to 32 bits), else its internal type.\<close>

definition described_type :: "ir_item \<Rightarrow> nat" where
  "described_type item =
     (if item_type item = IRTYPE then unat (take_bit 32 (val item)) else internal_type item)"

definition IRMETHOD_hasAPointerType :: "ir_item \<Rightarrow> bool" where
  "IRMETHOD_hasAPointerType item \<longleftrightarrow> IRMETHOD_isAPointerType (described_type item)"

definition IRMETHOD_hasADataValueType :: "ir_item \<Rightarrow> bool" where
  "IRMETHOD_hasADataValueType item \<longleftrightarrow> IRMETHOD_isADataValueType (described_type item)"

definition IRMETHOD_hasAnIntType :: "ir_item \<Rightarrow> bool" where
  "IRMETHOD_hasAnIntType item \<longleftrightarrow> IRMETHOD_isAnIntType (described_type item)"

definition IRMETHOD_hasAFloatType :: "ir_item \<Rightarrow> bool" where
  "IRMETHOD_hasAFloatType item \<longleftrightarrow> IRMETHOD_isAFloatType (described_type item)"

text \<open>
  Sizes in bytes, for the 64-bit platform the rest of the model assumes
  (\<open>sizeof(JITNINT) = sizeof(JITNUINT) = 8\<close>; the size of the platform's \<open>JITNFLOAT\<close> is a
  parameter). \<open>None\<close> stands for \<open>abort()\<close>.
\<close>

definition IRDATA_getSizeOfIRType :: "nat \<Rightarrow> nat \<Rightarrow> nat option" where
  "IRDATA_getSizeOfIRType sizeof_JITNFLOAT ty =
     (if IRMETHOD_isAPointerType ty then Some 8
      else if ty \<in> {IRLABELITEM, IRVOID} then Some 0
      else if ty \<in> {IRINT8, IRUINT8} then Some 1
      else if ty \<in> {IRINT16, IRUINT16} then Some 2
      else if ty \<in> {IRINT32, IRUINT32, IRFLOAT32} then Some 4
      else if ty \<in> {IRINT64, IRUINT64, IRFLOAT64} then Some 8
      else if ty \<in> {IRNINT, IRNUINT} then Some 8
      else if ty = IRNFLOAT then Some sizeof_JITNFLOAT
      else None)"

text \<open>\<open>getTypeSize\<close> is \<open>ir_library->getTypeSize\<close>, the layout manager behind the library.\<close>

definition IRDATA_getSizeOfType :: "nat \<Rightarrow> (nat \<Rightarrow> nat) \<Rightarrow> ir_item \<Rightarrow> nat option" where
  "IRDATA_getSizeOfType sizeof_JITNFLOAT getTypeSize item =
     (let ty = (if internal_type item = IRTYPE then unat (take_bit 32 (val item)) else internal_type item)
      in if IRMETHOD_isAPointerType ty then Some 8
         else if ty \<in> {IRLABELITEM, IRVOID} then Some 0
         else if ty \<in> {IRINT8, IRUINT8} then Some 1
         else if ty \<in> {IRINT16, IRUINT16} then Some 2
         else if ty \<in> {IRINT32, IRUINT32, IRFLOAT32} then Some 4
         else if ty \<in> {IRINT64, IRUINT64, IRFLOAT64} then Some 8
         else if ty \<in> {IRNINT, IRNUINT} then Some 8
      else if ty = IRNFLOAT then Some sizeof_JITNFLOAT
         else if ty = IRVALUETYPE then map_option getTypeSize (type_infos item)
         else None)"

section \<open>Setting items\<close>

text \<open>
  The common body of \<open>ir_instr_par1_set\<close>, \<open>ir_instr_par2_set\<close>, \<open>ir_instr_par3_set\<close> and
  \<open>ir_instr_result_set\<close>: one of the two values is written into the union.
\<close>

definition set_item :: "64 word \<Rightarrow> 64 word \<Rightarrow> int \<Rightarrow> nat \<Rightarrow> nat option \<Rightarrow> ir_item" where
  "set_item value0 fvalue ty ity cls =
     \<lparr>val = (if IRMETHOD_isAFloatType ity \<and> ty \<noteq> IROFFSET then fvalue else value0),
      item_type = ty, internal_type = ity, type_infos = cls\<rparr>"

definition ir_instr_par1_set ::
  "64 word \<Rightarrow> 64 word \<Rightarrow> int \<Rightarrow> nat \<Rightarrow> nat option \<Rightarrow> ir_instruction \<Rightarrow> ir_instruction" where
  "ir_instr_par1_set value0 fvalue ty ity cls inst = inst\<lparr>param_1 := set_item value0 fvalue ty ity cls\<rparr>"

definition ir_instr_par2_set ::
  "64 word \<Rightarrow> 64 word \<Rightarrow> int \<Rightarrow> nat \<Rightarrow> nat option \<Rightarrow> ir_instruction \<Rightarrow> ir_instruction" where
  "ir_instr_par2_set value0 fvalue ty ity cls inst = inst\<lparr>param_2 := set_item value0 fvalue ty ity cls\<rparr>"

definition ir_instr_par3_set ::
  "64 word \<Rightarrow> 64 word \<Rightarrow> int \<Rightarrow> nat \<Rightarrow> nat option \<Rightarrow> ir_instruction \<Rightarrow> ir_instruction" where
  "ir_instr_par3_set value0 fvalue ty ity cls inst = inst\<lparr>param_3 := set_item value0 fvalue ty ity cls\<rparr>"

definition ir_instr_result_set ::
  "64 word \<Rightarrow> 64 word \<Rightarrow> int \<Rightarrow> nat \<Rightarrow> nat option \<Rightarrow> ir_instruction \<Rightarrow> ir_instruction" where
  "ir_instr_result_set value0 fvalue ty ity cls inst = inst\<lparr>result := set_item value0 fvalue ty ity cls\<rparr>"

text \<open>\<open>None\<close> stands for \<open>abort()\<close>.\<close>

definition IRMETHOD_eraseInstructionParameter :: "nat \<Rightarrow> ir_instruction \<Rightarrow> ir_instruction option" where
  "IRMETHOD_eraseInstructionParameter parameterNumber inst =
     (if parameterNumber = 0 then Some (inst\<lparr>result := nopar_item\<rparr>)
      else if parameterNumber = 1 then Some (inst\<lparr>param_1 := nopar_item\<rparr>)
      else if parameterNumber = 2 then Some (inst\<lparr>param_2 := nopar_item\<rparr>)
      else if parameterNumber = 3 then Some (inst\<lparr>param_3 := nopar_item\<rparr>)
      else None)"

definition IRDATA_isAVariable :: "ir_item \<Rightarrow> bool" where
  "IRDATA_isAVariable item \<longleftrightarrow> item_type item = IROFFSET"

definition IRDATA_isASymbol :: "ir_item \<Rightarrow> bool" where
  "IRDATA_isASymbol item \<longleftrightarrow> item_type item = IRSYMBOL"

definition IRDATA_isAConstant :: "ir_item \<Rightarrow> bool" where
  "IRDATA_isAConstant item \<longleftrightarrow> item_type item \<noteq> IROFFSET \<and> item_type item \<noteq> IRSYMBOL"

text \<open>A type stored in the field \<open>type\<close>, which is a \<open>JITINT16\<close>.\<close>

definition as_item_type :: "nat \<Rightarrow> int" where
  "as_item_type ty = sint (word_of_nat ty :: 16 word)"

text \<open>A changed instruction, and the deletion of an instruction: the positions behind it move down by one.\<close>

definition replace_instruction :: "nat \<Rightarrow> ir_instruction \<Rightarrow> ir_method \<Rightarrow> ir_method" where
  "replace_instruction instID inst m = m\<lparr>instructions := (instructions m)[instID := inst]\<rparr>"

definition delete_instruction :: "nat \<Rightarrow> ir_method \<Rightarrow> ir_method" where
  "delete_instruction instID m = m\<lparr>instructions := list_delete_at instID (instructions m)\<rparr>"

lemma count_replace [simp]: "ir_instr_count (replace_instruction i x m) = ir_instr_count m"
  by (simp add: replace_instruction_def ir_instr_count_def)

lemma count_delete: "ir_instr_count (delete_instruction i m) \<le> ir_instr_count m"
  by (simp add: delete_instruction_def list_delete_at_def ir_instr_count_def)

section \<open>Variables and labels of an instruction\<close>

definition IRMETHOD_doesInstructionDefineVariable :: "ir_instruction \<Rightarrow> 64 word \<Rightarrow> bool" where
  "IRMETHOD_doesInstructionDefineVariable inst varID \<longleftrightarrow>
     item_type (result inst) = IROFFSET \<and> val (result inst) = varID"

definition IRMETHOD_doInstructionsDefineVariable :: "ir_instruction list \<Rightarrow> 64 word \<Rightarrow> bool" where
  "IRMETHOD_doInstructionsDefineVariable insts varID \<longleftrightarrow>
     list_ex (\<lambda>inst. IRMETHOD_doesInstructionDefineVariable inst varID) insts"

definition IRMETHOD_doesInstructionUseLabel :: "ir_instruction \<Rightarrow> 64 word \<Rightarrow> bool" where
  "IRMETHOD_doesInstructionUseLabel inst labelID \<longleftrightarrow>
     list_ex (\<lambda>item. item_type item = IRLABELITEM \<and> val item = labelID) (ir_instr_pars inst)"

definition IRMETHOD_doesInstructionUseVariable :: "ir_instruction \<Rightarrow> 64 word \<Rightarrow> bool" where
  "IRMETHOD_doesInstructionUseVariable inst varID \<longleftrightarrow>
     list_ex (\<lambda>item. item_type item = IROFFSET \<and> val item = varID) (ir_instr_pars inst) \<or>
     list_ex (\<lambda>item. item_type item = IROFFSET \<and> val item = varID)
       (case callParameters inst of None \<Rightarrow> [] | Some l \<Rightarrow> l)"

definition IRMETHOD_doInstructionsUseVariable :: "ir_instruction list \<Rightarrow> 64 word \<Rightarrow> bool" where
  "IRMETHOD_doInstructionsUseVariable insts varID \<longleftrightarrow>
     list_ex (\<lambda>inst. IRMETHOD_doesInstructionUseVariable inst varID) insts"

definition IRMETHOD_getIRItemOfVariableDefinedByInstruction :: "ir_instruction \<Rightarrow> ir_item option" where
  "IRMETHOD_getIRItemOfVariableDefinedByInstruction inst =
     (if item_type (result inst) = IROFFSET then Some (result inst) else None)"

definition IRMETHOD_getVariableDefinedByInstruction :: "ir_instruction \<Rightarrow> 64 word" where
  "IRMETHOD_getVariableDefinedByInstruction inst =
     (if item_type (result inst) = IROFFSET then val (result inst) else NOPARAM_VALUE)"

definition IRMETHOD_getVariablesUsedByInstruction :: "ir_instruction \<Rightarrow> ir_item list" where
  "IRMETHOD_getVariablesUsedByInstruction inst =
     filter (\<lambda>par. item_type par = IROFFSET) (rev (ir_instr_pars inst)) @
     filter (\<lambda>par. item_type par = IROFFSET) (case callParameters inst of None \<Rightarrow> [] | Some l \<Rightarrow> l)"

text \<open>The set of variables an instruction reads, as every analysis means it.\<close>

definition vars_of :: "ir_item list \<Rightarrow> nat set" where
  "vars_of items = set (map (\<lambda>item. unat (val item)) (filter (\<lambda>item. item_type item = IROFFSET) items))"

definition used_vars :: "ir_instruction \<Rightarrow> nat set" where
  "used_vars inst = vars_of (IRMETHOD_getVariablesUsedByInstruction inst)"

lemma vars_of_simps [simp]:
  "vars_of [] = {}"
  "vars_of (item # items) = (if item_type item = IROFFSET then {unat (val item)} else {}) \<union> vars_of items"
  "vars_of (as @ bs) = vars_of as \<union> vars_of bs"
  by (auto simp: vars_of_def)

lemma vars_of_less: "vars_of items \<subseteq> {..<k} \<longleftrightarrow>
    list_all (\<lambda>item. item_type item = IROFFSET \<longrightarrow> unat (val item) < k) items"
  by (induction items) auto

lemma in_vars_of: "unat v \<in> vars_of items \<longleftrightarrow> list_ex (\<lambda>item. item_type item = IROFFSET \<and> val item = v) items"
  by (induction items) (auto simp: word_unat_eq_iff)

section \<open>The variables of a method\<close>

definition call_items :: "ir_instruction \<Rightarrow> ir_item list" where
  "call_items inst = (if IRMETHOD_isACallInstruction inst
     then case callParameters inst of None \<Rightarrow> [] | Some l \<Rightarrow> l else [])"

definition defined_vars :: "ir_instruction \<Rightarrow> nat set" where
  "defined_vars inst = (if item_type (result inst) = IROFFSET then {unat (val (result inst))} else {})"

definition method_defines :: "ir_method \<Rightarrow> nat \<Rightarrow> nat set" where
  "method_defines m i =
     (if i < parametersNumber m then {i}
      else if i < ir_instr_count m then defined_vars (ir_instr_get_by_pos m i) else {})"

definition items_of :: "ir_instruction \<Rightarrow> ir_item list" where
  "items_of inst = [param_1 inst, param_2 inst, param_3 inst, result inst] @
     (case callParameters inst of None \<Rightarrow> [] | Some l \<Rightarrow> l)"

text \<open>Every variable an instruction mentions is below \<open>var_max\<close>; the parameters have their dummy instructions.\<close>

definition variables_ok :: "ir_method \<Rightarrow> bool" where
  "variables_ok m \<longleftrightarrow> parametersNumber m \<le> ir_instr_count m \<and> parametersNumber m \<le> var_max m \<and>
     var_max m < 2 ^ 32 \<and>
     list_all (\<lambda>inst. vars_of (items_of inst) \<subseteq> {..<var_max m}) (instructions m)"

lemma all_instructions:
  "list_all P (instructions m) \<longleftrightarrow> (\<forall>i<ir_instr_count m. P (ir_instr_get_by_pos m i))"
  by (auto simp: list_all_length ir_instr_count_def ir_instr_get_by_pos_def)

lemma ex_instruction:
  "list_ex P (instructions m) \<longleftrightarrow> (\<exists>i<ir_instr_count m. P (ir_instr_get_by_pos m i))"
  by (auto simp: list_ex_length ir_instr_count_def ir_instr_get_by_pos_def)

lemma defined_vars_less:
  assumes "variables_ok m" and "i < ir_instr_count m"
  shows "method_defines m i \<subseteq> {..<var_max m}"
proof -
  have "vars_of (items_of (ir_instr_get_by_pos m i)) \<subseteq> {..<var_max m}" "parametersNumber m \<le> var_max m"
    using assms by (simp_all add: variables_ok_def all_instructions)
  then show ?thesis
    by (auto simp: method_defines_def defined_vars_def items_of_def split: if_splits)
qed

lemma small_not_minus_one: "unat (v :: 64 word) < 2 ^ 33 \<Longrightarrow> v \<noteq> -1"
  by (auto simp: unsigned_minus_1_eq_mask mask_eq_exp_minus_1)

section \<open>A small method for the examples\<close>

definition var_item :: "nat \<Rightarrow> ir_item" where
  "var_item v = \<lparr>val = word_of_nat v, item_type = IROFFSET, internal_type = IRINT32, type_infos = None\<rparr>"

definition const_item :: "int \<Rightarrow> ir_item" where
  "const_item c = \<lparr>val = word_of_int c, item_type = IRINT32, internal_type = IRINT32, type_infos = None\<rparr>"

definition label_item :: "nat \<Rightarrow> ir_item" where
  "label_item l = \<lparr>val = word_of_nat l, item_type = IRLABELITEM, internal_type = IRLABELITEM, type_infos = None\<rparr>"

definition mk_inst :: "nat \<Rightarrow> ir_item \<Rightarrow> ir_item \<Rightarrow> ir_item \<Rightarrow> ir_instruction" where
  "mk_inst ty res p1 p2 = ir_instr_init\<lparr>inst_type := ty, param_1 := p1, param_2 := p2, result := res\<rparr>"

definition mk_method :: "nat \<Rightarrow> nat \<Rightarrow> ir_instruction list \<Rightarrow> ir_method" where
  "mk_method params vars insts =
     \<lparr>instructions = insts, parametersNumber = params, var_max = vars, locals = []\<rparr>"

text \<open>
  \<open>0: nop; 1: v1 = 7; 2: L1; 3: branchif v0 L2; 4: v1 = v1 + v0; 5: branch L1; 6: L2; 7: ret v1\<close>
\<close>

definition demo :: ir_method where
  "demo = mk_method 1 2
    [mk_inst IRNOP nopar_item nopar_item nopar_item,
     mk_inst IRMOVE (var_item 1) (const_item 7) nopar_item,
     mk_inst IRLABEL nopar_item (label_item 1) nopar_item,
     mk_inst IRBRANCHIF nopar_item (var_item 0) (label_item 2),
     mk_inst IRADD (var_item 1) (var_item 1) (var_item 0),
     mk_inst IRBRANCH nopar_item (label_item 1) nopar_item,
     mk_inst IRLABEL nopar_item (label_item 2) nopar_item,
     mk_inst IRRET nopar_item (var_item 1) nopar_item]"

lemmas demo_simps =
  demo_def mk_method_def mk_inst_def var_item_def const_item_def label_item_def nopar_item_def
  ir_instr_init_def exit_node_def ir_instr_count_def ir_instr_get_by_pos_def

lemma demo_count [simp]: "ir_instr_count demo = 8"
  by (simp add: demo_simps)

lemma demo_variables: "variables_ok demo"
  by (simp add: variables_ok_def demo_simps items_of_def)

section \<open>Properties\<close>

text \<open>
  \<open>IRMETHOD_doesInstructionUseVariable\<close>, which scans the parameters through a falling \<open>switch\<close> and
  then the call parameters, answers exactly for the variables that
  \<open>IRMETHOD_getVariablesUsedByInstruction\<close> collects.
\<close>

theorem doesInstructionUseVariable_iff:
  "IRMETHOD_doesInstructionUseVariable inst varID \<longleftrightarrow> unat varID \<in> used_vars inst"
  unfolding used_vars_def in_vars_of
  by (auto simp: IRMETHOD_doesInstructionUseVariable_def IRMETHOD_getVariablesUsedByInstruction_def
      list_ex_iff split: option.splits)

text \<open>
  Erasing a parameter of an instruction cuts the count of its parameters to those before it,
  whatever the parameters after it hold: erasing the first one leaves an instruction with none, even when
  the second one is still present.
\<close>

theorem eraseInstructionParameter_count:
  assumes "IRMETHOD_eraseInstructionParameter k inst = Some inst'" and "0 < k"
  shows "ir_instr_pars_count_get inst' = min (k - 1) (ir_instr_pars_count_get inst)"
  using assms
  by (auto simp: IRMETHOD_eraseInstructionParameter_def ir_instr_pars_count_get_def nopar_item_def
      split: if_splits)

theorem eraseInstructionParameter_count_witness:
  "ir_instr_pars_count_get (the (IRMETHOD_eraseInstructionParameter 1 (instructions demo ! 4))) = 0"
  using eraseInstructionParameter_count [of 1 "instructions demo ! 4"
      "the (IRMETHOD_eraseInstructionParameter 1 (instructions demo ! 4))"]
  by (simp add: IRMETHOD_eraseInstructionParameter_def)

end
