(* ===== verification/ControlFlow.thy ===== *)
theory ControlFlow
  imports IRLang
begin

text \<open>
  The control flow graph of a method, as \<open>libirmanager/src/ir_method.c\<close> computes it: the navigation
  functions, the searches for label-like instructions, \<open>ir_instr_get_successor\<close> and
  \<open>ir_instr_get_predecessor\<close> (called repeatedly, each call receives the previous answer), and the
  loops that collect the answers in lists. Instructions are positions; the exit node is
  the position \<open>ir_instr_count m\<close>; a NULL instruction is \<open>None\<close>. Assertions are compiled out here;
  the ones that state a property of the graph are theorems below.
\<close>

section \<open>Navigation\<close>

definition exitNode :: "ir_method \<Rightarrow> nat" where
  "exitNode m = ir_instr_count m"

definition ir_instr_get_first :: "ir_method \<Rightarrow> nat option" where
  "ir_instr_get_first m = (if ir_instr_count m > 0 then Some 0 else None)"

definition ir_instr_get_last :: "ir_method \<Rightarrow> nat" where
  "ir_instr_get_last m = (if ir_instr_count m = 0 then exitNode m else ir_instr_count m - 1)"

definition ir_instr_get_next :: "ir_method \<Rightarrow> nat option \<Rightarrow> nat option" where
  "ir_instr_get_next m inst =
     (case inst of
        None \<Rightarrow> ir_instr_get_first m
      | Some i \<Rightarrow>
          if i = ir_instr_get_last m then Some (exitNode m)
          else if i = exitNode m then None
          else Some (i + 1))"

definition ir_instr_get_prev :: "ir_method \<Rightarrow> nat option \<Rightarrow> nat option" where
  "ir_instr_get_prev m inst =
     (case inst of None \<Rightarrow> None | Some i \<Rightarrow> if i = 0 then None else Some (i - 1))"

abbreviation par1v :: "ir_method \<Rightarrow> nat \<Rightarrow> 64 word" where
  "par1v m i \<equiv> val (param_1 (ir_instr_get_by_pos m i))"

abbreviation par2v :: "ir_method \<Rightarrow> nat \<Rightarrow> 64 word" where
  "par2v m i \<equiv> val (param_2 (ir_instr_get_by_pos m i))"

abbreviation par3v :: "ir_method \<Rightarrow> nat \<Rightarrow> 64 word" where
  "par3v m i \<equiv> val (param_3 (ir_instr_get_by_pos m i))"

section \<open>Searches\<close>

text \<open>
  The argument \<open>labelID\<close> has type \<open>JITUINT32\<close>, so the 64-bit value the callers pass is cut to 32
  bits, and compared with the 64-bit value of the candidates.
\<close>

definition ir_instr_label_like_get :: "ir_method \<Rightarrow> 64 word \<Rightarrow> nat \<Rightarrow> nat option" where
  "ir_instr_label_like_get m labelID instType =
     find_from (\<lambda>i. type_at m i = instType \<and> par1v m i = take_bit 32 labelID) [0..<ir_instr_count m]"

definition ir_instr_filter_get :: "ir_method \<Rightarrow> 64 word \<Rightarrow> nat option" where
  "ir_instr_filter_get m labelID = ir_instr_label_like_get m labelID IRSTARTFILTER"

definition ir_instr_finally_get :: "ir_method \<Rightarrow> 64 word \<Rightarrow> nat option" where
  "ir_instr_finally_get m labelID = ir_instr_label_like_get m labelID IRSTARTFINALLY"

definition ir_instr_call_finally_get :: "ir_method \<Rightarrow> 64 word \<Rightarrow> nat option" where
  "ir_instr_call_finally_get m labelID = ir_instr_label_like_get m labelID IRCALLFINALLY"

definition ir_instr_label_get :: "ir_method \<Rightarrow> 64 word \<Rightarrow> nat option" where
  "ir_instr_label_get m labelID = ir_instr_label_like_get m labelID IRLABEL"

text \<open>The search for the catcher runs from the last instruction to the first.\<close>

definition ir_instrcatcher_get :: "ir_method \<Rightarrow> nat option" where
  "ir_instrcatcher_get m = find_from (\<lambda>i. type_at m i = IRSTARTCATCHER) (rev [0..<ir_instr_count m])"

text \<open>
  The pair \<open>catcherInst\<close>, \<open>catcherInstInitialized\<close> that callers pass to search the catcher only
  once; \<open>None\<close> when the caller passes NULL.
\<close>

record catcher_cache =
  catcherInst :: "nat option"
  catcherInstInitialized :: bool

definition fetch_catcher :: "ir_method \<Rightarrow> catcher_cache option \<Rightarrow> nat option \<times> catcher_cache option" where
  "fetch_catcher m cache =
     (case cache of
        None \<Rightarrow> (ir_instrcatcher_get m, None)
      | Some c \<Rightarrow>
          if catcherInstInitialized c then (catcherInst c, Some c)
          else let catcher = ir_instrcatcher_get m
               in (catcher, Some \<lparr>catcherInst = catcher, catcherInstInitialized = True\<rparr>))"

section \<open>Successors\<close>

text \<open>
  \<open>while ((successor = ir_instr_get_next(method, successor)))\<close> of the case \<open>IRENDFINALLY\<close>: the
  next \<open>IRCALLFINALLY\<close> of the same label after a position, \<open>None\<close> when the end is reached.
\<close>

definition next_call_finally :: "ir_method \<Rightarrow> 64 word \<Rightarrow> nat \<Rightarrow> nat option" where
  "next_call_finally m label prev =
     find_from (\<lambda>i. type_at m i = IRCALLFINALLY \<and> par1v m i = label) [prev + 1..<ir_instr_count m]"

definition ir_instr_get_successor ::
  "ir_method \<Rightarrow> nat \<Rightarrow> nat option \<Rightarrow> catcher_cache option \<Rightarrow> nat option \<times> catcher_cache option" where
  "ir_instr_get_successor m inst prevSuccessor cache =
    (let ty = type_at m inst; next = ir_instr_get_next m (Some inst) in
     if prevSuccessor = Some (exitNode m) then (None, cache)
     else if ty = IRRET then (Some (exitNode m), cache)
     else if ty = IRBRANCH then
       (if prevSuccessor \<noteq> None then None else ir_instr_label_get m (par1v m inst), cache)
     else if ty = IRCALLFINALLY then
       (if prevSuccessor \<noteq> None then None else ir_instr_finally_get m (par1v m inst), cache)
     else if ty = IRCALLFILTER then
       (if prevSuccessor \<noteq> None then None else ir_instr_filter_get m (par1v m inst), cache)
     else if ty \<in> {IRBRANCHIF, IRBRANCHIFNOT} then
       (if prevSuccessor = None then next
        else let successor = ir_instr_label_get m (par2v m inst)
             in if successor = prevSuccessor then None else successor, cache)
     else if ty = IRBRANCHIFPCNOTINRANGE then
       (if prevSuccessor = None then next
        else let successor = ir_instr_label_get m (par3v m inst)
             in if successor = prevSuccessor then None else successor, cache)
     else if ty = IRTHROW then
       (case prevSuccessor of
          Some p \<Rightarrow> (if type_at m p = IRSTARTCATCHER then Some (exitNode m) else None, cache)
        | None \<Rightarrow>
            let (catcher, cache') = fetch_catcher m cache
            in (case catcher of
                  Some c \<Rightarrow> if inst < c then Some c else Some (exitNode m)
                | None \<Rightarrow> Some (exitNode m), cache'))
     else if ty = IRENDFINALLY then
       (case prevSuccessor of
          Some p \<Rightarrow>
            (case next_call_finally m (par1v m inst) p of
               Some k \<Rightarrow> ir_instr_get_next m (Some k)
             | None \<Rightarrow> None)
        | None \<Rightarrow>
            if item_type (param_1 (ir_instr_get_by_pos m inst)) \<noteq> NOPARAM then
              (case ir_instr_call_finally_get m (par1v m inst) of
                 None \<Rightarrow> None
               | Some k \<Rightarrow> let successor = ir_instr_get_next m (Some k)
                          in if successor \<noteq> Some inst then successor else None)
            else None, cache)
     else if ty = IRENDFILTER then
       (if prevSuccessor \<noteq> None then None
        else if item_type (param_2 (ir_instr_get_by_pos m inst)) = NOPARAM then None
        else ir_instr_label_get m (par2v m inst), cache)
     else if mayInstructionOfTypeThrowException ty then
       (if prevSuccessor \<noteq> None then
          if prevSuccessor = next then
            let (catcher, cache') = fetch_catcher m cache
            in (case catcher of
                  Some c \<Rightarrow> if Some c \<noteq> prevSuccessor \<and> inst < c then Some c else Some (exitNode m)
                | None \<Rightarrow> Some (exitNode m), cache')
          else (None, cache)
        else (next, cache))
     else (if prevSuccessor \<noteq> None then None else next, cache))"

text \<open>
  \<open>if (prevSuccessor != method->exitNode) return method->exitNode;\<close> always holds where the code
  tests it, because the first test of the function already returned for the exit node.
\<close>

text \<open>\<open>internal_getInstructionSuccessors\<close>: the loop may not end, so it is a partial function.\<close>

partial_function (option) successors_loop ::
  "ir_method \<Rightarrow> nat \<Rightarrow> nat option \<Rightarrow> catcher_cache option \<Rightarrow> nat list \<Rightarrow>
   (nat list \<times> catcher_cache option) option" where
  "successors_loop m inst pred cache l =
     (case pred of
        None \<Rightarrow> Some (l, cache)
      | Some p \<Rightarrow>
          (case ir_instr_get_successor m inst (Some p) cache of
             (pred', cache') \<Rightarrow> successors_loop m inst pred' cache' (l @ [p])))"

definition internal_getInstructionSuccessors ::
  "ir_method \<Rightarrow> nat \<Rightarrow> catcher_cache option \<Rightarrow> (nat list \<times> catcher_cache option) option" where
  "internal_getInstructionSuccessors m inst cache =
     (case ir_instr_get_successor m inst None cache of
        (pred, cache') \<Rightarrow> successors_loop m inst pred cache' [])"

text \<open>
  \<open>IRMETHOD_getInstructionsSuccessors\<close>: the lists of all positions \<open>0 .. n\<close>, in a loop that threads one
  catcher cache.
\<close>

fun successors_table ::
  "ir_method \<Rightarrow> catcher_cache option \<Rightarrow> nat list \<Rightarrow> nat list list option" where
  "successors_table m cache [] = Some []"
| "successors_table m cache (count # counts) =
     (case internal_getInstructionSuccessors m count cache of
        None \<Rightarrow> None
      | Some (l, cache') \<Rightarrow> map_option ((#) l) (successors_table m cache' counts))"

definition no_catcher_yet :: catcher_cache where
  "no_catcher_yet = \<lparr>catcherInst = None, catcherInstInitialized = False\<rparr>"

definition IRMETHOD_getInstructionsSuccessors :: "ir_method \<Rightarrow> nat list list option" where
  "IRMETHOD_getInstructionsSuccessors m =
     successors_table m (Some no_catcher_yet) [0..<ir_instr_count m + 1]"

definition IRMETHOD_getSuccessorsNumber :: "ir_method \<Rightarrow> nat \<Rightarrow> nat option" where
  "IRMETHOD_getSuccessorsNumber m inst =
     map_option (length \<circ> fst) (internal_getInstructionSuccessors m inst (Some no_catcher_yet))"

section \<open>Predecessors\<close>

definition internal_has_next_instruction_as_successor_without_jumps :: "ir_method \<Rightarrow> nat \<Rightarrow> bool" where
  "internal_has_next_instruction_as_successor_without_jumps m inst \<longleftrightarrow>
     type_at m inst \<notin>
       {IRTHROW, IRCALLFINALLY, IRENDFINALLY, IRBRANCH, IRENDFILTER, IRRET, IREXITNODE}"

text \<open>\<open>None\<close> stands for the NULL dereference when there is no next instruction to look at.\<close>

definition internal_has_next_instruction_as_successor :: "ir_method \<Rightarrow> nat \<Rightarrow> bool option" where
  "internal_has_next_instruction_as_successor m inst =
    (let ty = type_at m inst; next = ir_instr_get_next m (Some inst) in
     if ty = IRBRANCH then
       map_option (\<lambda>j. type_at m j = IRLABEL \<and> par1v m j = par1v m inst) next
     else if ty = IRTHROW then map_option (\<lambda>j. type_at m j = IRSTARTCATCHER) next
     else if ty = IRCALLFINALLY then
       map_option (\<lambda>j. type_at m j = IRSTARTFINALLY \<and> par1v m j = par1v m inst) next
     else if ty \<in> {IRENDFINALLY, IRENDFILTER, IRRET, IREXITNODE} then Some False
     else Some True)"

definition ir_get_first_instr_by_type :: "ir_method \<Rightarrow> nat \<Rightarrow> nat \<Rightarrow> nat option" where
  "ir_get_first_instr_by_type m instrType startPosition =
     find_from (\<lambda>i. type_at m i = instrType) [startPosition..<ir_instr_count m]"

definition ir_get_next_instr_of_same_type :: "ir_method \<Rightarrow> nat \<Rightarrow> nat option" where
  "ir_get_next_instr_of_same_type m instr =
     find_from (\<lambda>i. type_at m i = type_at m instr) [instr + 1..<ir_instr_count m]"

definition ir_get_first_return_instr :: "ir_method \<Rightarrow> nat option" where
  "ir_get_first_return_instr m = ir_get_first_instr_by_type m IRRET 0"

definition ir_get_exit_node_first_predecessor :: "ir_method \<Rightarrow> nat option" where
  "ir_get_exit_node_first_predecessor m =
     (case ir_get_first_return_instr m of
        Some i \<Rightarrow> Some i
      | None \<Rightarrow>
          let startPosition = (case ir_instrcatcher_get m of None \<Rightarrow> 0 | Some c \<Rightarrow> c + 1)
          in (case ir_get_first_instr_by_type m IRTHROW startPosition of
                Some i \<Rightarrow> Some i
              | None \<Rightarrow>
                  let lastInst = ir_instr_get_last m
                  in if \<not> ir_instr_is_a_jump_instruction (ir_instr_get_by_pos m lastInst)
                     then Some lastInst else None))"

text \<open>\<open>None\<close> is the code's -1.\<close>

definition next_type :: "nat \<Rightarrow> nat option" where
  "next_type ty =
     (if ty = IRRET then Some IRTHROW
      else if ty = IRTHROW then Some IRSUBOVF
      else if ty = IRSUBOVF then Some IRADDOVF
      else if ty = IRADDOVF then Some IRMULOVF
      else if ty = IRMULOVF then Some IRCONVOVF
      else if ty = IRCONVOVF then Some IRCHECKNULL
      else if ty = IRCHECKNULL then Some IRDIV
      else if ty = IRDIV then Some IRREM
      else if ty = IRREM then Some IRCALL
      else if ty = IRCALL then Some IRVCALL
      else if ty = IRVCALL then Some IRICALL
      else if ty = IRICALL then Some IRLIBRARYCALL
      else None)"

text \<open>The position of a type in that chain; it bounds the search over the types.\<close>

definition type_rank :: "nat option \<Rightarrow> nat" where
  "type_rank ty = (case ty of None \<Rightarrow> 0 | Some t \<Rightarrow>
     if t = IRRET then 14 else if t = IRTHROW then 13 else if t = IRSUBOVF then 12
     else if t = IRADDOVF then 11 else if t = IRMULOVF then 10 else if t = IRCONVOVF then 9
     else if t = IRCHECKNULL then 8 else if t = IRDIV then 7 else if t = IRREM then 6
     else if t = IRCALL then 5 else if t = IRVCALL then 4 else if t = IRICALL then 3
     else if t = IRLIBRARYCALL then 2 else 1)"

lemma next_type_rank: "type_rank (next_type ty) < type_rank (Some ty)"
  by (simp add: next_type_def type_rank_def)

text \<open>\<open>while (inst == NULL && type != -1)\<close>: the first instruction of the first type that has one.\<close>

function exit_node_type_search :: "ir_method \<Rightarrow> nat option \<Rightarrow> nat option" where
  "exit_node_type_search m ty =
     (case ty of
        None \<Rightarrow> None
      | Some t \<Rightarrow>
          let startPosition =
                (case ir_instrcatcher_get m of
                   None \<Rightarrow> 0
                 | Some c \<Rightarrow> if mayInstructionOfTypeThrowException t then c + 1 else 0)
          in (case ir_get_first_instr_by_type m t startPosition of
                Some i \<Rightarrow> Some i
              | None \<Rightarrow> exit_node_type_search m (next_type t)))"
  by pat_completeness auto
termination
  by (relation "measure (\<lambda>(m, ty). type_rank ty)") (auto simp: next_type_rank)

declare exit_node_type_search.simps [simp del]

definition is_already_checked_type_for_exit_node_predecessor :: "ir_instruction \<Rightarrow> bool" where
  "is_already_checked_type_for_exit_node_predecessor inst \<longleftrightarrow> inst_type inst \<in> {IRRET, IRTHROW}"

definition ir_get_exit_node_predecessor :: "ir_method \<Rightarrow> nat option \<Rightarrow> nat option" where
  "ir_get_exit_node_predecessor m prevPredecessor =
     (case prevPredecessor of
        None \<Rightarrow> ir_get_exit_node_first_predecessor m
      | Some p \<Rightarrow>
          (case ir_get_next_instr_of_same_type m p of
             Some i \<Rightarrow> Some i
           | None \<Rightarrow>
               (case exit_node_type_search m (next_type (type_at m p)) of
                  Some i \<Rightarrow> Some i
                | None \<Rightarrow>
                    let lastInst = ir_instr_get_last m
                    in if \<not> ir_instr_is_a_jump_instruction (ir_instr_get_by_pos m lastInst) \<and>
                          p \<noteq> lastInst \<and>
                          \<not> is_already_checked_type_for_exit_node_predecessor
                              (ir_instr_get_by_pos m lastInst)
                       then Some lastInst else None)))"

text \<open>The positions the searches \<open>while ((prevInst = ir_instr_get_next(method, prevInst)))\<close> visit.\<close>

definition positions_after :: "ir_method \<Rightarrow> nat option \<Rightarrow> nat list" where
  "positions_after m prev = [(case prev of None \<Rightarrow> 0 | Some p \<Rightarrow> p + 1)..<ir_instr_count m]"

definition branches_to_label :: "ir_method \<Rightarrow> nat \<Rightarrow> nat \<Rightarrow> bool" where
  "branches_to_label m inst i \<longleftrightarrow>
    (let ty = type_at m i in
     ty = IRBRANCH \<and> par1v m i = par1v m inst \<or>
     ty \<in> {IRBRANCHIF, IRBRANCHIFNOT} \<and> par2v m i = par1v m inst \<and> i + 1 \<noteq> inst \<or>
     ty = IRBRANCHIFPCNOTINRANGE \<and> par3v m i = par1v m inst)"

definition label_predecessor :: "ir_method \<Rightarrow> nat \<Rightarrow> nat option \<Rightarrow> nat option" where
  "label_predecessor m inst prevPredecessor =
    (let prevInst = ir_instr_get_prev m (Some inst);
         falls = (case prevInst of None \<Rightarrow> False
                  | Some p \<Rightarrow> internal_has_next_instruction_as_successor_without_jumps m p) in
     if prevPredecessor \<noteq> None \<and> prevPredecessor = prevInst \<and> falls then None
     else
       let seek = (case prevPredecessor of
                     None \<Rightarrow> [0..<ir_instr_count m]
                   | Some p \<Rightarrow> if type_at m p = IRENDFINALLY then [0..<ir_instr_count m]
                             else [p + 1..<ir_instr_count m])
       in (case find_from (branches_to_label m inst) seek of
             Some i \<Rightarrow> Some i
           | None \<Rightarrow> if falls then prevInst else None))"

definition catcher_predecessor :: "ir_method \<Rightarrow> nat \<Rightarrow> nat option \<Rightarrow> nat option" where
  "catcher_predecessor m inst prevPredecessor =
    (let prevInst = (case prevPredecessor of None \<Rightarrow> None
                     | Some p \<Rightarrow> if type_at m p = IRENDFINALLY then None else Some p)
     in find_from (\<lambda>i. mayInstructionOfTypeThrowException (type_at m i) \<and> i < inst \<or>
                       type_at m i = IRLABEL \<and> i + 1 = inst)
          (positions_after m prevInst))"

text \<open>\<open>None\<close> stands for \<open>abort()\<close> or a NULL dereference.\<close>

definition finally_predecessor :: "ir_method \<Rightarrow> nat \<Rightarrow> nat option \<Rightarrow> nat option option" where
  "finally_predecessor m inst prevPredecessor =
    (let search = (\<lambda>prevInst. find_from (\<lambda>i. type_at m i = IRCALLFINALLY \<and> par1v m i = par1v m inst)
                                (positions_after m prevInst)) in
     case prevPredecessor of
       None \<Rightarrow>
         (case ir_instr_get_prev m (Some inst) of
            None \<Rightarrow> None
          | Some p \<Rightarrow>
              (case internal_has_next_instruction_as_successor m p of
                 None \<Rightarrow> None
               | Some h \<Rightarrow> if h \<and> type_at m p \<noteq> IRCALLFINALLY then Some (Some p)
                           else Some (search None)))
     | Some p \<Rightarrow>
         (case internal_has_next_instruction_as_successor m p of
            None \<Rightarrow> None
          | Some h \<Rightarrow> Some (search (if h \<and> type_at m p \<noteq> IRCALLFINALLY then None else Some p))))"

text \<open>The first part of the function: an \<open>IRENDFINALLY\<close> that returns to the instruction after a call.\<close>

definition end_finally_predecessor :: "ir_method \<Rightarrow> nat \<Rightarrow> nat option \<Rightarrow> nat option" where
  "end_finally_predecessor m inst prevPredecessor =
     (if inst > 0 \<and> type_at m (inst - 1) = IRCALLFINALLY \<and>
         (case prevPredecessor of None \<Rightarrow> True | Some p \<Rightarrow> type_at m p = IRENDFINALLY)
      then find_from (\<lambda>i. type_at m i = IRENDFINALLY \<and> par1v m i = par1v m (inst - 1))
             (positions_after m prevPredecessor)
      else None)"

definition ir_instr_get_predecessor ::
  "ir_method \<Rightarrow> nat \<Rightarrow> nat option \<Rightarrow> catcher_cache option \<Rightarrow> (nat option \<times> catcher_cache option) option"
where
  "ir_instr_get_predecessor m inst prevPredecessor cache =
     (case end_finally_predecessor m inst prevPredecessor of
        Some i \<Rightarrow> Some (Some i, cache)
      | None \<Rightarrow>
          let ty = type_at m inst in
          if ty = IRLABEL then Some (label_predecessor m inst prevPredecessor, cache)
          else if ty = IRSTARTFILTER then None
          else if ty = IRSTARTFINALLY then
            map_option (\<lambda>r. (r, cache)) (finally_predecessor m inst prevPredecessor)
          else if ty = IRSTARTCATCHER then Some (catcher_predecessor m inst prevPredecessor, cache)
          else if ty = IREXITNODE then Some (ir_get_exit_node_predecessor m prevPredecessor, cache)
          else if prevPredecessor \<noteq> None then Some (None, cache)
          else
            (case ir_instr_get_prev m (Some inst) of
               None \<Rightarrow> Some (None, cache)
             | Some p \<Rightarrow>
                 let (succ, cache') = ir_instr_get_successor m p None cache
                 in Some (if succ = Some inst then Some p else None, cache')))"

partial_function (option) predecessors_loop ::
  "ir_method \<Rightarrow> nat \<Rightarrow> nat option \<Rightarrow> catcher_cache option \<Rightarrow> nat list \<Rightarrow>
   (nat list \<times> catcher_cache option) option" where
  "predecessors_loop m inst pred cache l =
     (case pred of
        None \<Rightarrow> Some (l, cache)
      | Some p \<Rightarrow>
          (case ir_instr_get_predecessor m inst (Some p) cache of
             None \<Rightarrow> None
           | Some r \<Rightarrow> predecessors_loop m inst (fst r) (snd r) (l @ [p])))"

definition internal_getInstructionPredecessors ::
  "ir_method \<Rightarrow> nat \<Rightarrow> catcher_cache option \<Rightarrow> (nat list \<times> catcher_cache option) option" where
  "internal_getInstructionPredecessors m inst cache =
     (case ir_instr_get_predecessor m inst None cache of
        None \<Rightarrow> None
      | Some r \<Rightarrow> predecessors_loop m inst (fst r) (snd r) [])"

fun predecessors_table ::
  "ir_method \<Rightarrow> catcher_cache option \<Rightarrow> nat list \<Rightarrow> nat list list option" where
  "predecessors_table m cache [] = Some []"
| "predecessors_table m cache (count # counts) =
     (case internal_getInstructionPredecessors m count cache of
        None \<Rightarrow> None
      | Some (l, cache') \<Rightarrow> map_option ((#) l) (predecessors_table m cache' counts))"

definition IRMETHOD_getInstructionsPredecessors :: "ir_method \<Rightarrow> nat list list option" where
  "IRMETHOD_getInstructionsPredecessors m =
     predecessors_table m (Some no_catcher_yet) [0..<ir_instr_count m + 1]"

definition IRMETHOD_getPredecessorsNumber :: "ir_method \<Rightarrow> nat \<Rightarrow> nat option" where
  "IRMETHOD_getPredecessorsNumber m inst =
     map_option (length \<circ> fst) (internal_getInstructionPredecessors m inst (Some no_catcher_yet))"

section \<open>Branches\<close>

definition IRMETHOD_getBranchDestination :: "ir_method \<Rightarrow> nat \<Rightarrow> nat option" where
  "IRMETHOD_getBranchDestination m inst =
    (let ty = type_at m inst in
     if ty = IRBRANCH then ir_instr_label_get m (par1v m inst)
     else if ty \<in> {IRBRANCHIF, IRBRANCHIFNOT} then ir_instr_label_get m (par2v m inst)
     else if ty = IRBRANCHIFPCNOTINRANGE then ir_instr_label_get m (par3v m inst)
     else None)"

definition IRMETHOD_getBranchFallThrough :: "ir_method \<Rightarrow> nat \<Rightarrow> nat option" where
  "IRMETHOD_getBranchFallThrough m inst =
     (if type_at m inst \<in> {IRBRANCHIF, IRBRANCHIFNOT, IRBRANCHIFPCNOTINRANGE}
      then ir_instr_get_next m (Some inst) else None)"

section \<open>Basic facts\<close>

lemma type_at_exit [simp]: "type_at m (ir_instr_count m) = IREXITNODE"
  by (simp add: ir_instr_get_by_pos_def exit_node_def)

lemma exitNode_eq [simp]: "exitNode m = ir_instr_count m"
  by (simp add: exitNode_def)

lemma get_next_inside [simp]: "i < ir_instr_count m \<Longrightarrow> ir_instr_get_next m (Some i) = Some (i + 1)"
  by (auto simp: ir_instr_get_next_def ir_instr_get_last_def)

lemma get_next_exit: "0 < ir_instr_count m \<Longrightarrow> ir_instr_get_next m (Some (ir_instr_count m)) = None"
  by (auto simp: ir_instr_get_next_def ir_instr_get_last_def)

lemma get_next_empty: "ir_instr_count m = 0 \<Longrightarrow> ir_instr_get_next m (Some 0) = Some 0"
  by (auto simp: ir_instr_get_next_def ir_instr_get_last_def)

lemma label_like_get_Some:
  "ir_instr_label_like_get m labelID ty = Some i \<longleftrightarrow>
     i < ir_instr_count m \<and> type_at m i = ty \<and> par1v m i = take_bit 32 labelID \<and>
     (\<forall>j<i. \<not> (type_at m j = ty \<and> par1v m j = take_bit 32 labelID))"
  by (auto simp: ir_instr_label_like_get_def find_from_upt)

lemma label_like_get_less: "ir_instr_label_like_get m labelID ty = Some i \<Longrightarrow> i < ir_instr_count m"
  by (simp add: label_like_get_Some)

lemma catcher_SomeD:
  "ir_instrcatcher_get m = Some c \<Longrightarrow> c < ir_instr_count m \<and> type_at m c = IRSTARTCATCHER"
  by (auto simp: ir_instrcatcher_get_def dest: find_from_SomeD)

lemma catcher_None:
  "ir_instrcatcher_get m = None \<longleftrightarrow> (\<forall>i<ir_instr_count m. type_at m i \<noteq> IRSTARTCATCHER)"
  by (auto simp: ir_instrcatcher_get_def find_from_None)

section \<open>The successors of an instruction\<close>

text \<open>The catcher cache never changes an answer.\<close>

definition cache_ok :: "ir_method \<Rightarrow> catcher_cache option \<Rightarrow> bool" where
  "cache_ok m cache \<longleftrightarrow>
     (case cache of None \<Rightarrow> True
      | Some c \<Rightarrow> catcherInstInitialized c \<longrightarrow> catcherInst c = ir_instrcatcher_get m)"

lemma cache_ok_None [simp]: "cache_ok m None"
  and cache_ok_start [simp]: "cache_ok m (Some no_catcher_yet)"
  by (simp_all add: cache_ok_def no_catcher_yet_def)

lemma fetch_catcher_ok:
  "cache_ok m cache \<Longrightarrow> fetch_catcher m cache = (catcher, cache') \<Longrightarrow>
   catcher = ir_instrcatcher_get m \<and> cache_ok m cache'"
  by (auto simp: fetch_catcher_def cache_ok_def Let_def split: option.splits if_splits)

definition succ_step :: "ir_method \<Rightarrow> nat \<Rightarrow> nat option \<Rightarrow> nat option" where
  "succ_step m inst prev = fst (ir_instr_get_successor m inst prev None)"

lemma get_successor_cached:
  assumes "cache_ok m cache"
  shows "fst (ir_instr_get_successor m inst prev cache) = succ_step m inst prev \<and>
         cache_ok m (snd (ir_instr_get_successor m inst prev cache))"
proof -
  obtain cat cache' where f: "fetch_catcher m cache = (cat, cache')" by fastforce
  from fetch_catcher_ok [OF assms f] have "cat = ir_instrcatcher_get m" "cache_ok m cache'" by auto
  moreover have "fetch_catcher m None = (ir_instrcatcher_get m, None)"
    by (simp add: fetch_catcher_def)
  ultimately show ?thesis
    using assms f unfolding succ_step_def ir_instr_get_successor_def Let_def
    by (simp split: option.split)
qed

text \<open>The list the enumeration produces, written down directly.\<close>

function call_finally_returns :: "ir_method \<Rightarrow> 64 word \<Rightarrow> nat \<Rightarrow> nat list" where
  "call_finally_returns m label p =
     (case next_call_finally m label p of
        None \<Rightarrow> []
      | Some k \<Rightarrow> (k + 1) #
          (if k + 1 < ir_instr_count m then call_finally_returns m label (k + 1) else []))"
  by pat_completeness auto
termination
  by (relation "measure (\<lambda>(m, label, p). ir_instr_count m - p)")
    (auto simp: next_call_finally_def find_from_upt)

declare call_finally_returns.simps [simp del]

definition successors :: "ir_method \<Rightarrow> nat \<Rightarrow> nat list" where
  "successors m i =
    (let ty = type_at m i; n = ir_instr_count m;
         two = (\<lambda>label. if i + 1 = n \<or> ir_instr_label_get m label = Some (i + 1) then [i + 1]
                        else (i + 1) # option_list (ir_instr_label_get m label)) in
     if ty = IREXITNODE \<and> i = n then (if n = 0 then [0] else [])
     else if ty = IRRET then [n]
     else if ty = IRBRANCH then option_list (ir_instr_label_get m (par1v m i))
     else if ty = IRCALLFINALLY then option_list (ir_instr_finally_get m (par1v m i))
     else if ty = IRCALLFILTER then option_list (ir_instr_filter_get m (par1v m i))
     else if ty \<in> {IRBRANCHIF, IRBRANCHIFNOT} then two (par2v m i)
     else if ty = IRBRANCHIFPCNOTINRANGE then two (par3v m i)
     else if ty = IRTHROW then
       (case ir_instrcatcher_get m of
          None \<Rightarrow> [n] | Some c \<Rightarrow> if i < c then [c, n] else [n])
     else if ty = IRENDFINALLY then
       (if item_type (param_1 (ir_instr_get_by_pos m i)) = NOPARAM then []
        else (case ir_instr_call_finally_get m (par1v m i) of
                None \<Rightarrow> []
              | Some k \<Rightarrow> if k + 1 = i then []
                        else (k + 1) # (if k + 1 < n then call_finally_returns m (par1v m i) (k + 1)
                                        else [])))
     else if ty = IRENDFILTER then
       (if item_type (param_2 (ir_instr_get_by_pos m i)) = NOPARAM then []
        else option_list (ir_instr_label_get m (par2v m i)))
     else if mayInstructionOfTypeThrowException ty then
       (if i + 1 = n then [n]
        else (case ir_instrcatcher_get m of
                None \<Rightarrow> [i + 1, n]
              | Some c \<Rightarrow> if c \<noteq> i + 1 \<and> i < c then [i + 1, c] else [i + 1, n]))
     else [i + 1])"

lemma succ_step_exit [simp]: "succ_step m i (Some (ir_instr_count m)) = None"
  by (simp add: succ_step_def ir_instr_get_successor_def)

lemma next_call_finally_bound:
  "next_call_finally m label p = Some k \<Longrightarrow> p < k \<and> k < ir_instr_count m \<and> type_at m k = IRCALLFINALLY"
  by (auto simp: next_call_finally_def find_from_upt)

lemma enumerates_call_finally:
  assumes ty: "type_at m i = IRENDFINALLY" and p: "p < ir_instr_count m"
  shows "enumerates (succ_step m i) (Some p) (call_finally_returns m (par1v m i) p)"
  using p
proof (induction "ir_instr_count m - p" arbitrary: p rule: less_induct)
  case less
  have step: "succ_step m i (Some p) =
      (case next_call_finally m (par1v m i) p of Some k \<Rightarrow> ir_instr_get_next m (Some k) | None \<Rightarrow> None)"
    using ty less.prems by (simp add: succ_step_def ir_instr_get_successor_def)
  show ?case
  proof (cases "next_call_finally m (par1v m i) p")
    case None
    then show ?thesis using step by (subst call_finally_returns.simps) simp
  next
    case (Some k)
    from next_call_finally_bound [OF this] have k: "p < k" "k < ir_instr_count m" by auto
    show ?thesis
    proof (cases "k + 1 < ir_instr_count m")
      case True
      have "enumerates (succ_step m i) (Some (k + 1)) (call_finally_returns m (par1v m i) (k + 1))"
        by (rule less.hyps) (use k True in auto)
      then show ?thesis using step k True Some by (subst call_finally_returns.simps) simp
    next
      case False
      then have "k + 1 = ir_instr_count m" using k by simp
      then show ?thesis using step k Some succ_step_exit [of m i]
        by (subst call_finally_returns.simps) simp
    qed
  qed
qed

lemma enumerates_successors:
  assumes i: "i \<le> ir_instr_count m"
  shows "enumerates (succ_step m i) None (successors m i)"
proof (cases "i = ir_instr_count m")
  case True
  have ty: "type_at m i = IREXITNODE" using True by simp
  show ?thesis
  proof (cases "ir_instr_count m = 0")
    case True
    then have "succ_step m 0 (Some 0) = None" using succ_step_exit [of m 0] by simp
    with True show ?thesis
      using ty \<open>i = _\<close>
      by (simp add: successors_def succ_step_def ir_instr_get_successor_def get_next_empty
        mayInstructionOfTypeThrowException_def)
  next
    case False
    then show ?thesis
      using ty \<open>i = _\<close>
      by (simp add: successors_def succ_step_def ir_instr_get_successor_def get_next_exit
        mayInstructionOfTypeThrowException_def)
  qed
next
  case False
  with i have i: "i < ir_instr_count m" by simp
  have nx: "ir_instr_get_next m (Some i) = Some (i + 1)" using i by simp
  have lab: "\<And>l j. ir_instr_label_get m l = Some j \<Longrightarrow> j \<noteq> ir_instr_count m"
    by (auto simp: ir_instr_label_get_def dest: label_like_get_less)
  have cat: "\<And>c. ir_instrcatcher_get m = Some c \<Longrightarrow> c \<noteq> ir_instr_count m \<and> type_at m c = IRSTARTCATCHER"
    by (auto dest: catcher_SomeD)
  note defs = successors_def succ_step_def ir_instr_get_successor_def nx
  consider "type_at m i \<in> {IRBRANCHIF, IRBRANCHIFNOT, IRBRANCHIFPCNOTINRANGE}"
    | "type_at m i = IRENDFINALLY" | "type_at m i = IRTHROW"
    | "type_at m i \<in> {IRRET, IRBRANCH, IRCALLFINALLY, IRCALLFILTER, IRENDFILTER}"
    | "type_at m i \<notin> {IRBRANCHIF, IRBRANCHIFNOT, IRBRANCHIFPCNOTINRANGE, IRENDFINALLY, IRTHROW,
        IRRET, IRBRANCH, IRCALLFINALLY, IRCALLFILTER, IRENDFILTER}" by blast
  then show ?thesis
  proof cases
    case 1
    then show ?thesis using i lab
      by (elim insertE emptyE) (auto simp: defs Let_def option_list_def split: option.split)
  next
    case 2
    have first: "succ_step m i None =
        (if item_type (param_1 (ir_instr_get_by_pos m i)) = NOPARAM then None
         else case ir_instr_call_finally_get m (par1v m i) of None \<Rightarrow> None
              | Some k \<Rightarrow> if k + 1 = i then None else Some (k + 1))"
      using 2 by (auto simp: succ_step_def ir_instr_get_successor_def Let_def
        ir_instr_call_finally_get_def dest: label_like_get_less split: option.split)
    have last: "succ_step m i (Some (Suc k)) = None"
      if "ir_instr_label_like_get m l ty = Some k" "\<not> Suc k < ir_instr_count m" for k l ty
      using that succ_step_exit [of m i] label_like_get_less by (metis Suc_lessI)
    show ?thesis
      using 2 first enumerates_call_finally [OF 2] last
      by (auto simp: successors_def ir_instr_call_finally_get_def split: option.split)
  next
    case 3
    then show ?thesis using i cat
      by (auto simp: defs fetch_catcher_def Let_def split: option.split)
  next
    case 4
    then show ?thesis using i lab
      by (elim insertE emptyE) (auto simp: defs Let_def)
  next
    case 5
    then show ?thesis using i cat
      by (auto simp: defs fetch_catcher_def Let_def split: option.split)
  qed
qed

lemma successors_loop_eq:
  assumes "cache_ok m cache" and "enumerates (succ_step m i) prev l'"
  shows "\<exists>cache'. cache_ok m cache' \<and>
    successors_loop m i (succ_step m i prev) cache l = Some (l @ l', cache')"
  using assms
proof (induction l' arbitrary: prev cache l)
  case Nil
  then show ?case by (subst successors_loop.simps) auto
next
  case (Cons x l')
  obtain pred' cache' where g: "ir_instr_get_successor m i (Some x) cache = (pred', cache')"
    by fastforce
  with get_successor_cached [OF Cons.prems(1), of i "Some x"]
  have p: "pred' = succ_step m i (Some x)" and c: "cache_ok m cache'" by auto
  have "enumerates (succ_step m i) (Some x) l'" using Cons.prems by simp
  from Cons.IH [OF c this, of "l @ [x]"] show ?case
    using Cons.prems g p by (subst successors_loop.simps) simp
qed

lemma internal_successors_eq:
  assumes "cache_ok m cache" and "i \<le> ir_instr_count m"
  shows "\<exists>cache'. cache_ok m cache' \<and>
    internal_getInstructionSuccessors m i cache = Some (successors m i, cache')"
proof -
  obtain pred' cache' where g: "ir_instr_get_successor m i None cache = (pred', cache')"
    by fastforce
  with get_successor_cached [OF assms(1), of i None]
  have "pred' = succ_step m i None" "cache_ok m cache'" by auto
  with successors_loop_eq [OF _ enumerates_successors [OF assms(2)], of cache' "[]"] show ?thesis
    by (simp add: internal_getInstructionSuccessors_def g)
qed

lemma successors_table_eq:
  assumes "cache_ok m cache" and "\<forall>i\<in>set is. i \<le> ir_instr_count m"
  shows "successors_table m cache is = Some (map (successors m) is)"
  using assms
proof (induction "is" arbitrary: cache)
  case (Cons i "is")
  then obtain cache' where "cache_ok m cache'"
    "internal_getInstructionSuccessors m i cache = Some (successors m i, cache')"
    using internal_successors_eq [of m cache i] by auto
  with Cons show ?case by simp
qed simp

lemma getInstructionsSuccessors_eq:
  "IRMETHOD_getInstructionsSuccessors m = Some (map (successors m) [0..<ir_instr_count m + 1])"
  unfolding IRMETHOD_getInstructionsSuccessors_def by (rule successors_table_eq) auto

lemma getSuccessorsNumber_eq:
  "i \<le> ir_instr_count m \<Longrightarrow> IRMETHOD_getSuccessorsNumber m i = Some (length (successors m i))"
  using internal_successors_eq [of m "Some no_catcher_yet" i]
  by (auto simp: IRMETHOD_getSuccessorsNumber_def)

lemma call_finally_returns_bound:
  "x \<in> set (call_finally_returns m label p) \<Longrightarrow> p + 1 < x \<and> x \<le> ir_instr_count m"
proof (induction m label p rule: call_finally_returns.induct)
  case (1 m label p)
  show ?case
  proof (cases "next_call_finally m label p")
    case None
    with 1(2) show ?thesis by (subst (asm) call_finally_returns.simps) simp
  next
    case (Some k)
    with 1 next_call_finally_bound [OF Some] show ?thesis
      by (subst (asm) (2) call_finally_returns.simps) (fastforce split: if_splits)
  qed
qed

lemma distinct_call_finally_returns: "distinct (call_finally_returns m label p)"
proof (induction m label p rule: call_finally_returns.induct)
  case (1 m label p)
  then show ?case
    using call_finally_returns_bound
    by (subst call_finally_returns.simps) (fastforce split: option.split)
qed

text \<open>The cases of the definition, with the bound that each answer obeys.\<close>

lemma label_get_less: "ir_instr_label_get m l = Some s \<Longrightarrow> s < ir_instr_count m"
  and finally_get_less: "ir_instr_finally_get m l = Some s \<Longrightarrow> s < ir_instr_count m"
  and filter_get_less: "ir_instr_filter_get m l = Some s \<Longrightarrow> s < ir_instr_count m"
  and call_finally_get_less: "ir_instr_call_finally_get m l = Some s \<Longrightarrow> s < ir_instr_count m"
  unfolding ir_instr_label_get_def ir_instr_finally_get_def ir_instr_filter_get_def
    ir_instr_call_finally_get_def by (auto dest: label_like_get_less)

lemma catcher_less: "ir_instrcatcher_get m = Some c \<Longrightarrow> c < ir_instr_count m"
  by (simp add: catcher_SomeD)

lemmas target_less =
  label_get_less finally_get_less filter_get_less call_finally_get_less catcher_less

lemma successors_le:
  assumes "i \<le> ir_instr_count m" and "s \<in> set (successors m i)"
  shows "s \<le> ir_instr_count m"
proof (cases "i = ir_instr_count m")
  case True
  then show ?thesis using assms by (auto simp: successors_def split: if_splits)
next
  case False
  with assms have i: "i + 1 \<le> ir_instr_count m" by simp
  from False assms(2) i show ?thesis
    unfolding successors_def Let_def
    by (auto split: if_splits option.splits
      dest: target_less target_less [OF sym] call_finally_returns_bound)
qed

lemma distinct_successors: "distinct (successors m i)"
  unfolding successors_def Let_def
  by (auto simp: distinct_call_finally_returns
      split: option.split dest: target_less call_finally_returns_bound)

lemma not_a_jump_successors:
  "i < ir_instr_count m \<Longrightarrow> \<not> ir_instr_is_a_jump_instruction (ir_instr_get_by_pos m i) \<Longrightarrow>
   successors m i = [i + 1]"
  by (auto simp: successors_def ir_instr_is_a_jump_instruction_def IRMETHOD_isAJumpInstructionType_def)

section \<open>Properties\<close>

text \<open>
  C20: The enumeration of successors ends for every instruction of every method, the exit node included,
  and \<open>IRMETHOD_getInstructionsSuccessors\<close> stores for each the list \<open>successors\<close>, which states
  per opcode where control can go.
\<close>

theorem getInstructionsSuccessors_total:
  "IRMETHOD_getInstructionsSuccessors m = Some (map (successors m) [0..<ir_instr_count m + 1])"
  by (rule getInstructionsSuccessors_eq)

text \<open>
  C23: Every successor of an instruction is an instruction of the method or its exit node, and no
  successor is enumerated twice.
\<close>

theorem successors_in_method:
  assumes "i \<le> ir_instr_count m"
    and "internal_getInstructionSuccessors m i None = Some (succs, cache')"
  shows "distinct succs \<and> (\<forall>s\<in>set succs. s \<le> ir_instr_count m)"
  using internal_successors_eq [OF cache_ok_None assms(1)] assms distinct_successors successors_le by auto

theorem successors_in_method_witness:
  "\<exists>succs cache'. internal_getInstructionSuccessors demo 3 None = Some (succs, cache') \<and>
     distinct succs \<and> (\<forall>s\<in>set succs. s \<le> ir_instr_count demo)"
proof -
  have i: "3 \<le> ir_instr_count demo" by (simp add: demo_simps)
  obtain succs cache' where s: "internal_getInstructionSuccessors demo 3 None = Some (succs, cache')"
    using internal_successors_eq [OF cache_ok_None i] by blast
  with successors_in_method [OF i s] show ?thesis by blast
qed

text \<open>
  The debug assertions at the end of \<open>ir_instr_is_a_jump_instruction\<close> hold: an instruction of the
  method that is not classified as a jump has exactly one successor, the instruction after it.
\<close>

theorem not_a_jump_falls_through:
  assumes "i < ir_instr_count m"
    and "\<not> ir_instr_is_a_jump_instruction (ir_instr_get_by_pos m i)"
  shows "IRMETHOD_getSuccessorsNumber m i = Some 1 \<and>
    fst (ir_instr_get_successor m i None None) = ir_instr_get_next m (Some i)"
  using enumerates_successors [of i m] not_a_jump_successors [OF assms] assms(1)
  by (simp add: getSuccessorsNumber_eq succ_step_def)

theorem not_a_jump_falls_through_witness:
  "IRMETHOD_getSuccessorsNumber demo 4 = Some 1 \<and>
   fst (ir_instr_get_successor demo 4 None None) = ir_instr_get_next demo (Some 4)"
  by (rule not_a_jump_falls_through)
    (simp_all add: demo_simps ir_instr_is_a_jump_instruction_def IRMETHOD_isACallInstruction_def
      IRMETHOD_isAJumpInstructionType_def mayInstructionOfTypeThrowException_def)

text \<open>
  C25: The pair of variables that remembers the catcher between calls never changes an answer: started
  uninitialised, it gives at every call the answer of the call without it, and stays consistent with the
  method.
\<close>

theorem catcher_cache_transparent:
  assumes "cache_ok m cache"
  shows "fst (ir_instr_get_successor m inst prev cache) = fst (ir_instr_get_successor m inst prev None) \<and>
    cache_ok m (snd (ir_instr_get_successor m inst prev cache))"
  using get_successor_cached [OF assms] by (simp add: succ_step_def)

theorem catcher_cache_transparent_witness:
  "cache_ok demo (snd (ir_instr_get_successor demo 7 None (Some no_catcher_yet)))"
  using catcher_cache_transparent [OF cache_ok_start] by blast

end
