(* ===== verification/FlowGraph.thy ===== *)
theory FlowGraph
  imports ControlFlow
begin

text \<open>
  Successors and predecessors are computed by two independent functions. This theory shows that they
  describe the same edges on the methods without exception handlers, \<open>finally\<close> blocks and filters.
\<close>

section \<open>The fragment\<close>

definition handler_types :: "nat set" where
  "handler_types = {IRSTARTFILTER, IRENDFILTER, IRCALLFILTER, IRSTARTFINALLY, IRENDFINALLY,
     IRCALLFINALLY, IRSTARTCATCHER, IRBRANCHIFPCNOTINRANGE, IRNATIVECALL, IREXITNODE}"

definition small_value :: "64 word \<Rightarrow> bool" where
  "small_value v \<longleftrightarrow> take_bit 32 v = v"

definition plain_method :: "ir_method \<Rightarrow> bool" where
  "plain_method m \<longleftrightarrow>
     instructions m \<noteq> [] \<and>
     list_all (\<lambda>i. inst_type i \<notin> handler_types) (instructions m) \<and>
     list_all (\<lambda>i. inst_type i = IRBRANCH \<longrightarrow> small_value (val (param_1 i))) (instructions m) \<and>
     list_all (\<lambda>i. inst_type i \<in> {IRBRANCHIF, IRBRANCHIFNOT} \<longrightarrow> small_value (val (param_2 i)))
       (instructions m) \<and>
     distinct (map (\<lambda>i. val (param_1 i)) (filter (\<lambda>i. inst_type i = IRLABEL) (instructions m))) \<and>
     inst_type (last (instructions m)) \<notin> {IRBRANCHIF, IRBRANCHIFNOT, IREXIT}"

definition simple_method :: "ir_method \<Rightarrow> bool" where
  "simple_method m \<longleftrightarrow> plain_method m \<and> list_ex (\<lambda>i. inst_type i = IRRET) (instructions m)"

lemma get_by_pos_inside: "i < ir_instr_count m \<Longrightarrow> ir_instr_get_by_pos m i = instructions m ! i"
  by (simp add: ir_instr_get_by_pos_def)

lemma distinct_map_filter_nth:
  "distinct (map f (filter P xs)) \<Longrightarrow> i < length xs \<Longrightarrow> j < length xs \<Longrightarrow> P (xs ! i) \<Longrightarrow> P (xs ! j) \<Longrightarrow>
   f (xs ! i) = f (xs ! j) \<Longrightarrow> i = j"
proof (induction xs arbitrary: i j)
  case (Cons x xs)
  show ?case
  proof (cases i; cases j)
    fix j' assume "i = 0" "j = Suc j'"
    with Cons.prems have "P x" "xs ! j' \<in> set (filter P xs)" "f x = f (xs ! j')" by auto
    with Cons.prems(1) show ?thesis by (auto simp: rev_image_eqI)
  next
    fix i' assume "j = 0" "i = Suc i'"
    with Cons.prems have "P x" "xs ! i' \<in> set (filter P xs)" "f x = f (xs ! i')" by auto
    with Cons.prems(1) show ?thesis by (auto simp: rev_image_eqI)
  next
    fix i' j' assume "i = Suc i'" "j = Suc j'"
    with Cons show ?thesis by (auto split: if_splits)
  qed auto
qed simp

lemma plainD:
  assumes "plain_method m"
  shows "0 < ir_instr_count m"
    and "\<And>i. i < ir_instr_count m \<Longrightarrow> type_at m i \<notin> handler_types"
    and "\<And>i. i < ir_instr_count m \<Longrightarrow> type_at m i = IRBRANCH \<Longrightarrow> small_value (par1v m i)"
    and "\<And>i. i < ir_instr_count m \<Longrightarrow> type_at m i \<in> {IRBRANCHIF, IRBRANCHIFNOT} \<Longrightarrow> small_value (par2v m i)"
    and "\<And>i j. i < ir_instr_count m \<Longrightarrow> j < ir_instr_count m \<Longrightarrow> type_at m i = IRLABEL \<Longrightarrow>
      type_at m j = IRLABEL \<Longrightarrow> par1v m i = par1v m j \<Longrightarrow> i = j"
    and "type_at m (ir_instr_count m - 1) \<notin> {IRBRANCHIF, IRBRANCHIFNOT, IREXIT}"
proof -
  from assms have ne: "instructions m \<noteq> []"
    and d: "distinct (map (\<lambda>i. val (param_1 i)) (filter (\<lambda>i. inst_type i = IRLABEL) (instructions m)))"
    and l: "inst_type (last (instructions m)) \<notin> {IRBRANCHIF, IRBRANCHIFNOT, IREXIT}"
    and a: "\<forall>i<ir_instr_count m. type_at m i \<notin> handler_types"
    and b: "\<forall>i<ir_instr_count m. type_at m i = IRBRANCH \<longrightarrow> small_value (par1v m i)"
    and c: "\<forall>i<ir_instr_count m. type_at m i \<in> {IRBRANCHIF, IRBRANCHIFNOT} \<longrightarrow> small_value (par2v m i)"
    unfolding plain_method_def all_instructions by blast+
  show n: "0 < ir_instr_count m" using ne by (simp add: ir_instr_count_def)
  show "type_at m (ir_instr_count m - 1) \<notin> {IRBRANCHIF, IRBRANCHIFNOT, IREXIT}"
    using l ne n by (simp add: last_conv_nth ir_instr_count_def ir_instr_get_by_pos_def)
  show "\<And>i j. i < ir_instr_count m \<Longrightarrow> j < ir_instr_count m \<Longrightarrow> type_at m i = IRLABEL \<Longrightarrow>
      type_at m j = IRLABEL \<Longrightarrow> par1v m i = par1v m j \<Longrightarrow> i = j"
    using distinct_map_filter_nth [OF d] by (simp add: get_by_pos_inside ir_instr_count_def)
  show "\<And>i. i < ir_instr_count m \<Longrightarrow> type_at m i \<notin> handler_types" using a by blast
  show "\<And>i. i < ir_instr_count m \<Longrightarrow> type_at m i = IRBRANCH \<Longrightarrow> small_value (par1v m i)" using b by blast
  show "\<And>i. i < ir_instr_count m \<Longrightarrow> type_at m i \<in> {IRBRANCHIF, IRBRANCHIFNOT} \<Longrightarrow> small_value (par2v m i)"
    using c by blast
qed

lemma simple_plain: "simple_method m \<Longrightarrow> plain_method m"
  by (simp add: simple_method_def)

lemma simple_returns: "simple_method m \<Longrightarrow> \<exists>i<ir_instr_count m. type_at m i = IRRET"
  by (simp add: simple_method_def ex_instruction)

lemmas simpleD = plainD(1-5) [OF simple_plain] simple_returns plainD(6) [OF simple_plain]

lemma plain_no_catcher: "plain_method m \<Longrightarrow> ir_instrcatcher_get m = None"
  using plainD(2) by (auto simp: catcher_None handler_types_def)

lemmas simple_no_catcher = plain_no_catcher [OF simple_plain]

section \<open>The predecessors of a label\<close>

definition falls_into :: "ir_method \<Rightarrow> nat \<Rightarrow> bool" where
  "falls_into m i \<longleftrightarrow> 0 < i \<and> internal_has_next_instruction_as_successor_without_jumps m (i - 1)"

definition label_predecessors :: "ir_method \<Rightarrow> nat \<Rightarrow> nat list" where
  "label_predecessors m i =
     filter (branches_to_label m i) [0..<ir_instr_count m] @ (if falls_into m i then [i - 1] else [])"

lemma enumerates_label:
  assumes m: "simple_method m" and i: "i < ir_instr_count m"
  shows "enumerates (label_predecessor m i) None (label_predecessors m i)"
  unfolding label_predecessors_def
proof (rule enumerates_scan [where g = "if falls_into m i then Some (i - 1) else None"])
  let ?n = "ir_instr_count m"
  have prev: "ir_instr_get_prev m (Some i) = (if i = 0 then None else Some (i - 1))"
    by (simp add: ir_instr_get_prev_def)
  have nf: "type_at m p \<noteq> IRENDFINALLY" "type_at m p \<noteq> IRBRANCHIFPCNOTINRANGE" if "p < ?n" for p
    using simpleD(2) [OF m that] by (auto simp: handler_types_def)
  fix p assume p: "p < ?n" "branches_to_label m i p"
  then have "\<not> (p = i - 1 \<and> falls_into m i)"
    using nf [of p] by (auto simp: branches_to_label_def Let_def falls_into_def
        internal_has_next_instruction_as_successor_without_jumps_def)
  with p nf [of p] show "label_predecessor m i (Some p) =
      (case find_from (branches_to_label m i) [p + 1..<?n] of Some j \<Rightarrow> Some j
       | None \<Rightarrow> if falls_into m i then Some (i - 1) else None)"
    by (auto simp: label_predecessor_def prev falls_into_def split: option.split)
next
  let ?n = "ir_instr_count m"
  have prev: "ir_instr_get_prev m (Some i) = (if i = 0 then None else Some (i - 1))"
    by (simp add: ir_instr_get_prev_def)
  show "label_predecessor m i None =
      (case find_from (branches_to_label m i) [0..<?n] of Some j \<Rightarrow> Some j
       | None \<Rightarrow> if falls_into m i then Some (i - 1) else None)"
    by (auto simp: label_predecessor_def prev falls_into_def split: option.split)
  fix pr assume "label_predecessor m i pr = (if falls_into m i then Some (i - 1) else None)"
  then show "enumerates (label_predecessor m i) pr (if falls_into m i then [i - 1] else [])"
    by (auto simp: label_predecessor_def prev falls_into_def)
qed

section \<open>The predecessors of the exit node\<close>

definition exit_types :: "nat list" where
  "exit_types = [IRRET, IRTHROW, IRSUBOVF, IRADDOVF, IRMULOVF, IRCONVOVF, IRCHECKNULL, IRDIV, IRREM,
     IRCALL, IRVCALL, IRICALL, IRLIBRARYCALL]"

definition last_falls :: "ir_method \<Rightarrow> nat option" where
  "last_falls m = (if ir_instr_is_a_jump_instruction (ir_instr_get_by_pos m (ir_instr_count m - 1))
     then None else Some (ir_instr_count m - 1))"

definition exit_predecessors :: "ir_method \<Rightarrow> nat list \<Rightarrow> nat list" where
  "exit_predecessors m tys =
     concat (map (\<lambda>t. filter (\<lambda>i. type_at m i = t) [0..<ir_instr_count m]) tys) @ option_list (last_falls m)"

fun type_search :: "ir_method \<Rightarrow> nat list \<Rightarrow> nat option" where
  "type_search m [] = last_falls m"
| "type_search m (t # tys) =
     (case find_from (\<lambda>i. type_at m i = t) [0..<ir_instr_count m] of
        Some i \<Rightarrow> Some i | None \<Rightarrow> type_search m tys)"

fun linked :: "nat list \<Rightarrow> bool" where
  "linked [] \<longleftrightarrow> True"
| "linked [t] \<longleftrightarrow> next_type t = None"
| "linked (t # u # tys) \<longleftrightarrow> next_type t = Some u \<and> linked (u # tys)"

lemma linked_exit_types: "linked exit_types"
  by (simp add: exit_types_def next_type_def)

lemma linked_tl: "linked (t # tys) \<Longrightarrow> linked tys"
  by (cases tys) auto

lemma linked_next: "linked (t # tys) \<Longrightarrow> next_type t = (case tys of [] \<Rightarrow> None | u # _ \<Rightarrow> Some u)"
  by (cases tys) auto

lemma exit_node_type_search_eq:
  assumes "linked tys" and "ir_instrcatcher_get m = None"
  shows "(case exit_node_type_search m (case tys of [] \<Rightarrow> None | u # _ \<Rightarrow> Some u) of
            Some i \<Rightarrow> Some i | None \<Rightarrow> last_falls m) = type_search m tys"
  using assms
proof (induction tys)
  case Nil
  then show ?case by (simp add: exit_node_type_search.simps)
next
  case (Cons t tys)
  then show ?case
    using linked_next [OF Cons.prems(1)] linked_tl [OF Cons.prems(1)]
    by (simp add: exit_node_type_search.simps [of m "Some t"] ir_get_first_instr_by_type_def
      split: option.split)
qed

lemma exit_types_jump:
  "t \<in> set exit_types \<Longrightarrow> inst_type inst = t \<Longrightarrow> ir_instr_is_a_jump_instruction inst"
  by (auto simp: exit_types_def ir_instr_is_a_jump_instruction_def IRMETHOD_isAJumpInstructionType_def
      mayInstructionOfTypeThrowException_def)

lemma exit_predecessor_step:
  assumes nc: "ir_instrcatcher_get m = None" and p: "p < ir_instr_count m" "type_at m p = t"
    and l: "linked (t # tys)" and t: "t \<in> set exit_types"
  shows "ir_get_exit_node_predecessor m (Some p) =
    (case find_from (\<lambda>i. type_at m i = t) [p + 1..<ir_instr_count m] of
       Some j \<Rightarrow> Some j | None \<Rightarrow> type_search m tys)"
proof -
  let ?l = "ir_instr_count m - 1"
  have last: "ir_instr_get_last m = ?l" using p by (simp add: ir_instr_get_last_def)
  have lf: "(if \<not> ir_instr_is_a_jump_instruction (ir_instr_get_by_pos m ?l) \<and> p \<noteq> ?l \<and>
       \<not> is_already_checked_type_for_exit_node_predecessor (ir_instr_get_by_pos m ?l)
       then Some ?l else None) = last_falls m"
    using exit_types_jump [OF t] p
    by (auto simp: last_falls_def is_already_checked_type_for_exit_node_predecessor_def
        ir_instr_is_a_jump_instruction_def IRMETHOD_isAJumpInstructionType_def)
  have "ir_get_exit_node_predecessor m (Some p) =
    (case find_from (\<lambda>i. type_at m i = t) [p + 1..<ir_instr_count m] of
       Some j \<Rightarrow> Some j
     | None \<Rightarrow> (case exit_node_type_search m (next_type t) of Some i \<Rightarrow> Some i | None \<Rightarrow> last_falls m))"
    by (simp only: ir_get_exit_node_predecessor_def ir_get_next_instr_of_same_type_def last Let_def
        option.case p(2) lf)
  then show ?thesis
    by (simp only: linked_next [OF l] exit_node_type_search_eq [OF linked_tl [OF l] nc])
qed

lemma enumerates_exit_types:
  assumes nc: "ir_instrcatcher_get m = None" and n: "0 < ir_instr_count m"
    and "linked tys" and "set tys \<subseteq> set exit_types"
    and "ir_get_exit_node_predecessor m pr = type_search m tys"
  shows "enumerates (ir_get_exit_node_predecessor m) pr (exit_predecessors m tys)"
  using assms(3-5)
proof (induction tys arbitrary: pr)
  case Nil
  have "ir_get_exit_node_predecessor m (Some (ir_instr_count m - 1)) = None"
    if "\<not> ir_instr_is_a_jump_instruction (ir_instr_get_by_pos m (ir_instr_count m - 1))"
  proof -
    have "next_type (type_at m (ir_instr_count m - 1)) = None"
      using that by (auto simp: next_type_def ir_instr_is_a_jump_instruction_def
          IRMETHOD_isAJumpInstructionType_def mayInstructionOfTypeThrowException_def)
    then show ?thesis using n
      by (simp add: ir_get_exit_node_predecessor_def ir_get_next_instr_of_same_type_def
        exit_node_type_search.simps ir_instr_get_last_def)
  qed
  with Nil show ?case by (auto simp: exit_predecessors_def last_falls_def)
next
  case (Cons t tys)
  have "enumerates (ir_get_exit_node_predecessor m) pr
     (filter (\<lambda>i. type_at m i = t) [0..<ir_instr_count m] @ exit_predecessors m tys)"
  proof (rule enumerates_scan [where g = "type_search m tys"])
    fix p assume "p < ir_instr_count m" "type_at m p = t"
    with exit_predecessor_step [OF nc this Cons.prems(1)] Cons.prems(2)
    show "ir_get_exit_node_predecessor m (Some p) =
        (case find_from (\<lambda>i. type_at m i = t) [p + 1..<ir_instr_count m] of
           Some j \<Rightarrow> Some j | None \<Rightarrow> type_search m tys)" by simp
  next
    fix pr assume "ir_get_exit_node_predecessor m pr = type_search m tys"
    with Cons linked_tl show "enumerates (ir_get_exit_node_predecessor m) pr (exit_predecessors m tys)"
      by (metis (no_types, lifting) list.set_intros(2) subset_code(1))
  qed (use Cons.prems in simp)
  then show ?case by (simp add: exit_predecessors_def)
qed

section \<open>The enumeration of predecessors\<close>

definition predecessors :: "ir_method \<Rightarrow> nat \<Rightarrow> nat list" where
  "predecessors m i =
     (if i = ir_instr_count m then exit_predecessors m exit_types
      else if type_at m i = IRLABEL then label_predecessors m i
      else if 0 < i \<and> succ_step m (i - 1) None = Some i then [i - 1] else [])"

definition pred_step :: "ir_method \<Rightarrow> nat \<Rightarrow> nat option \<Rightarrow> nat option" where
  "pred_step m i prev =
     (if i = ir_instr_count m then ir_get_exit_node_predecessor m prev
      else if type_at m i = IRLABEL then label_predecessor m i prev
      else if prev = None \<and> 0 < i \<and> succ_step m (i - 1) None = Some i then Some (i - 1) else None)"

lemma exit_first_predecessor:
  assumes m: "simple_method m"
  shows "ir_get_exit_node_predecessor m None = type_search m exit_types"
proof -
  obtain i where "i < ir_instr_count m" "type_at m i = IRRET" using simpleD(6) [OF m] by blast
  then have "find_from (\<lambda>i. type_at m i = IRRET) [0..<ir_instr_count m] \<noteq> None"
    by (auto simp: find_from_None)
  then show ?thesis
    by (auto simp: ir_get_exit_node_predecessor_def ir_get_exit_node_first_predecessor_def
        ir_get_first_return_instr_def ir_get_first_instr_by_type_def exit_types_def)
qed

lemma enumerates_predecessors:
  assumes m: "simple_method m" and i: "i \<le> ir_instr_count m"
  shows "enumerates (pred_step m i) None (predecessors m i)"
proof -
  consider "i = ir_instr_count m" | "i < ir_instr_count m" "type_at m i = IRLABEL"
    | "i < ir_instr_count m" "type_at m i \<noteq> IRLABEL" using i by linarith
  then show ?thesis
  proof cases
    case 1
    have "pred_step m i = ir_get_exit_node_predecessor m" using 1 by (simp add: pred_step_def fun_eq_iff)
    then show ?thesis
      using 1 enumerates_exit_types [OF simple_no_catcher [OF m] simpleD(1) [OF m] linked_exit_types
          subset_refl exit_first_predecessor [OF m]]
      by (simp add: predecessors_def)
  next
    case 2
    then have "pred_step m i = label_predecessor m i" by (simp add: pred_step_def fun_eq_iff)
    with 2 enumerates_label [OF m] show ?thesis by (simp add: predecessors_def)
  next
    case 3
    then show ?thesis by (simp add: predecessors_def pred_step_def)
  qed
qed

lemma get_predecessor_cached:
  assumes m: "simple_method m" and c: "cache_ok m cache" and i: "i \<le> ir_instr_count m"
  shows "\<exists>cache'. cache_ok m cache' \<and>
    ir_instr_get_predecessor m i prev cache = Some (pred_step m i prev, cache')"
proof -
  have h: "type_at m j \<notin> handler_types" if "j < ir_instr_count m" for j
    using simpleD(2) [OF m that] .
  have ef: "end_finally_predecessor m i prev = None"
    using h [of "i - 1"] i by (cases i) (auto simp: end_finally_predecessor_def handler_types_def)
  show ?thesis
  proof (cases "i = ir_instr_count m")
    case True
    then show ?thesis using c ef by (auto simp: ir_instr_get_predecessor_def pred_step_def)
  next
    case False
    with i have i: "i < ir_instr_count m" by simp
    obtain s c' where "ir_instr_get_successor m (i - 1) None cache = (s, c')" by fastforce
    with get_successor_cached [OF c, of "i - 1" None]
    show ?thesis using c ef h [OF i] i
      by (auto simp: ir_instr_get_predecessor_def pred_step_def ir_instr_get_prev_def handler_types_def)
  qed
qed

lemma predecessors_loop_eq:
  assumes m: "simple_method m" and i: "i \<le> ir_instr_count m"
    and "cache_ok m cache" and "enumerates (pred_step m i) prev l'"
  shows "\<exists>cache'. cache_ok m cache' \<and>
    predecessors_loop m i (pred_step m i prev) cache l = Some (l @ l', cache')"
  using assms(3-4)
proof (induction l' arbitrary: prev cache l)
  case Nil
  then show ?case by (subst predecessors_loop.simps) auto
next
  case (Cons x l')
  obtain cache' where g: "ir_instr_get_predecessor m i (Some x) cache = Some (pred_step m i (Some x), cache')"
    and c: "cache_ok m cache'"
    using get_predecessor_cached [OF m Cons.prems(1) i] by blast
  have "enumerates (pred_step m i) (Some x) l'" using Cons.prems by simp
  from Cons.IH [OF c this, of "l @ [x]"] show ?case
    using Cons.prems g by (subst predecessors_loop.simps) simp
qed

lemma internal_predecessors_eq:
  assumes m: "simple_method m" and c: "cache_ok m cache" and i: "i \<le> ir_instr_count m"
  shows "\<exists>cache'. cache_ok m cache' \<and>
    internal_getInstructionPredecessors m i cache = Some (predecessors m i, cache')"
proof -
  obtain cache' where "ir_instr_get_predecessor m i None cache = Some (pred_step m i None, cache')"
    "cache_ok m cache'"
    using get_predecessor_cached [OF m c i] by blast
  with predecessors_loop_eq [OF m i _ enumerates_predecessors [OF m i], of cache' "[]"] show ?thesis
    by (simp add: internal_getInstructionPredecessors_def)
qed

lemma predecessors_table_eq:
  assumes "simple_method m" and "cache_ok m cache" and "\<forall>i\<in>set is. i \<le> ir_instr_count m"
  shows "predecessors_table m cache is = Some (map (predecessors m) is)"
  using assms
proof (induction "is" arbitrary: cache)
  case (Cons i "is")
  then obtain cache' where "cache_ok m cache'"
    "internal_getInstructionPredecessors m i cache = Some (predecessors m i, cache')"
    using internal_predecessors_eq [of m cache i] by auto
  with Cons show ?case by simp
qed simp

lemma getInstructionsPredecessors_eq:
  "simple_method m \<Longrightarrow>
   IRMETHOD_getInstructionsPredecessors m = Some (map (predecessors m) [0..<ir_instr_count m + 1])"
  unfolding IRMETHOD_getInstructionsPredecessors_def by (rule predecessors_table_eq) auto

section \<open>Both enumerations see the same edges\<close>

lemma label_get_plain:
  assumes m: "plain_method m" and v: "small_value v"
  shows "ir_instr_label_get m v = Some i \<longleftrightarrow>
    i < ir_instr_count m \<and> type_at m i = IRLABEL \<and> par1v m i = v"
  using v plainD(5) [OF m, of i]
  unfolding ir_instr_label_get_def label_like_get_Some small_value_def
  by (metis order.strict_trans nless_le)

lemma in_successors_plain:
  assumes m: "plain_method m" and j: "j < ir_instr_count m"
  shows "i \<in> set (successors m j) \<longleftrightarrow>
    (if type_at m j \<in> {IRRET, IRTHROW} then i = ir_instr_count m
     else if type_at m j = IRBRANCH then
       i < ir_instr_count m \<and> type_at m i = IRLABEL \<and> par1v m i = par1v m j
     else if type_at m j \<in> {IRBRANCHIF, IRBRANCHIFNOT} then
       i = j + 1 \<or> i < ir_instr_count m \<and> type_at m i = IRLABEL \<and> par1v m i = par2v m j
     else if mayInstructionOfTypeThrowException (type_at m j) then i = j + 1 \<or> i = ir_instr_count m
     else i = j + 1)"
proof -
  have "type_at m j \<in> {IRBRANCHIF, IRBRANCHIFNOT} \<Longrightarrow> Suc j \<noteq> ir_instr_count m"
    using plainD(6) [OF m] by (metis diff_Suc_1 insertCI insertE singletonD)
  then show ?thesis
    using plainD(2) [OF m j] plain_no_catcher [OF m] j
      label_get_plain [OF m plainD(3) [OF m j]] label_get_plain [OF m plainD(4) [OF m j]]
      plainD(5) [OF m, of i "Suc j"]
    by (auto simp: successors_def Let_def handler_types_def)
qed

lemmas label_get_simple = label_get_plain [OF simple_plain]
lemmas in_successors_simple = in_successors_plain [OF simple_plain]

lemma throw_may_throw [simp]: "mayInstructionOfTypeThrowException IRTHROW"
  and ret_may_not_throw [simp]: "\<not> mayInstructionOfTypeThrowException IRRET"
  and branch_may_not_throw [simp]: "\<not> mayInstructionOfTypeThrowException IRBRANCH"
    "\<not> mayInstructionOfTypeThrowException IRBRANCHIF"
    "\<not> mayInstructionOfTypeThrowException IRBRANCHIFNOT"
  by (simp_all add: mayInstructionOfTypeThrowException_def)

lemma in_exit_types:
  "ty \<notin> handler_types \<Longrightarrow> ty \<in> set exit_types \<longleftrightarrow> ty = IRRET \<or> mayInstructionOfTypeThrowException ty"
  by (auto simp: exit_types_def mayInstructionOfTypeThrowException_def handler_types_def)

lemma jump_simple:
  "inst_type inst \<notin> handler_types \<Longrightarrow> inst_type inst \<notin> {IRBRANCHIF, IRBRANCHIFNOT, IREXIT} \<Longrightarrow>
   ir_instr_is_a_jump_instruction inst \<longleftrightarrow>
     inst_type inst \<in> {IRRET, IRBRANCH} \<or> mayInstructionOfTypeThrowException (inst_type inst)"
  by (auto simp: ir_instr_is_a_jump_instruction_def handler_types_def
      IRMETHOD_isAJumpInstructionType_def IRMETHOD_isACallInstruction_def
      mayInstructionOfTypeThrowException_def)

lemma exit_edge:
  assumes m: "simple_method m" and j: "j < ir_instr_count m"
  shows "j \<in> set (predecessors m (ir_instr_count m)) \<longleftrightarrow> ir_instr_count m \<in> set (successors m j)"
proof -
  let ?n = "ir_instr_count m" and ?t = "type_at m j"
  have last: "j + 1 = ?n \<Longrightarrow> ?t \<notin> {IRBRANCHIF, IRBRANCHIFNOT, IREXIT}"
    using simpleD(7) [OF m] by (metis diff_add_inverse2)
  have "last_falls m = Some j \<longleftrightarrow> j + 1 = ?n \<and> \<not> ir_instr_is_a_jump_instruction (ir_instr_get_by_pos m j)"
    using j diff_Suc_1 [of j] unfolding last_falls_def Suc_eq_plus1
    by (cases "j + 1 = ?n") (metis option.distinct(1), auto)
  also have "\<dots> \<longleftrightarrow> j + 1 = ?n \<and> ?t \<notin> {IRRET, IRBRANCH} \<and> \<not> mayInstructionOfTypeThrowException ?t"
    using jump_simple [OF simpleD(2) [OF m j]] last by blast
  finally have lf: "last_falls m = Some j \<longleftrightarrow>
      j + 1 = ?n \<and> ?t \<notin> {IRRET, IRBRANCH} \<and> \<not> mayInstructionOfTypeThrowException ?t" .
  have "j \<in> set (predecessors m ?n) \<longleftrightarrow> ?t \<in> set exit_types \<or> last_falls m = Some j"
    using j by (auto simp: predecessors_def exit_predecessors_def)
  moreover have "?n \<in> set (successors m j) \<longleftrightarrow>
      ?t = IRRET \<or> mayInstructionOfTypeThrowException ?t \<or> j + 1 = ?n \<and> ?t \<noteq> IRBRANCH"
    using in_successors_simple [OF m j, of ?n] last by (auto split: if_splits)
  ultimately show ?thesis
    using lf in_exit_types [OF simpleD(2) [OF m j]] by auto
qed

lemma label_edge:
  assumes m: "simple_method m" and j: "j < ir_instr_count m" and i: "i < ir_instr_count m"
    and l: "type_at m i = IRLABEL"
  shows "j \<in> set (predecessors m i) \<longleftrightarrow> i \<in> set (successors m j)"
  using simpleD(2) [OF m j] j i l
  by (cases "j + 1 = i")
    (auto simp: predecessors_def label_predecessors_def in_successors_simple [OF m j]
      branches_to_label_def Let_def falls_into_def handler_types_def
      internal_has_next_instruction_as_successor_without_jumps_def)

lemma inner_edge:
  assumes m: "simple_method m" and j: "j < ir_instr_count m" and i: "i < ir_instr_count m"
    and l: "type_at m i \<noteq> IRLABEL"
  shows "j \<in> set (predecessors m i) \<longleftrightarrow> i \<in> set (successors m j)"
proof -
  have first: "succ_step m j None = Some i \<longleftrightarrow> j + 1 = i \<and> i \<in> set (successors m j)"
    using simpleD(2) [OF m j] simple_no_catcher [OF m] i j l label_get_simple [OF m simpleD(3) [OF m j]]
    unfolding in_successors_simple [OF m j]
    by (auto simp: succ_step_def ir_instr_get_successor_def Let_def fetch_catcher_def handler_types_def)
  have "i \<in> set (successors m j) \<Longrightarrow> j + 1 = i"
    using i l unfolding in_successors_simple [OF m j] by (auto split: if_splits)
  with first i l show ?thesis by (auto simp: predecessors_def)
qed

lemma simple_edges:
  assumes m: "simple_method m" and i: "i \<le> ir_instr_count m" and j: "j \<le> ir_instr_count m"
  shows "j \<in> set (predecessors m i) \<longleftrightarrow> i \<in> set (successors m j)"
proof (cases "j = ir_instr_count m")
  case True
  have "successors m j = []" using True simpleD(1) [OF m] by (simp add: successors_def)
  moreover have "j \<notin> set (predecessors m i)"
    using True i simpleD(1) [OF m]
    by (auto simp: predecessors_def exit_predecessors_def label_predecessors_def last_falls_def split: if_splits)
  ultimately show ?thesis by simp
next
  case False
  with j have "j < ir_instr_count m" by simp
  with i show ?thesis
    using exit_edge [OF m] label_edge [OF m] inner_edge [OF m] by (metis nless_le)
qed

section \<open>Properties\<close>

lemma nth_table: "k \<le> n \<Longrightarrow> map f [0..<n + 1] ! k = f k"
  by (simp del: upt_Suc)


lemma demo_simple: "simple_method demo"
  by (simp add: demo_simps simple_method_def plain_method_def handler_types_def small_value_def)


section \<open>Edges that the two functions do not agree on\<close>

text \<open>\<open>0: nativecall; 1: ret\<close>\<close>

definition native_demo :: ir_method where
  "native_demo = mk_method 0 0
    [mk_inst IRNATIVECALL nopar_item nopar_item nopar_item, mk_inst IRRET nopar_item nopar_item nopar_item]"

text \<open>
  C33: A native call may throw, so the exit node is one of its successors; the chain of types
  \<open>next_type\<close> has no native call, so the call is not among the predecessors of the exit node.
\<close>

theorem native_call_edge_missing:
  "map_option fst (internal_getInstructionSuccessors native_demo 0 None) = Some [1, 2] \<and>
   map_option fst (internal_getInstructionPredecessors native_demo 2 None) = Some [1]"
proof
  have c: "ir_instr_count native_demo = 2" by (simp add: native_demo_def demo_simps)
  have s: "successors native_demo 0 = [1, 2]"
    by (simp add: successors_def native_demo_def demo_simps mayInstructionOfTypeThrowException_def
        ir_instrcatcher_get_def upt_rec)
  show "map_option fst (internal_getInstructionSuccessors native_demo 0 None) = Some [1, 2]"
    using internal_successors_eq [of native_demo None 0] s by auto
  show "map_option fst (internal_getInstructionPredecessors native_demo 2 None) = Some [1]"
    unfolding internal_getInstructionPredecessors_def
    by (simp add: predecessors_loop.simps ir_instr_get_predecessor_def end_finally_predecessor_def
        native_demo_def demo_simps ir_get_exit_node_predecessor_def Let_def
        ir_get_exit_node_first_predecessor_def ir_get_first_return_instr_def
        ir_get_first_instr_by_type_def ir_get_next_instr_of_same_type_def upt_rec
        exit_node_type_search.simps next_type_def ir_instrcatcher_get_def ir_instr_get_last_def
        ir_instr_is_a_jump_instruction_def IRMETHOD_isAJumpInstructionType_def)
qed

text \<open>\<open>0: L1; 1: branchif v0 L1\<close>, the branch is the last instruction.\<close>

definition last_branch_demo :: ir_method where
  "last_branch_demo = mk_method 1 1
    [mk_inst IRLABEL nopar_item (label_item 1) nopar_item,
     mk_inst IRBRANCHIF nopar_item (var_item 0) (label_item 1)]"

text \<open>
  C34: When a conditional branch is the last instruction, its fall-through is the exit node, and a call with
  the exit node as previous answer ends the enumeration: the destination of the branch is
  not among its successors.
\<close>

theorem last_branch_destination_missing:
  "map_option fst (internal_getInstructionSuccessors last_branch_demo 1 None) = Some [2] \<and>
   IRMETHOD_getBranchDestination last_branch_demo 1 = Some 0"
proof
  have "successors last_branch_demo 1 = [2]"
    by (simp add: successors_def last_branch_demo_def demo_simps)
  moreover have "ir_instr_count last_branch_demo = 2" by (simp add: last_branch_demo_def demo_simps)
  ultimately show "map_option fst (internal_getInstructionSuccessors last_branch_demo 1 None) = Some [2]"
    using internal_successors_eq [of last_branch_demo None 1] by auto
  show "IRMETHOD_getBranchDestination last_branch_demo 1 = Some 0"
    by (simp add: IRMETHOD_getBranchDestination_def last_branch_demo_def demo_simps
        ir_instr_label_get_def ir_instr_label_like_get_def upt_rec)
qed

end
