(* ===== verification/FlowFix.thy ===== *)
theory FlowFix
  imports Prelude
begin

text \<open>
  What the iterative data-flow analyses share. The locale \<open>flow_pass\<close> is the contract of one
  visit of an instruction: it reports whether it changed the state, keeps an invariant, and
  every change adds to a bounded weight; under that contract the \<open>do ... while (modified)\<close> loop
  over all instructions ends, in a state no visit changes. The inductive relation \<open>flows\<close> is the
  abstract specification: the facts that travel over the edges from the places that generate them to the
  places they are not killed before, and \<open>flow_path\<close> is the same in terms of paths.
\<close>

section \<open>The loop over the instructions until nothing changes\<close>

definition flow_step :: "(nat \<Rightarrow> bool \<times> 's \<Rightarrow> bool \<times> 's) \<Rightarrow> nat list \<Rightarrow> 's \<Rightarrow> bool \<times> 's" where
  "flow_step visit order s = fold visit order (False, s)"

locale flow_pass =
  fixes visit :: "nat \<Rightarrow> bool \<times> 's \<Rightarrow> bool \<times> 's"
    and nodes :: "nat set"
    and inv :: "'s \<Rightarrow> bool"
    and weight :: "'s \<Rightarrow> nat"
    and bound :: nat
  assumes visit_flag: "\<lbrakk>inv s; i \<in> nodes\<rbrakk> \<Longrightarrow>
      visit i (md, s) = (md \<or> snd (visit i (False, s)) \<noteq> s, snd (visit i (False, s)))"
    and visit_inv: "\<lbrakk>inv s; i \<in> nodes\<rbrakk> \<Longrightarrow> inv (snd (visit i (False, s)))"
    and visit_weight: "\<lbrakk>inv s; i \<in> nodes; snd (visit i (False, s)) \<noteq> s\<rbrakk> \<Longrightarrow>
      weight s < weight (snd (visit i (False, s)))"
    and weight_bound: "inv s \<Longrightarrow> weight s \<le> bound"
begin

lemma fold_visit:
  assumes "inv s" and "set order \<subseteq> nodes" and "fold visit order (md, s) = (md', s')"
  shows "inv s' \<and> weight s \<le> weight s' \<and> (md' \<longleftrightarrow> md \<or> weight s < weight s') \<and>
    (\<not> md' \<longrightarrow> s' = s \<and> (\<forall>i\<in>set order. visit i (False, s) = (False, s)))"
  using assms
proof (induction order arbitrary: md s)
  case (Cons i order)
  define s1 where "s1 = snd (visit i (False, s))"
  have i: "i \<in> nodes" and o: "set order \<subseteq> nodes" using Cons.prems by simp_all
  have v: "visit i (b, s) = (b \<or> s1 \<noteq> s, s1)" for b
    unfolding s1_def by (rule visit_flag [OF Cons.prems(1) i])
  have w: "s1 \<noteq> s \<Longrightarrow> weight s < weight s1"
    unfolding s1_def by (rule visit_weight [OF Cons.prems(1) i])
  have "inv s1" unfolding s1_def by (rule visit_inv [OF Cons.prems(1) i])
  moreover have "fold visit order (md \<or> s1 \<noteq> s, s1) = (md', s')"
    using Cons.prems(3) by (simp add: v)
  ultimately have ih: "inv s'" "weight s1 \<le> weight s'"
      "md' \<longleftrightarrow> (md \<or> s1 \<noteq> s) \<or> weight s1 < weight s'"
      "\<not> md' \<Longrightarrow> s' = s1 \<and> (\<forall>i\<in>set order. visit i (False, s1) = (False, s1))"
    using Cons.IH [OF _ o] by blast+
  show ?case
  proof (cases "s1 = s")
    case True
    then show ?thesis using ih v by simp
  next
    case False
    then show ?thesis using ih(1-3) w by auto
  qed
qed simp

lemma fold_keeps:
  assumes "inv s" and "P s" and "set order \<subseteq> nodes"
    and "\<And>s i. inv s \<Longrightarrow> P s \<Longrightarrow> i \<in> nodes \<Longrightarrow> P (snd (visit i (False, s)))"
  shows "P (snd (fold visit order (md, s)))"
  using assms(1-3)
proof (induction order arbitrary: md s)
  case (Cons i order)
  have v: "visit i (md, s) = (md \<or> snd (visit i (False, s)) \<noteq> s, snd (visit i (False, s)))"
    using Cons.prems by (intro visit_flag) auto
  show ?case
    using Cons.IH [of "snd (visit i (False, s))"] Cons.prems assms(4) visit_inv by (simp add: v)
qed simp

text \<open>The loop ends, keeps what every visit keeps, and ends in a state that no visit changes.\<close>

theorem flow_loop:
  assumes "inv s" and "P s" and order: "set order = nodes"
    and P: "\<And>s i. inv s \<Longrightarrow> P s \<Longrightarrow> i \<in> nodes \<Longrightarrow> P (snd (visit i (False, s)))"
  shows "\<exists>t. do_while (flow_step visit order) s = Some t \<and> inv t \<and> P t \<and>
    (\<forall>i\<in>nodes. visit i (False, t) = (False, t))"
proof -
  have "\<exists>t. do_while (flow_step visit order) s = Some (snd (flow_step visit order t)) \<and>
      (inv t \<and> P t) \<and> \<not> fst (flow_step visit order t)"
  proof (rule do_while_terminates [where weight = weight and n = bound])
    show "inv s \<and> P s" using assms by simp
    fix s assume s: "inv s \<and> P s"
    have o: "set order \<subseteq> nodes" using order by simp
    note f = fold_visit [OF conjunct1 [OF s] o surjective_pairing, of False]
    have "P (snd (fold visit order (False, s)))"
      using fold_keeps [of s P order False] s o P by blast
    then show "inv (snd (flow_step visit order s)) \<and> P (snd (flow_step visit order s))"
      using f by (simp add: flow_step_def)
    show "weight s \<le> bound" using weight_bound s by simp
    show "weight s < weight (snd (flow_step visit order s))" if "fst (flow_step visit order s)"
      using f that unfolding flow_step_def by blast
  qed
  then obtain t where t: "do_while (flow_step visit order) s = Some (snd (flow_step visit order t))"
      "inv t" "P t" "\<not> fst (flow_step visit order t)" by blast
  have "set order \<subseteq> nodes" using order by simp
  from fold_visit [OF t(2) this surjective_pairing, of False] t(4)
  have "snd (flow_step visit order t) = t" "\<forall>i\<in>nodes. visit i (False, t) = (False, t)"
    unfolding flow_step_def order [symmetric] by blast+
  with t show ?thesis by auto
qed

end

section \<open>The specification: facts that flow over edges\<close>

inductive flows :: "(nat \<Rightarrow> nat set) \<Rightarrow> (nat \<Rightarrow> 'a set) \<Rightarrow> (nat \<Rightarrow> 'a set) \<Rightarrow> nat \<Rightarrow> 'a \<Rightarrow> bool"
  for nbr gen kill where
  flows_gen: "x \<in> gen i \<Longrightarrow> flows nbr gen kill i x"
| flows_edge: "\<lbrakk>j \<in> nbr i; flows nbr gen kill j x; x \<notin> kill i\<rbrakk> \<Longrightarrow> flows nbr gen kill i x"

text \<open>The facts that arrive over the edges of \<open>i\<close>, before \<open>i\<close> itself is applied.\<close>

definition arrives :: "(nat \<Rightarrow> nat set) \<Rightarrow> (nat \<Rightarrow> 'a set) \<Rightarrow> (nat \<Rightarrow> 'a set) \<Rightarrow> nat \<Rightarrow> 'a \<Rightarrow> bool" where
  "arrives nbr gen kill i x \<longleftrightarrow> (\<exists>j\<in>nbr i. flows nbr gen kill j x)"

lemma flows_unfold:
  "flows nbr gen kill i x \<longleftrightarrow> x \<in> gen i \<or> arrives nbr gen kill i x \<and> x \<notin> kill i"
  by (subst flows.simps) (auto simp: arrives_def)

text \<open>A path \<open>i = p\<^sub>0, p\<^sub>1, \<dots>, p\<^sub>k\<close> whose last node generates the fact and whose other nodes do not kill it.\<close>

fun flow_path :: "(nat \<Rightarrow> nat set) \<Rightarrow> (nat \<Rightarrow> 'a set) \<Rightarrow> (nat \<Rightarrow> 'a set) \<Rightarrow> nat list \<Rightarrow> 'a \<Rightarrow> bool" where
  "flow_path nbr gen kill [] x \<longleftrightarrow> False"
| "flow_path nbr gen kill [i] x \<longleftrightarrow> x \<in> gen i"
| "flow_path nbr gen kill (i # j # p) x \<longleftrightarrow> j \<in> nbr i \<and> x \<notin> kill i \<and> flow_path nbr gen kill (j # p) x"

lemma flows_iff_path: "flows nbr gen kill i x \<longleftrightarrow> (\<exists>p. flow_path nbr gen kill (i # p) x)"
proof
  assume "flows nbr gen kill i x"
  then show "\<exists>p. flow_path nbr gen kill (i # p) x"
  proof induction
    case (flows_gen x i)
    then show ?case by (intro exI [of _ "[]"]) simp
  next
    case (flows_edge j i x)
    then obtain p where "flow_path nbr gen kill (j # p) x" by blast
    with flows_edge show ?case by (intro exI [of _ "j # p"]) simp
  qed
next
  assume "\<exists>p. flow_path nbr gen kill (i # p) x"
  then obtain p where "flow_path nbr gen kill (i # p) x" ..
  then show "flows nbr gen kill i x"
    by (induction p arbitrary: i) (auto intro: flows.intros)
qed

text \<open>A solution of the equations that holds only facts that flow is the least one.\<close>

lemma flow_solution:
  assumes sound_here: "\<And>i x. i \<in> nodes \<Longrightarrow> x \<in> here i \<Longrightarrow> flows nbr gen kill i x"
    and closed: "\<And>i. i \<in> nodes \<Longrightarrow> here i = gen i \<union> (there i - kill i)"
    and there: "\<And>i. i \<in> nodes \<Longrightarrow> (\<Union>j\<in>nbr i. here j) \<subseteq> there i"
    and sound_there: "\<And>i x. i \<in> nodes \<Longrightarrow> x \<in> there i \<Longrightarrow> arrives nbr gen kill i x"
    and outside: "\<And>i. i \<notin> nodes \<Longrightarrow> here i = {} \<and> gen i = {} \<and> nbr i = {}"
    and i: "i \<in> nodes"
  shows "here i = {x. flows nbr gen kill i x} \<and> there i = {x. arrives nbr gen kill i x}"
proof -
  have complete: "x \<in> here i" if "flows nbr gen kill i x" for i x
    using that
  proof induction
    case (flows_gen x i)
    then show ?case using closed outside by (cases "i \<in> nodes") auto
  next
    case (flows_edge j i x)
    have i: "i \<in> nodes" using flows_edge(1) outside by auto
    with flows_edge there [OF i] have "x \<in> there i" by blast
    with flows_edge(3) show ?case unfolding closed [OF i] by simp
  qed
  have "x \<in> there i" if "arrives nbr gen kill i x" for x
    using that complete there [OF i] by (auto simp: arrives_def)
  with complete sound_here sound_there i show ?thesis by blast
qed

end
