(* ===== verification/BitFlow.thy ===== *)
theory BitFlow
  imports FlowFix
begin

text \<open>
  Data-flow analysis on bit sets, the common shape of liveness, reaching definitions and reaching
  instructions: every instruction has two arrays of words, \<open>there\<close> (joined from the neighbours) and
  \<open>here\<close> (\<open>gen | (there & ~kill)\<close>). The theory states one visit on pairs of arrays, shows that it keeps
  the contract \<open>flow_pass\<close>, and characterises the state the loop ends in. The locale \<open>bit_flow\<close>
  is the interface an analysis implements: its own visit refines the visit on pairs.
\<close>

type_synonym bf_state = "(blocks \<times> blocks) list"

definition bf_or :: "blocks \<Rightarrow> blocks \<Rightarrow> blocks" where
  "bf_or a b = map (\<lambda>c. a ! c OR b ! c) [0..<length a]"

definition bf_join :: "bf_state \<Rightarrow> nat list \<Rightarrow> blocks \<Rightarrow> blocks" where
  "bf_join st ns t = fold (\<lambda>j t. bf_or t (snd (st ! j))) ns t"

definition bf_apply :: "blocks \<Rightarrow> blocks \<Rightarrow> blocks \<Rightarrow> blocks" where
  "bf_apply g k t = map (\<lambda>c. g ! c OR (t ! c AND NOT (k ! c))) [0..<length t]"

definition bf_new ::
  "(nat \<Rightarrow> nat list) \<Rightarrow> (nat \<Rightarrow> blocks) \<Rightarrow> (nat \<Rightarrow> blocks) \<Rightarrow> nat \<Rightarrow> bf_state \<Rightarrow> blocks \<times> blocks" where
  "bf_new nbr gen kill i st =
     (let t = bf_join st (nbr i) (fst (st ! i)) in (t, bf_apply (gen i) (kill i) t))"

definition bf_visit ::
  "(nat \<Rightarrow> nat list) \<Rightarrow> (nat \<Rightarrow> blocks) \<Rightarrow> (nat \<Rightarrow> blocks) \<Rightarrow> nat \<Rightarrow> bool \<times> bf_state \<Rightarrow> bool \<times> bf_state" where
  "bf_visit nbr gen kill i = (\<lambda>(md, st).
     (md \<or> bf_new nbr gen kill i st \<noteq> st ! i, st[i := bf_new nbr gen kill i st]))"

definition bf_zero :: "nat \<Rightarrow> nat \<Rightarrow> bf_state" where
  "bf_zero N B = replicate N (replicate B 0, replicate B 0)"

section \<open>The operations as operations on sets\<close>

lemma length_bf_or [simp]: "length (bf_or a b) = length a"
  by (simp add: bf_or_def)

lemma length_bf_apply [simp]: "length (bf_apply g k t) = length t"
  by (simp add: bf_apply_def)

lemma length_bf_join [simp]: "length (bf_join st ns t) = length t"
  unfolding bf_join_def by (induction ns arbitrary: t) simp_all

lemma blk_set_or: "length b = length a \<Longrightarrow> blk_set (bf_or a b) = blk_set a \<union> blk_set b"
  by (auto simp: bf_or_def blk_set_def bit_or_iff)

lemma blk_set_apply:
  "length g = length t \<Longrightarrow> length k = length t \<Longrightarrow>
   blk_set (bf_apply g k t) = blk_set g \<union> (blk_set t - blk_set k)"
  by (auto simp: bf_apply_def blk_set_def bit_or_iff bit_and_iff bit_not_iff)

lemma blk_set_join:
  assumes "\<forall>j\<in>set ns. length (snd (st ! j)) = length t"
  shows "blk_set (bf_join st ns t) = blk_set t \<union> (\<Union>j\<in>set ns. blk_set (snd (st ! j)))"
  using assms unfolding bf_join_def
proof (induction ns arbitrary: t)
  case (Cons j ns)
  then show ?case by (simp add: blk_set_or Un_assoc)
qed simp

text \<open>The loop over the words reports a change of any of them, also over a list of joins.\<close>

lemma blk_loop_or:
  "length a = B \<Longrightarrow> blk_loop (\<lambda>count old. old OR b ! count) B (md, a) = (md \<or> bf_or a b \<noteq> a, bf_or a b)"
  by (simp add: blk_loop_full bf_or_def)

lemma join_grows:
  assumes "\<forall>j\<in>set (j # ns). length (snd (st ! j)) = length a" and "bf_join st (j # ns) a = a"
  shows "bf_or a (snd (st ! j)) = a"
proof -
  have "blk_set a \<union> (\<Union>j\<in>set (j # ns). blk_set (snd (st ! j))) = blk_set a"
    using blk_set_join [OF assms(1)] assms(2) by simp
  then have "blk_set (bf_or a (snd (st ! j))) = blk_set a"
    using blk_set_or [of "snd (st ! j)" a] assms(1) by auto
  then show ?thesis by (simp add: blk_set_eq_iff)
qed

lemma fold_blk_loop_or:
  assumes "length a = B" and "\<forall>j\<in>set ns. length (snd (st ! j)) = B \<and> b j = snd (st ! j)"
  shows "fold (\<lambda>j. blk_loop (\<lambda>count old. old OR b j ! count) B) ns (md, a) =
    (md \<or> bf_join st ns a \<noteq> a, bf_join st ns a)"
  using assms
proof (induction ns arbitrary: a md)
  case (Cons j ns)
  have "bf_join st (j # ns) a = bf_join st ns (bf_or a (snd (st ! j)))" by (simp add: bf_join_def)
  moreover have "bf_join st (j # ns) a = a \<Longrightarrow> bf_or a (snd (st ! j)) = a"
    using Cons.prems by (intro join_grows) auto
  ultimately show ?case
    using Cons by (auto simp: blk_loop_or)
qed (simp add: bf_join_def)

section \<open>The problem\<close>

locale bf_problem =
  fixes nbr :: "nat \<Rightarrow> nat list" and gen kill :: "nat \<Rightarrow> blocks" and N B :: nat and nodes :: "nat set"
  assumes nodes_less: "nodes \<subseteq> {..<N}"
    and nbr_less: "i \<in> nodes \<Longrightarrow> set (nbr i) \<subseteq> {..<N}"
    and gen_length: "i \<in> nodes \<Longrightarrow> length (gen i) = B"
    and kill_length: "i \<in> nodes \<Longrightarrow> length (kill i) = B"
begin

definition node_ok :: "nat \<Rightarrow> blocks \<times> blocks \<Rightarrow> bool" where
  "node_ok i p \<longleftrightarrow> length (fst p) = B \<and> length (snd p) = B \<and>
     blk_set (snd p) \<subseteq>
       (if i \<in> nodes then blk_set (gen i) \<union> (blk_set (fst p) - blk_set (kill i)) else {})"

definition wf :: "bf_state \<Rightarrow> bool" where
  "wf st \<longleftrightarrow> length st = N \<and> (\<forall>i<N. node_ok i (st ! i))"

lemma wfD:
  assumes "wf st"
  shows "length st = N" and "i < N \<Longrightarrow> node_ok i (st ! i)"
  using assms by (auto simp: wf_def)

lemma node_okD:
  assumes "node_ok i p"
  shows "length (fst p) = B" "length (snd p) = B"
    and "i \<in> nodes \<Longrightarrow> blk_set (snd p) \<subseteq> blk_set (gen i) \<union> (blk_set (fst p) - blk_set (kill i))"
    and "i \<notin> nodes \<Longrightarrow> blk_set (snd p) = {}"
  using assms by (auto simp: node_ok_def)

lemma node_less: "i \<in> nodes \<Longrightarrow> i < N"
  using nodes_less by auto

definition weight :: "bf_state \<Rightarrow> nat" where
  "weight st = sum_list (map (\<lambda>p. card (blk_set (fst p)) + card (blk_set (snd p))) st)"

lemma wf_zero: "wf (bf_zero N B)"
  by (simp add: wf_def node_ok_def bf_zero_def blk_set_replicate_0)

lemma new_sets:
  assumes "wf st" and i: "i \<in> nodes"
  shows "length (fst (bf_new nbr gen kill i st)) = B" "length (snd (bf_new nbr gen kill i st)) = B"
    and "blk_set (fst (bf_new nbr gen kill i st)) =
      blk_set (fst (st ! i)) \<union> (\<Union>j\<in>set (nbr i). blk_set (snd (st ! j)))"
    and "blk_set (snd (bf_new nbr gen kill i st)) =
      blk_set (gen i) \<union> (blk_set (fst (bf_new nbr gen kill i st)) - blk_set (kill i))"
proof -
  have l: "length (fst (st ! i)) = B" "\<forall>j\<in>set (nbr i). length (snd (st ! j)) = B"
    using wfD [OF assms(1)] node_less [OF i] nbr_less [OF i] by (auto dest: node_okD)
  then show "blk_set (fst (bf_new nbr gen kill i st)) =
      blk_set (fst (st ! i)) \<union> (\<Union>j\<in>set (nbr i). blk_set (snd (st ! j)))"
    by (simp add: bf_new_def Let_def blk_set_join)
  show "length (fst (bf_new nbr gen kill i st)) = B" "length (snd (bf_new nbr gen kill i st)) = B"
    using l by (simp_all add: bf_new_def Let_def)
  show "blk_set (snd (bf_new nbr gen kill i st)) =
      blk_set (gen i) \<union> (blk_set (fst (bf_new nbr gen kill i st)) - blk_set (kill i))"
    using l gen_length [OF i] kill_length [OF i] by (simp add: bf_new_def Let_def blk_set_apply)
qed

lemma wf_visit:
  assumes "wf st" and i: "i \<in> nodes"
  shows "wf (st[i := bf_new nbr gen kill i st])"
proof -
  have "node_ok i (bf_new nbr gen kill i st)"
    using new_sets [OF assms] i by (simp add: node_ok_def)
  then have "node_ok k (st[i := bf_new nbr gen kill i st] ! k)" if "k < N" for k
    using wfD [OF assms(1)] that by (cases "k = i") auto
  then show ?thesis using wfD(1) [OF assms(1)] by (simp add: wf_def)
qed

lemma new_larger:
  assumes "wf st" and i: "i \<in> nodes" and ne: "bf_new nbr gen kill i st \<noteq> st ! i"
  shows "card (blk_set (fst (st ! i))) + card (blk_set (snd (st ! i))) <
    card (blk_set (fst (bf_new nbr gen kill i st))) + card (blk_set (snd (bf_new nbr gen kill i st)))"
proof -
  let ?p = "st ! i" and ?q = "bf_new nbr gen kill i st"
  have l: "length (fst ?p) = B" "length (snd ?p) = B"
    and c: "blk_set (snd ?p) \<subseteq> blk_set (gen i) \<union> (blk_set (fst ?p) - blk_set (kill i))"
    using node_okD [OF wfD(2) [OF assms(1) node_less [OF i]]] i by auto
  note n = new_sets [OF assms(1) i]
  have s: "blk_set (fst ?p) \<subseteq> blk_set (fst ?q)" "blk_set (snd ?p) \<subseteq> blk_set (snd ?q)"
    using c unfolding n(3) n(4) by auto
  have "blk_set (fst ?p) \<noteq> blk_set (fst ?q) \<or> blk_set (snd ?p) \<noteq> blk_set (snd ?q)"
    using ne l n(1,2) blk_set_eq_iff by (metis prod_eq_iff)
  with s have "card (blk_set (fst ?p)) < card (blk_set (fst ?q)) \<or>
      card (blk_set (snd ?p)) < card (blk_set (snd ?q))"
    by (metis finite_blk_set psubset_card_mono psubsetI)
  moreover have "card (blk_set (fst ?p)) \<le> card (blk_set (fst ?q))"
    "card (blk_set (snd ?p)) \<le> card (blk_set (snd ?q))"
    using s by (simp_all add: card_mono)
  ultimately show ?thesis by linarith
qed

lemma weight_bounded: "wf st \<Longrightarrow> weight st \<le> 128 * B * N"
proof -
  assume w: "wf st"
  have "card (blk_set (fst p)) + card (blk_set (snd p)) \<le> 128 * B" if p: "p \<in> set st" for p
  proof -
    obtain i where "i < N" "p = st ! i" using p wfD(1) [OF w] unfolding in_set_conv_nth by blast
    with node_okD [OF wfD(2) [OF w]] have "length (fst p) = B" "length (snd p) = B" by auto
    with card_blk_set [of "fst p"] card_blk_set [of "snd p"] show ?thesis by simp
  qed
  then show ?thesis
    using sum_list_bound [of st "\<lambda>p. card (blk_set (fst p)) + card (blk_set (snd p))" "128 * B"] w
    by (simp add: weight_def wf_def)
qed

end

sublocale bf_problem \<subseteq> pass: flow_pass "bf_visit nbr gen kill" nodes wf weight "128 * B * N"
proof
  fix st i md assume w: "wf st" and i: "i \<in> nodes"
  then have l: "i < length st" using wfD(1) [OF w] node_less by simp
  then have same: "st[i := x] = st \<longleftrightarrow> x = st ! i" for x by (simp add: list_update_same_iff)
  show "bf_visit nbr gen kill i (md, st) =
      (md \<or> snd (bf_visit nbr gen kill i (False, st)) \<noteq> st, snd (bf_visit nbr gen kill i (False, st)))"
    by (simp add: bf_visit_def same)
  show "wf (snd (bf_visit nbr gen kill i (False, st)))"
    using wf_visit [OF w i] by (simp add: bf_visit_def)
  show "weight st < weight (snd (bf_visit nbr gen kill i (False, st)))"
    if "snd (bf_visit nbr gen kill i (False, st)) \<noteq> st"
    using that new_larger [OF w i] l
    by (simp add: bf_visit_def same weight_def sum_list_update_less)
qed (rule weight_bounded)

section \<open>The result of the loop\<close>

context bf_problem
begin

definition edges :: "nat \<Rightarrow> nat set" where
  "edges i = (if i \<in> nodes then set (nbr i) else {})"

definition gens :: "nat \<Rightarrow> nat set" where
  "gens i = (if i \<in> nodes then blk_set (gen i) else {})"

definition kills :: "nat \<Rightarrow> nat set" where
  "kills i = (if i \<in> nodes then blk_set (kill i) else {})"

definition sound :: "bf_state \<Rightarrow> bool" where
  "sound st \<longleftrightarrow>
     (\<forall>i<N. \<forall>x\<in>blk_set (snd (st ! i)). flows edges gens kills i x) \<and>
     (\<forall>i\<in>nodes. \<forall>x\<in>blk_set (fst (st ! i)). arrives edges gens kills i x)"

lemma sound_visit:
  assumes w: "wf st" and s: "sound st" and i: "i \<in> nodes"
  shows "sound (snd (bf_visit nbr gen kill i (False, st)))"
proof -
  let ?q = "bf_new nbr gen kill i st"
  have l: "i < length st" "length st = N" using wfD(1) [OF w] node_less [OF i] by simp_all
  have t: "arrives edges gens kills i x" if "x \<in> blk_set (fst ?q)" for x
    using that s i nbr_less [OF i] unfolding new_sets(3) [OF w i]
    by (auto simp: sound_def arrives_def edges_def)
  have "flows edges gens kills i x" if "x \<in> blk_set (snd ?q)" for x
    using that t i unfolding new_sets(4) [OF w i]
    by (auto simp: flows_unfold [of edges gens kills i] gens_def kills_def)
  with t s l show ?thesis
    by (auto simp: sound_def bf_visit_def nth_list_update)
qed

definition solves :: "bf_state \<Rightarrow> bool" where
  "solves st \<longleftrightarrow> length st = N \<and>
     (\<forall>i<N. length (fst (st ! i)) = B \<and> length (snd (st ! i)) = B) \<and>
     (\<forall>i<N. i \<notin> nodes \<longrightarrow> blk_set (snd (st ! i)) = {}) \<and>
     (\<forall>i\<in>nodes. blk_set (snd (st ! i)) = {x. flows edges gens kills i x} \<and>
        blk_set (fst (st ! i)) = {x. arrives edges gens kills i x})"

lemma solvesD:
  assumes "solves st" and "i \<in> nodes"
  shows "blk_set (snd (st ! i)) = {x. flows edges gens kills i x}"
    and "blk_set (fst (st ! i)) = {x. arrives edges gens kills i x}"
  using assms by (simp_all add: solves_def)

lemma fixpoint_solves:
  assumes w: "wf st" and s: "sound st" and fx: "\<forall>i\<in>nodes. bf_visit nbr gen kill i (False, st) = (False, st)"
  shows "solves st"
proof -
  have same: "bf_new nbr gen kill i st = st ! i" if "i \<in> nodes" for i
    using fx that by (auto simp: bf_visit_def)
  have "blk_set (snd (st ! i)) = {x. flows edges gens kills i x} \<and>
      blk_set (fst (st ! i)) = {x. arrives edges gens kills i x}" if "i \<in> nodes" for i
  proof -
    let ?here = "\<lambda>i. if i \<in> nodes then blk_set (snd (st ! i)) else {}"
    let ?there = "\<lambda>i. if i \<in> nodes then blk_set (fst (st ! i)) else {}"
    have "?here i = {x. flows edges gens kills i x} \<and> ?there i = {x. arrives edges gens kills i x}"
    proof (rule flow_solution [where nodes = nodes])
      fix i x assume i: "i \<in> nodes"
      show "?here i = gens i \<union> (?there i - kills i)"
        using new_sets(4) [OF w i] i same [OF i] by (simp add: gens_def kills_def)
      have "?here j \<subseteq> ?there i" if "j \<in> edges i" for j
        using new_sets(3) [OF w i] i same [OF i] that by (auto simp: edges_def)
      then show "(\<Union>j\<in>edges i. ?here j) \<subseteq> ?there i" by (rule UN_least)
      show "flows edges gens kills i x" if "x \<in> ?here i"
        using s that i nodes_less by (auto simp: sound_def)
      show "arrives edges gens kills i x" if "x \<in> ?there i"
        using s that i by (auto simp: sound_def)
    qed (use that in \<open>auto simp: gens_def edges_def\<close>)
    with that show ?thesis by simp
  qed
  then show ?thesis
    using wfD [OF w] node_okD [OF wfD(2) [OF w]] by (simp add: solves_def)
qed

lemma sound_zero: "sound (bf_zero N B)"
  using nodes_less by (auto simp: sound_def bf_zero_def blk_set_replicate_0)

theorem bf_loop:
  assumes "set order = nodes"
  shows "\<exists>t. do_while (flow_step (bf_visit nbr gen kill) order) (bf_zero N B) = Some t \<and> solves t"
  using pass.flow_loop [where P = sound, OF wf_zero sound_zero assms] sound_visit fixpoint_solves
  by blast

end

section \<open>Refinement\<close>

text \<open>A simulation between two visits carries over to the whole loop.\<close>

lemma fold_simulation:
  assumes sim: "\<And>i s md. ok s \<Longrightarrow> i \<in> set order \<Longrightarrow> ok (snd (visit i (md, s))) \<and>
      visit' i (md, f s) = (fst (visit i (md, s)), f (snd (visit i (md, s))))"
    and "ok s"
  shows "ok (snd (fold visit order (md, s))) \<and>
    fold visit' order (md, f s) = (fst (fold visit order (md, s)), f (snd (fold visit order (md, s))))"
  using assms
proof (induction order arbitrary: md s)
  case (Cons i order)
  obtain md' s' where v: "visit i (md, s) = (md', s')" by fastforce
  with Cons.prems(1) [of s i md] Cons.prems(2) have "ok s'" "visit' i (md, f s) = (md', f s')" by auto
  with Cons v show ?case by simp
qed simp

locale bit_flow = bf_problem nbr gen kill N B nodes
  for nbr gen kill N B nodes +
  fixes visit :: "nat \<Rightarrow> bool \<times> 's \<Rightarrow> bool \<times> 's"
    and abs :: "'s \<Rightarrow> bf_state"
    and ok :: "'s \<Rightarrow> bool"
  assumes visit_ok: "\<lbrakk>ok s; i \<in> nodes\<rbrakk> \<Longrightarrow> ok (snd (visit i (md, s)))"
    and visit_refines: "\<lbrakk>ok s; i \<in> nodes\<rbrakk> \<Longrightarrow>
      bf_visit nbr gen kill i (md, abs s) = (fst (visit i (md, s)), abs (snd (visit i (md, s))))"
begin

theorem analysis_loop:
  assumes "ok s" and "abs s = bf_zero N B" and order: "set order = nodes"
  shows "\<exists>t. do_while (flow_step visit order) s = Some t \<and> ok t \<and> solves (abs t)"
proof -
  obtain t' where t': "do_while (flow_step (bf_visit nbr gen kill) order) (abs s) = Some t'" "solves t'"
    using bf_loop [OF order] assms(2) by auto
  have "\<exists>t. do_while (flow_step visit order) s = Some t \<and> ok t \<and> abs t = t'"
  proof (rule do_while_simulation [where ok = ok and f = abs, OF _ assms(1) t'(1)])
    fix s assume "ok s"
    then show "ok (snd (flow_step visit order s)) \<and>
        flow_step (bf_visit nbr gen kill) order (abs s) =
          (fst (flow_step visit order s), abs (snd (flow_step visit order s)))"
      unfolding flow_step_def
      by (intro fold_simulation) (simp_all add: order visit_ok visit_refines)
  qed
  with t' show ?thesis by blast
qed

end

end
