(* ===== verification/Liveness.thy ===== *)
theory Liveness
  imports FlowGraph BitFlow
begin

text \<open>
  Liveness of variables: the plugin \<open>optimizer-liveness/src/optimizer_liveness.c\<close> on the arrays that
  \<open>libirmanager/src/ir_method.c\<close> keeps in the metadata of every instruction. The state is the list of
  that metadata, one element per position \<open>0 .. n\<close>; the exit node is the last one.
\<close>

section \<open>The metadata\<close>

record live_data =
  live_def :: "64 word"
  live_use :: blocks
  live_in :: blocks
  live_out :: blocks

type_synonym live_state = "live_data list"

text \<open>
  \<open>ir_method_liveness_alloc\<close> for a positive number of blocks: both branches (same number of blocks:
  \<open>memset\<close>; another number: zeroed allocation) leave every array zero and no definition.
\<close>

definition ir_instr_liveness_alloc :: "nat \<Rightarrow> live_data" where
  "ir_instr_liveness_alloc blocksNumber =
     \<lparr>live_def = -1, live_use = replicate blocksNumber 0, live_in = replicate blocksNumber 0,
      live_out = replicate blocksNumber 0\<rparr>"

definition ir_method_liveness_alloc :: "ir_method \<Rightarrow> nat \<Rightarrow> live_state" where
  "ir_method_liveness_alloc m blocksNumber =
     replicate (ir_instr_count m + 1) (ir_instr_liveness_alloc blocksNumber)"

definition liveness_use_add :: "64 word \<Rightarrow> live_data \<Rightarrow> live_data" where
  "liveness_use_add v d = d\<lparr>live_use := blk_add (unat v) (live_use d)\<rparr>"

definition IRMETHOD_isVariableLiveIN :: "live_data \<Rightarrow> 64 word \<Rightarrow> bool" where
  "IRMETHOD_isVariableLiveIN d varID \<longleftrightarrow>
     live_in d ! trigger_of (unat varID) AND mask_of (unat varID) = mask_of (unat varID)"

definition IRMETHOD_isVariableLiveOUT :: "live_data \<Rightarrow> 64 word \<Rightarrow> bool" where
  "IRMETHOD_isVariableLiveOUT d varID \<longleftrightarrow>
     live_out d ! trigger_of (unat varID) AND mask_of (unat varID) = mask_of (unat varID)"

definition internal_getUses :: "ir_method \<Rightarrow> live_state \<Rightarrow> 64 word \<Rightarrow> nat list" where
  "internal_getUses m st varID =
     filter (\<lambda>instID. live_use (st ! instID) ! trigger_of (unat varID) AND mask_of (unat varID) =
       mask_of (unat varID)) [0..<ir_instr_count m]"

section \<open>The plugin\<close>

definition add_if_variable :: "ir_item \<Rightarrow> live_data \<Rightarrow> live_data" where
  "add_if_variable item d =
     (if item_type item = IROFFSET then liveness_use_add (val item) d else d)"

text \<open>One round of the second loop of \<open>init_def_use\<close>: the instructions after the parameters.\<close>

definition init_def_use_inst :: "nat \<Rightarrow> ir_instruction \<Rightarrow> live_data" where
  "init_def_use_inst blocksNumber inst =
    (let d0 = ir_instr_liveness_alloc blocksNumber;
         d1 = (case IRMETHOD_getIRItemOfVariableDefinedByInstruction inst of
                 None \<Rightarrow> d0 | Some res \<Rightarrow> d0\<lparr>live_def := val res\<rparr>);
         d2 = (if item_type (param_1 inst) = IROFFSET \<and> inst_type inst \<noteq> IRGETADDRESS
               then liveness_use_add (val (param_1 inst)) d1 else d1);
         d3 = (if ir_instr_pars_count_get inst = 3 then add_if_variable (param_3 inst) d2 else d2);
         d4 = (if ir_instr_pars_count_get inst \<in> {2, 3} then add_if_variable (param_2 inst) d3 else d3)
     in if IRMETHOD_isACallInstruction inst
        then fold add_if_variable (case callParameters inst of None \<Rightarrow> [] | Some l \<Rightarrow> l) d4
        else d4)"

text \<open>The first loop: instruction \<open>k\<close> defines the parameter \<open>k\<close>.\<close>

definition init_def_use_par :: "nat \<Rightarrow> nat \<Rightarrow> live_data" where
  "init_def_use_par blocksNumber instID = (ir_instr_liveness_alloc blocksNumber)\<lparr>live_def := word_of_nat instID\<rparr>"

definition live_blocks :: "ir_method \<Rightarrow> nat" where
  "live_blocks m = var_max m div 64 + 1"

definition init_def_use :: "ir_method \<Rightarrow> live_state" where
  "init_def_use m =
     fold (\<lambda>instID st. st[instID :=
             if instID < parametersNumber m then init_def_use_par (live_blocks m) instID
             else init_def_use_inst (live_blocks m) (ir_instr_get_by_pos m instID)])
       [0..<ir_instr_count m] (ir_method_liveness_alloc m (live_blocks m))"

text \<open>\<open>out[inst] |= in[succ]\<close>, the loop over the blocks.\<close>

definition join_out :: "nat \<Rightarrow> live_state \<Rightarrow> nat option \<Rightarrow> bool \<times> blocks \<Rightarrow> bool \<times> blocks" where
  "join_out livenessBlockNumbers st succ x =
     (case succ of
        None \<Rightarrow> x
      | Some j \<Rightarrow> blk_loop (\<lambda>count old. old OR live_in (st ! j) ! count) livenessBlockNumbers x)"

definition compute_in :: "nat \<Rightarrow> live_data \<Rightarrow> blocks \<Rightarrow> bool \<times> blocks \<Rightarrow> bool \<times> blocks" where
  "compute_in livenessBlockNumbers d out x =
     (if live_def d \<noteq> -1 then
        let trigger = trigger_of (unat (live_def d));
            out_def = out ! trigger AND (JITMAXNUINT - mask_of (unat (live_def d)))
        in blk_loop (\<lambda>count old. if count \<noteq> trigger then live_use d ! count OR out ! count
                                else live_use d ! count OR out_def) livenessBlockNumbers x
      else blk_loop (\<lambda>count old. live_use d ! count OR out ! count) livenessBlockNumbers x)"

text \<open>The body of the loop of \<open>compute_liveness_step\<close>; \<open>inst2\<close> and \<open>inst3\<close> are the first two successors.\<close>

definition liveness_visit :: "nat list list \<Rightarrow> nat \<Rightarrow> nat \<Rightarrow> bool \<times> live_state \<Rightarrow> bool \<times> live_state" where
  "liveness_visit succs livenessBlockNumbers instID = (\<lambda>(modified, st).
    (let d = st ! instID;
         inst2 = (case succs ! instID of [] \<Rightarrow> None | a # _ \<Rightarrow> Some a);
         inst3 = (case succs ! instID of a # b # _ \<Rightarrow> Some b | _ \<Rightarrow> None);
         (modified1, out1) = join_out livenessBlockNumbers st inst2 (modified, live_out d);
         (modified2, out2) = join_out livenessBlockNumbers st inst3 (modified1, out1);
         (modified3, in') = compute_in livenessBlockNumbers d out2 (modified2, live_in d)
     in (modified3, st[instID := d\<lparr>live_out := out2, live_in := in'\<rparr>])))"

definition compute_liveness_step :: "nat list list \<Rightarrow> nat \<Rightarrow> nat \<Rightarrow> live_state \<Rightarrow> bool \<times> live_state" where
  "compute_liveness_step succs livenessBlockNumbers instructionsNumber =
     flow_step (liveness_visit succs livenessBlockNumbers) (rev [0..<instructionsNumber])"

definition compute_the_liveness :: "nat list list \<Rightarrow> nat \<Rightarrow> nat \<Rightarrow> live_state \<Rightarrow> live_state option" where
  "compute_the_liveness succs livenessBlockNumbers instructionsNumber st =
     do_while (compute_liveness_step succs livenessBlockNumbers instructionsNumber) st"

text \<open>\<open>liveness_do_job\<close>: without variables the metadata stays as it is.\<close>

definition liveness_do_job :: "ir_method \<Rightarrow> live_state \<Rightarrow> live_state option" where
  "liveness_do_job m old =
     (if var_max m = 0 then Some old
      else case IRMETHOD_getInstructionsSuccessors m of
        None \<Rightarrow> None
      | Some succs \<Rightarrow>
          compute_the_liveness succs (live_blocks m) (ir_instr_count m) (init_def_use m))"

section \<open>What the sets of an instruction mean\<close>

definition live_uses :: "ir_instruction \<Rightarrow> nat set" where
  "live_uses inst = vars_of (call_items inst @
     (if ir_instr_pars_count_get inst \<in> {2, 3} then [param_2 inst] else []) @
     (if ir_instr_pars_count_get inst = 3 then [param_3 inst] else []) @
     (if inst_type inst \<noteq> IRGETADDRESS then [param_1 inst] else []))"

definition method_uses :: "ir_method \<Rightarrow> nat \<Rightarrow> nat set" where
  "method_uses m i =
     (if parametersNumber m \<le> i \<and> i < ir_instr_count m then live_uses (ir_instr_get_by_pos m i) else {})"

lemma blk_set_use_add:
  "unat v < 64 * length (live_use d) \<Longrightarrow>
   blk_set (live_use (liveness_use_add v d)) = insert (unat v) (blk_set (live_use d))"
  by (simp add: liveness_use_add_def blk_set_add trigger_of_less_iff)

lemma add_if_variable_simps [simp]:
  "length (live_use (add_if_variable item d)) = length (live_use d)"
  "live_def (add_if_variable item d) = live_def d"
  "live_in (add_if_variable item d) = live_in d"
  "live_out (add_if_variable item d) = live_out d"
  "length (live_use (liveness_use_add v d)) = length (live_use d)"
  "live_def (liveness_use_add v d) = live_def d"
  "live_in (liveness_use_add v d) = live_in d"
  "live_out (liveness_use_add v d) = live_out d"
  by (simp_all add: add_if_variable_def liveness_use_add_def)

lemma blk_set_add_if_variable:
  "vars_of [item] \<subseteq> {..<64 * length (live_use d)} \<Longrightarrow>
   blk_set (live_use (add_if_variable item d)) = vars_of [item] \<union> blk_set (live_use d)"
  by (simp add: add_if_variable_def blk_set_use_add split: if_splits)

lemma fold_add_if_variable:
  "length (live_use (fold add_if_variable items d)) = length (live_use d) \<and>
   live_def (fold add_if_variable items d) = live_def d \<and>
   live_in (fold add_if_variable items d) = live_in d \<and>
   live_out (fold add_if_variable items d) = live_out d"
  by (induction items arbitrary: d) auto

lemma blk_set_fold_add_if_variable:
  "vars_of items \<subseteq> {..<64 * length (live_use d)} \<Longrightarrow>
   blk_set (live_use (fold add_if_variable items d)) = vars_of items \<union> blk_set (live_use d)"
proof (induction items arbitrary: d)
  case (Cons item items)
  then show ?case using blk_set_add_if_variable [of item d] by auto
qed simp

lemma init_def_use_inst_fields:
  "length (live_use (init_def_use_inst B inst)) = B"
  "live_in (init_def_use_inst B inst) = replicate B 0"
  "live_out (init_def_use_inst B inst) = replicate B 0"
  "live_def (init_def_use_inst B inst) =
     (if item_type (result inst) = IROFFSET then val (result inst) else -1)"
  by (simp_all add: init_def_use_inst_def Let_def fold_add_if_variable ir_instr_liveness_alloc_def
      IRMETHOD_getIRItemOfVariableDefinedByInstruction_def)

lemma init_def_use_inst_use:
  assumes v: "vars_of (items_of inst) \<subseteq> {..<64 * B}"
  shows "blk_set (live_use (init_def_use_inst B inst)) = live_uses inst"
proof -
  let ?n = "ir_instr_pars_count_get inst"
  have p: "vars_of [param_1 inst] \<subseteq> {..<64 * B}" "vars_of [param_2 inst] \<subseteq> {..<64 * B}"
      "vars_of [param_3 inst] \<subseteq> {..<64 * B}"
    using v by (auto simp: items_of_def split: if_splits)
  have add: "blk_set (live_use (add_if_variable item d)) = vars_of [item] \<union> blk_set (live_use d)"
    if "vars_of [item] \<subseteq> {..<64 * B}" "length (live_use d) = B" for item d
    using that blk_set_add_if_variable by metis
  define d1 where "d1 = (case IRMETHOD_getIRItemOfVariableDefinedByInstruction inst of
      None \<Rightarrow> ir_instr_liveness_alloc B | Some res \<Rightarrow> (ir_instr_liveness_alloc B)\<lparr>live_def := val res\<rparr>)"
  have d1: "length (live_use d1) = B" "blk_set (live_use d1) = {}"
    by (simp_all add: d1_def ir_instr_liveness_alloc_def blk_set_replicate_0 split: option.split)
  define d2 where "d2 = (if inst_type inst \<noteq> IRGETADDRESS then add_if_variable (param_1 inst) d1 else d1)"
  have d2: "length (live_use d2) = B"
      "blk_set (live_use d2) = (if inst_type inst \<noteq> IRGETADDRESS then vars_of [param_1 inst] else {})"
    using add [OF p(1) d1(1)] d1 by (simp_all add: d2_def)
  define d3 where "d3 = (if ?n = 3 then add_if_variable (param_3 inst) d2 else d2)"
  have d3: "length (live_use d3) = B"
      "blk_set (live_use d3) = (if ?n = 3 then vars_of [param_3 inst] else {}) \<union> blk_set (live_use d2)"
    using add [OF p(3) d2(1)] d2(1) by (simp_all add: d3_def)
  define d4 where "d4 = (if ?n \<in> {2, 3} then add_if_variable (param_2 inst) d3 else d3)"
  have d4: "length (live_use d4) = B"
      "blk_set (live_use d4) = (if ?n \<in> {2, 3} then vars_of [param_2 inst] else {}) \<union> blk_set (live_use d3)"
    using add [OF p(2) d3(1)] d3(1) by (simp_all add: d4_def)
  have e: "init_def_use_inst B inst = fold add_if_variable (call_items inst) d4"
    by (simp add: init_def_use_inst_def Let_def d4_def d3_def d2_def d1_def add_if_variable_def call_items_def)
  have "vars_of (call_items inst) \<subseteq> {..<64 * length (live_use d4)}"
    using v d4(1) by (auto simp: call_items_def items_of_def split: option.splits if_splits)
  from blk_set_fold_add_if_variable [OF this] show ?thesis
    unfolding e live_uses_def d4(2) d3(2) d2(2) by simp
qed

section \<open>One visit of an instruction is the visit of the bit-set problem\<close>

definition kill_array :: "nat \<Rightarrow> live_data \<Rightarrow> blocks" where
  "kill_array B d = (if live_def d = -1 then replicate B 0 else blk_add (unat (live_def d)) (replicate B 0))"

definition live_abs :: "live_state \<Rightarrow> bf_state" where
  "live_abs st = map (\<lambda>d. (live_out d, live_in d)) st"

text \<open>What a visit does not change, and the lengths of the arrays.\<close>

definition live_ok :: "live_state \<Rightarrow> nat \<Rightarrow> live_state \<Rightarrow> bool" where
  "live_ok st0 B st \<longleftrightarrow> length st = length st0 \<and>
     (\<forall>i<length st. live_def (st ! i) = live_def (st0 ! i) \<and> live_use (st ! i) = live_use (st0 ! i) \<and>
        length (live_use (st ! i)) = B \<and> length (live_in (st ! i)) = B \<and> length (live_out (st ! i)) = B)"

lemma join_out_Some:
  "length a = B \<Longrightarrow> join_out B st (Some j) (md, a) = (md \<or> bf_or a (live_in (st ! j)) \<noteq> a, bf_or a (live_in (st ! j)))"
  by (simp add: join_out_def blk_loop_full bf_or_def)

lemma join_out_None [simp]: "join_out B st None x = x"
  by (simp add: join_out_def)

lemma compute_in_eq:
  assumes "length a = B" "length out = B" "length (live_use d) = B"
  shows "compute_in B d out (md, a) =
    (md \<or> bf_apply (live_use d) (kill_array B d) out \<noteq> a, bf_apply (live_use d) (kill_array B d) out)"
proof -
  have "map (\<lambda>c. if c \<noteq> trigger_of (unat (live_def d)) then live_use d ! c OR out ! c
        else live_use d ! c OR out ! trigger_of (unat (live_def d)) AND
          (JITMAXNUINT - mask_of (unat (live_def d)))) [0..<B] =
      bf_apply (live_use d) (kill_array B d) out" if "live_def d \<noteq> -1"
    using assms that by (auto simp: bf_apply_def kill_array_def blk_add_def nth_list_update JITMAXNUINT_minus)
  moreover have "map (\<lambda>c. live_use d ! c OR out ! c) [0..<B] = bf_apply (live_use d) (kill_array B d) out"
    if "live_def d = -1"
    using assms that by (auto simp: bf_apply_def kill_array_def)
  ultimately show ?thesis
    using assms by (simp add: compute_in_def Let_def blk_loop_full)
qed

lemma or_grows: "length b = length a \<Longrightarrow> bf_or (bf_or a b) c = a \<Longrightarrow> length c = length a \<Longrightarrow> bf_or a b = a"
proof -
  assume l: "length b = length a" "length c = length a" and e: "bf_or (bf_or a b) c = a"
  have "blk_set a = blk_set a \<union> blk_set b \<union> blk_set c"
    using blk_set_or [of c "bf_or a b"] blk_set_or [of b a] l e by simp
  then have "blk_set (bf_or a b) = blk_set a" using blk_set_or [of b a] l by auto
  then show ?thesis by (simp add: blk_set_eq_iff)
qed

lemma liveness_visit_eq:
  assumes ok: "live_ok st0 B st" and i: "i < length st" and n: "set (succs ! i) \<subseteq> {..<length st}"
  shows "liveness_visit succs B i (md, st) =
    (md \<or> bf_new (\<lambda>i. take 2 (succs ! i)) (\<lambda>i. live_use (st0 ! i)) (\<lambda>i. kill_array B (st0 ! i)) i (live_abs st)
        \<noteq> live_abs st ! i,
     st[i := (st ! i)
       \<lparr>live_out := fst (bf_new (\<lambda>i. take 2 (succs ! i)) (\<lambda>i. live_use (st0 ! i)) (\<lambda>i. kill_array B (st0 ! i)) i (live_abs st)),
        live_in := snd (bf_new (\<lambda>i. take 2 (succs ! i)) (\<lambda>i. live_use (st0 ! i)) (\<lambda>i. kill_array B (st0 ! i)) i (live_abs st))\<rparr>])"
proof -
  have len: "length (live_in (st ! i)) = B" "length (live_out (st ! i)) = B" "length (live_use (st ! i)) = B"
    and same: "live_use (st0 ! i) = live_use (st ! i)" "live_def (st0 ! i) = live_def (st ! i)"
    using ok i by (auto simp: live_ok_def)
  have k: "kill_array B (st0 ! i) = kill_array B (st ! i)" by (simp add: kill_array_def same)
  have ab: "live_abs st ! j = (live_out (st ! j), live_in (st ! j))" if "j < length st" for j
    using that by (simp add: live_abs_def)
  have lj: "length (live_in (st ! j)) = B" "snd (live_abs st ! j) = live_in (st ! j)" if "j \<in> set (succs ! i)" for j
    using that n ok ab [of j] by (auto simp: live_ok_def)
  note ci = compute_in_eq [OF len(1) _ len(3)]
  consider "succs ! i = []" | a where "succs ! i = [a]" | a b l where "succs ! i = a # b # l"
    by (metis list.exhaust)
  then show ?thesis
  proof cases
    case 1
    then show ?thesis
      using len ci [of "live_out (st ! i)"] ab [OF i]
      by (simp add: liveness_visit_def bf_new_def bf_join_def k same Let_def)
  next
    case 2
    then show ?thesis
      using len ci [of "bf_or (live_out (st ! i)) (live_in (st ! a))"] ab [OF i] lj [of a]
      by (simp add: liveness_visit_def bf_new_def bf_join_def k same join_out_Some Let_def)
  next
    case 3
    have "bf_or (bf_or (live_out (st ! i)) (live_in (st ! a))) (live_in (st ! b)) = live_out (st ! i) \<Longrightarrow>
        bf_or (live_out (st ! i)) (live_in (st ! a)) = live_out (st ! i)"
      using len lj [of a] lj [of b] 3 by (intro or_grows [of _ _ "live_in (st ! b)"]) simp_all
    then show ?thesis
      using 3 len ci [of "bf_or (bf_or (live_out (st ! i)) (live_in (st ! a))) (live_in (st ! b))"]
        ab [OF i] lj [of a] lj [of b]
      by (auto simp: liveness_visit_def bf_new_def bf_join_def k same join_out_Some Let_def)
  qed
qed

section \<open>The analysis as an instance of the bit-set problem\<close>

definition live_table :: "ir_method \<Rightarrow> nat list list" where
  "live_table m = map (successors m) [0..<ir_instr_count m + 1]"

lemma live_table_nth [simp]: "i \<le> ir_instr_count m \<Longrightarrow> live_table m ! i = successors m i"
  unfolding live_table_def by (rule nth_table)

lemma init_def_use_eq:
  "init_def_use m = map (\<lambda>instID.
       if instID < parametersNumber m then init_def_use_par (live_blocks m) instID
       else init_def_use_inst (live_blocks m) (ir_instr_get_by_pos m instID)) [0..<ir_instr_count m] @
     [ir_instr_liveness_alloc (live_blocks m)]"
  unfolding init_def_use_def
  by (subst fold_update_upt; simp add: ir_method_liveness_alloc_def del: replicate_Suc; simp)

lemma length_init_def_use [simp]: "length (init_def_use m) = ir_instr_count m + 1"
  by (simp add: init_def_use_eq)

lemma init_def_use_nth:
  "i < ir_instr_count m \<Longrightarrow> init_def_use m ! i =
     (if i < parametersNumber m then init_def_use_par (live_blocks m) i
      else init_def_use_inst (live_blocks m) (ir_instr_get_by_pos m i))"
  "init_def_use m ! ir_instr_count m = ir_instr_liveness_alloc (live_blocks m)"
  by (simp_all add: init_def_use_eq nth_append)

lemma init_arrays:
  assumes "i \<le> ir_instr_count m"
  shows "length (live_use (init_def_use m ! i)) = live_blocks m"
    "live_in (init_def_use m ! i) = replicate (live_blocks m) 0"
    "live_out (init_def_use m ! i) = replicate (live_blocks m) 0"
proof -
  have "i < ir_instr_count m \<or> i = ir_instr_count m" using assms by linarith
  then show "length (live_use (init_def_use m ! i)) = live_blocks m"
    "live_in (init_def_use m ! i) = replicate (live_blocks m) 0"
    "live_out (init_def_use m ! i) = replicate (live_blocks m) 0"
    by (auto simp: init_def_use_nth init_def_use_inst_fields init_def_use_par_def
        ir_instr_liveness_alloc_def)
qed

lemma init_ok: "live_ok (init_def_use m) (live_blocks m) (init_def_use m)"
  using init_arrays by (auto simp: live_ok_def less_Suc_eq_le)

lemma init_abs: "live_abs (init_def_use m) = bf_zero (ir_instr_count m + 1) (live_blocks m)"
  by (rule nth_equalityI) (auto simp: live_abs_def bf_zero_def init_arrays less_Suc_eq_le simp del: replicate_Suc)

interpretation live: bit_flow "\<lambda>i. take 2 (successors m i)" "\<lambda>i. live_use (init_def_use m ! i)"
  "\<lambda>i. kill_array (live_blocks m) (init_def_use m ! i)" "ir_instr_count m + 1" "live_blocks m"
  "{..<ir_instr_count m}" "liveness_visit (live_table m) (live_blocks m)" live_abs
  "live_ok (init_def_use m) (live_blocks m)"
  for m
proof
  fix i assume i: "i \<in> {..<ir_instr_count m}"
  then show "set (take 2 (successors m i)) \<subseteq> {..<ir_instr_count m + 1}"
    using successors_le [of i m] by (auto simp: less_Suc_eq_le dest!: in_set_takeD)
  show "length (live_use (init_def_use m ! i)) = live_blocks m"
    using i by (simp add: init_arrays)
  show "length (kill_array (live_blocks m) (init_def_use m ! i)) = live_blocks m"
    by (simp add: kill_array_def)
  fix md s assume ok: "live_ok (init_def_use m) (live_blocks m) s"
  then have len: "length s = ir_instr_count m + 1" by (simp add: live_ok_def)
  have l: "i < length s" and n: "set (live_table m ! i) \<subseteq> {..<length s}"
    using i successors_le [of i m] by (auto simp: len less_Suc_eq_le)
  note v = liveness_visit_eq [OF ok l n, of md]
  have e: "bf_new (\<lambda>i. take 2 (live_table m ! i)) g k i st = bf_new (\<lambda>i. take 2 (successors m i)) g k i st"
    for g k st using i by (simp add: bf_new_def)
  have new: "length (fst (bf_new (\<lambda>i. take 2 (live_table m ! i)) g k i (live_abs s))) = live_blocks m"
    "length (snd (bf_new (\<lambda>i. take 2 (live_table m ! i)) g k i (live_abs s))) = live_blocks m" for g k
    using ok l by (simp_all add: bf_new_def Let_def live_abs_def live_ok_def)
  show "live_ok (init_def_use m) (live_blocks m) (snd (liveness_visit (live_table m) (live_blocks m) i (md, s)))"
    using ok l new unfolding v live_ok_def by (auto simp: nth_list_update)
  show "bf_visit (\<lambda>i. take 2 (successors m i)) (\<lambda>i. live_use (init_def_use m ! i))
      (\<lambda>i. kill_array (live_blocks m) (init_def_use m ! i)) i (md, live_abs s) =
     (fst (liveness_visit (live_table m) (live_blocks m) i (md, s)),
      live_abs (snd (liveness_visit (live_table m) (live_blocks m) i (md, s))))"
    by (simp add: v e bf_visit_def live_abs_def map_update)
qed auto

section \<open>Properties\<close>

text \<open>The edges the analysis follows: the first two successors.\<close>

definition live_edges :: "ir_method \<Rightarrow> nat \<Rightarrow> nat set" where
  "live_edges m i = (if i < ir_instr_count m then set (take 2 (successors m i)) else {})"

lemma instruction_variables:
  assumes "variables_ok m" "i < ir_instr_count m"
  shows "vars_of (items_of (ir_instr_get_by_pos m i)) \<subseteq> {..<64 * live_blocks m}"
proof -
  have "vars_of (items_of (ir_instr_get_by_pos m i)) \<subseteq> {..<var_max m}"
    using assms by (simp add: variables_ok_def all_instructions)
  also have "\<dots> \<subseteq> {..<64 * live_blocks m}" by (auto simp: live_blocks_def)
  finally show ?thesis .
qed

lemma live_edges_eq: "live.edges m = live_edges m"
  by (simp add: fun_eq_iff live.edges_def live_edges_def)

lemma live_gens_eq: "variables_ok m \<Longrightarrow> live.gens m = method_uses m"
  using instruction_variables [of m] init_def_use_inst_use [of _ "live_blocks m"]
  by (auto simp: fun_eq_iff live.gens_def method_uses_def init_def_use_nth init_def_use_par_def
      ir_instr_liveness_alloc_def blk_set_replicate_0)

lemma blk_set_kill_array:
  "(live_def d \<noteq> -1 \<Longrightarrow> unat (live_def d) < 64 * B) \<Longrightarrow>
   blk_set (kill_array B d) = (if live_def d = -1 then {} else {unat (live_def d)})"
  by (simp add: kill_array_def blk_set_add blk_set_replicate_0 trigger_of_less_iff)

lemma live_kills_eq:
  assumes v: "variables_ok m"
  shows "live.kills m = method_defines m"
proof
  fix i
  let ?d = "init_def_use m ! i" and ?r = "result (ir_instr_get_by_pos m i)"
  have b: "var_max m < 2 ^ 32" "parametersNumber m \<le> var_max m" "parametersNumber m \<le> ir_instr_count m"
    using v by (simp_all add: variables_ok_def)
  have B: "64 * live_blocks m \<le> var_max m + 64" "var_max m < 64 * live_blocks m"
    by (auto simp: live_blocks_def)
  have r: "unat (val ?r) < 64 * live_blocks m" if "i < ir_instr_count m" "item_type ?r = IROFFSET"
    using instruction_variables [OF v that(1)] that(2) by (auto simp: items_of_def split: if_splits)
  have u: "unat (word_of_nat i :: 64 word) = i" if "i < parametersNumber m"
    using that b by (simp add: unat_of_nat take_bit_nat_eq_self)
  have d: "blk_set (kill_array (live_blocks m) ?d) = method_defines m i" if i: "i < ir_instr_count m"
  proof (cases "i < parametersNumber m")
    case True
    then have "live_def ?d = word_of_nat i" using i by (simp add: init_def_use_nth init_def_use_par_def)
    with u True b B show ?thesis
      using small_not_minus_one [of "word_of_nat i"] blk_set_kill_array [of ?d "live_blocks m"]
      by (simp add: method_defines_def)
  next
    case False
    then have "live_def ?d = (if item_type ?r = IROFFSET then val ?r else -1)"
      using i by (simp add: init_def_use_nth init_def_use_inst_fields)
    with False r i b B show ?thesis
      using small_not_minus_one [of "val ?r"] blk_set_kill_array [of ?d "live_blocks m"]
      by (auto simp: method_defines_def defined_vars_def)
  qed
  show "live.kills m i = method_defines m i"
    using d b by (auto simp: live.kills_def method_defines_def)
qed

lemma isVariableLiveIN_iff:
  "unat v < 64 * length (live_in d) \<Longrightarrow> IRMETHOD_isVariableLiveIN d v \<longleftrightarrow> unat v \<in> blk_set (live_in d)"
  by (simp add: IRMETHOD_isVariableLiveIN_def and_mask_of_eq mem_blk_set trigger_of_less_iff)

lemma isVariableLiveOUT_iff:
  "unat v < 64 * length (live_out d) \<Longrightarrow> IRMETHOD_isVariableLiveOUT d v \<longleftrightarrow> unat v \<in> blk_set (live_out d)"
  by (simp add: IRMETHOD_isVariableLiveOUT_def and_mask_of_eq mem_blk_set trigger_of_less_iff)

lemma liveness_result:
  assumes v: "variables_ok m" and m: "0 < var_max m"
  shows "\<exists>st. liveness_do_job m old = Some st \<and> live_ok (init_def_use m) (live_blocks m) st \<and>
    (\<forall>i<ir_instr_count m. \<forall>v. unat v < var_max m \<longrightarrow>
       (IRMETHOD_isVariableLiveIN (st ! i) v \<longleftrightarrow>
          flows (live_edges m) (method_uses m) (method_defines m) i (unat v)) \<and>
       (IRMETHOD_isVariableLiveOUT (st ! i) v \<longleftrightarrow>
          arrives (live_edges m) (method_uses m) (method_defines m) i (unat v)))"
proof -
  have o: "set (rev [0..<ir_instr_count m]) = {..<ir_instr_count m}" by auto
  obtain st where st: "do_while (flow_step (liveness_visit (live_table m) (live_blocks m))
        (rev [0..<ir_instr_count m])) (init_def_use m) = Some st"
      "live_ok (init_def_use m) (live_blocks m) st" "live.solves m (live_abs st)"
    using live.analysis_loop [OF init_ok init_abs o] by blast
  have job: "liveness_do_job m old = Some st"
    using st(1) m by (simp add: liveness_do_job_def compute_the_liveness_def compute_liveness_step_def
        getInstructionsSuccessors_eq live_table_def del: upt_Suc)
  have len: "length st = ir_instr_count m + 1" using st(2) by (simp add: live_ok_def)
  have "(IRMETHOD_isVariableLiveIN (st ! i) v \<longleftrightarrow>
        flows (live_edges m) (method_uses m) (method_defines m) i (unat v)) \<and>
      (IRMETHOD_isVariableLiveOUT (st ! i) v \<longleftrightarrow>
        arrives (live_edges m) (method_uses m) (method_defines m) i (unat v))"
    if i: "i < ir_instr_count m" and u: "unat v < var_max m" for i v
  proof -
    have "live_abs st ! i = (live_out (st ! i), live_in (st ! i))" using i len by (simp add: live_abs_def)
    then have "blk_set (live_in (st ! i)) = {x. flows (live_edges m) (method_uses m) (method_defines m) i x}"
      "blk_set (live_out (st ! i)) = {x. arrives (live_edges m) (method_uses m) (method_defines m) i x}"
      using live.solvesD [OF st(3), of i] i by (simp_all add: live_edges_eq live_gens_eq [OF v] live_kills_eq [OF v])
    moreover have "unat v < 64 * live_blocks m" using u by (simp add: live_blocks_def)
    ultimately show ?thesis
      using st(2) i len by (simp add: live_ok_def isVariableLiveIN_iff isVariableLiveOUT_iff)
  qed
  with job st(2) show ?thesis by blast
qed

text \<open>
  C2: The liveness plugin ends, and afterwards a variable is live at an instruction exactly when some path
  over the first two successors of each instruction leads from it to an instruction that uses the variable,
  with no definition of the variable before that use.
\<close>

theorem liveness_correct:
  assumes "variables_ok m" and "0 < var_max m"
  shows "\<exists>st. liveness_do_job m old = Some st \<and>
    (\<forall>i<ir_instr_count m. \<forall>v. unat v < var_max m \<longrightarrow>
       (IRMETHOD_isVariableLiveIN (st ! i) v \<longleftrightarrow>
          (\<exists>p. flow_path (live_edges m) (method_uses m) (method_defines m) (i # p) (unat v))) \<and>
       (IRMETHOD_isVariableLiveOUT (st ! i) v \<longleftrightarrow>
          (\<exists>j p. j \<in> live_edges m i \<and>
             flow_path (live_edges m) (method_uses m) (method_defines m) (j # p) (unat v))))"
  using liveness_result [OF assms] by (fastforce simp: flows_iff_path arrives_def)

text \<open>In the example the variable 1 is live into the loop: the path 2, 3, 4 ends in the addition that reads it.\<close>

theorem liveness_correct_witness:
  "\<exists>st. liveness_do_job demo [] = Some st \<and> IRMETHOD_isVariableLiveIN (st ! 2) 1"
proof -
  have "flow_path (live_edges demo) (method_uses demo) (method_defines demo) [2, 3, 4] 1"
    by (simp add: live_edges_def method_uses_def method_defines_def defined_vars_def live_uses_def
        call_items_def IRMETHOD_isACallInstruction_def successors_def
        mayInstructionOfTypeThrowException_def ir_instr_pars_count_get_def demo_simps
        ir_instr_label_get_def ir_instr_label_like_get_def upt_rec)
  then have path: "\<exists>p. flow_path (live_edges demo) (method_uses demo) (method_defines demo) (2 # p) (unat (1 :: 64 word))"
    by (intro exI [of _ "[3, 4]"]) simp
  have m: "0 < var_max demo" "unat (1 :: 64 word) < var_max demo" by (simp_all add: demo_simps)
  obtain st where st: "liveness_do_job demo [] = Some st"
    and live: "\<forall>i<ir_instr_count demo. \<forall>v. unat v < var_max demo \<longrightarrow> (IRMETHOD_isVariableLiveIN (st ! i) v \<longleftrightarrow>
      (\<exists>p. flow_path (live_edges demo) (method_uses demo) (method_defines demo) (i # p) (unat v)))"
    using liveness_correct [OF demo_variables m(1), of "[]"] by blast
  have "IRMETHOD_isVariableLiveIN (st ! 2) 1"
    using live [rule_format, of 2 1] m(2) path by simp
  with st show ?thesis by blast
qed

text \<open>
  Unless the method has an \<open>IRENDFINALLY\<close>, no instruction has more than two successors, so
  the edges the liveness plugin follows are all the edges of the control flow graph.
\<close>

lemma live_edges_all:
  assumes "i < ir_instr_count m" and "type_at m i \<noteq> IRENDFINALLY"
  shows "live_edges m i = set (successors m i)"
proof -
  have "length (successors m i) \<le> 2"
    using assms(2) unfolding successors_def Let_def
    by (auto simp: option_list_def split: option.split)
  with assms(1) show ?thesis by (simp add: live_edges_def)
qed

lemma live_use_set:
  assumes v: "variables_ok m" and m: "0 < var_max m" and st: "liveness_do_job m old = Some st" and i: "i < ir_instr_count m"
  shows "blk_set (live_use (st ! i)) = method_uses m i" "length (live_use (st ! i)) = live_blocks m"
proof -
  have "live_ok (init_def_use m) (live_blocks m) st" using liveness_result [OF v m, of old] st by auto
  then have e: "live_use (st ! i) = live_use (init_def_use m ! i)" using i by (simp add: live_ok_def)
  show "blk_set (live_use (st ! i)) = method_uses m i"
    using fun_cong [OF live_gens_eq [OF v], of i] i e by (simp add: live.gens_def)
  show "length (live_use (st ! i)) = live_blocks m" using e i by (simp add: init_arrays)
qed

text \<open>
  \<open>internal_getUses\<close> lists exactly the instructions that read the variable, of those after the
  parameters' dummy instructions; taking the address of a variable does not count as reading it.
\<close>

theorem getUses_correct:
  assumes "variables_ok m" and "0 < var_max m" and "unat v < var_max m"
    and "liveness_do_job m old = Some st"
  shows "set (internal_getUses m st v) = {i. i < ir_instr_count m \<and> unat v \<in> method_uses m i}"
proof -
  have "live_use (st ! i) ! trigger_of (unat v) AND mask_of (unat v) = mask_of (unat v) \<longleftrightarrow>
      unat v \<in> method_uses m i" if i: "i < ir_instr_count m" for i
  proof -
    have "unat v < 64 * live_blocks m" using assms(3) by (simp add: live_blocks_def)
    with live_use_set [OF assms(1,2,4) i] show ?thesis
      by (metis and_mask_of_eq mem_blk_set trigger_of_less_iff)
  qed
  then show ?thesis by (auto simp: internal_getUses_def)
qed

theorem getUses_correct_witness:
  "\<exists>st. liveness_do_job demo [] = Some st \<and> 4 \<in> set (internal_getUses demo st 1)"
proof -
  have m: "0 < var_max demo" "unat (1 :: 64 word) < var_max demo" by (simp_all add: demo_simps)
  obtain st where st: "liveness_do_job demo [] = Some st"
    using liveness_result [OF demo_variables m(1)] by blast
  have "1 \<in> method_uses demo 4"
    by (simp add: method_uses_def live_uses_def call_items_def IRMETHOD_isACallInstruction_def
        ir_instr_pars_count_get_def demo_simps)
  with getUses_correct [OF demo_variables m st] st show ?thesis by auto
qed

text \<open>Three calls of one \<open>finally\<close> block; the variable 0 is returned after the third.\<close>

definition finally_demo :: ir_method where
  "finally_demo = mk_method 1 1
    [mk_inst IRNOP nopar_item nopar_item nopar_item,
     mk_inst IRCALLFINALLY nopar_item (label_item 1) nopar_item,
     mk_inst IRNOP nopar_item nopar_item nopar_item,
     mk_inst IRCALLFINALLY nopar_item (label_item 1) nopar_item,
     mk_inst IRNOP nopar_item nopar_item nopar_item,
     mk_inst IRCALLFINALLY nopar_item (label_item 1) nopar_item,
     mk_inst IRRET nopar_item (var_item 0) nopar_item,
     mk_inst IRSTARTFINALLY nopar_item (label_item 1) nopar_item,
     mk_inst IRENDFINALLY nopar_item (label_item 1) nopar_item]"

lemmas finally_simps = finally_demo_def demo_simps

lemma finally_count: "ir_instr_count finally_demo = 9"
  by (simp add: finally_simps)

text \<open>
  C32: The end of a \<open>finally\<close> block that is called from three places has three successors, but liveness
  follows two of them: the variable that is read after the third call is not live at the end of the block.
\<close>

theorem liveness_misses_third_return:
  "\<exists>st. successors finally_demo 8 = [2, 4, 6] \<and> liveness_do_job finally_demo [] = Some st \<and>
    IRMETHOD_isVariableLiveIN (st ! 6) 0 \<and> \<not> IRMETHOD_isVariableLiveOUT (st ! 8) 0"
proof -
  let ?m = finally_demo
  have s: "successors ?m 8 = [2, 4, 6]"
    by (simp add: successors_def finally_simps ir_instr_call_finally_get_def ir_instr_label_like_get_def
        call_finally_returns.simps next_call_finally_def upt_rec)
  have v: "variables_ok ?m" and m: "0 < var_max ?m" "unat (0 :: 64 word) < var_max ?m"
    by (simp_all add: variables_ok_def finally_simps items_of_def)
  have six: "6 \<notin> live_edges ?m i" for i
  proof -
    have "i \<in> {0, 1, 2, 3, 4, 5, 6, 7, 8} \<or> \<not> i < 9" by auto
    then show ?thesis
      by (elim disjE insertE emptyE)
        (simp_all add: live_edges_def s finally_count, simp_all add: successors_def finally_simps
          ir_instr_finally_get_def ir_instr_label_like_get_def upt_rec mayInstructionOfTypeThrowException_def)
  qed
  have uses: "method_uses ?m i = (if i = 6 then {0} else {})" for i
  proof -
    have "i \<in> {0, 1, 2, 3, 4, 5, 6, 7, 8} \<or> \<not> i < 9" by auto
    then show ?thesis
      by (elim disjE insertE emptyE)
        (simp_all add: method_uses_def live_uses_def call_items_def IRMETHOD_isACallInstruction_def
          ir_instr_pars_count_get_def finally_simps)
  qed
  have only: "i = 6" if "flows (live_edges ?m) (method_uses ?m) (method_defines ?m) i x" for i x
    using that by induction (use six in \<open>auto simp: uses split: if_splits\<close>)
  have "flows (live_edges ?m) (method_uses ?m) (method_defines ?m) 6 0"
    by (rule flows_gen) (simp add: uses)
  moreover have "\<not> arrives (live_edges ?m) (method_uses ?m) (method_defines ?m) 8 0"
    using only six by (auto simp: arrives_def)
  ultimately show ?thesis
    using liveness_result [OF v m(1), of "[]"] m(2) s by (fastforce simp: finally_count)
qed

end
