(* ===== verification/ReachDefs.thy ===== *)
theory ReachDefs
  imports FlowGraph BitFlow
begin

text \<open>
  Reaching definitions: the plugin
  \<open>optimizer-reachingdefinitions/src/reaching_definitions.c\<close> on the arrays that
  \<open>libirmanager/src/ir_method.c\<close> keeps in the metadata of the instructions \<open>0 .. n - 1\<close> (the exit node
  has none). A definition is the position of the instruction that makes it; the first instructions are
  dummies that define the parameters.
\<close>

section \<open>The metadata\<close>

record rd_data =
  rd_gen :: blocks
  rd_kill :: blocks
  rd_in :: blocks
  rd_out :: blocks

type_synonym rd_state = "rd_data list"

definition internal_ir_instr_reaching_definitions_alloc :: "nat \<Rightarrow> rd_data" where
  "internal_ir_instr_reaching_definitions_alloc blocksNumber =
     \<lparr>rd_gen = replicate blocksNumber 0, rd_kill = replicate blocksNumber 0,
      rd_in = replicate blocksNumber 0, rd_out = replicate blocksNumber 0\<rparr>"

definition ir_method_reaching_definitions_alloc :: "ir_method \<Rightarrow> nat \<Rightarrow> rd_state" where
  "ir_method_reaching_definitions_alloc m blocksNumber =
     replicate (ir_instr_count m) (internal_ir_instr_reaching_definitions_alloc blocksNumber)"

definition ir_instr_reaching_definitions_reached_out_is :: "rd_data \<Rightarrow> nat \<Rightarrow> bool" where
  "ir_instr_reaching_definitions_reached_out_is d definitionID \<longleftrightarrow>
     rd_out d ! trigger_of definitionID AND mask_of definitionID = mask_of definitionID"

definition ir_instr_reaching_definitions_reached_in_is :: "rd_data \<Rightarrow> nat \<Rightarrow> bool" where
  "ir_instr_reaching_definitions_reached_in_is d definitionID \<longleftrightarrow>
     rd_in d ! trigger_of definitionID AND mask_of definitionID = mask_of definitionID"

section \<open>The definitions of every variable\<close>

text \<open>\<open>definitions\<close>: for every variable the list of the instructions that define it, in order.\<close>

type_synonym definitions = "nat list list"

definition initDefs :: "nat \<Rightarrow> definitions" where
  "initDefs numberOfVariables = replicate numberOfVariables []"

definition addToDefs :: "nat \<Rightarrow> nat \<Rightarrow> definitions \<Rightarrow> definitions" where
  "addToDefs variableSetted instructionID defs =
     defs[variableSetted := defs ! variableSetted @ [instructionID]]"

definition collect_defs :: "ir_method \<Rightarrow> definitions" where
  "collect_defs m =
    (let defs1 = fold (\<lambda>count. addToDefs count count) [0..<parametersNumber m] (initDefs (var_max m))
     in fold (\<lambda>instID defs.
          let varDefined = IRMETHOD_getVariableDefinedByInstruction (ir_instr_get_by_pos m instID)
          in if varDefined \<noteq> NOPARAM_VALUE then addToDefs (unat varDefined) instID defs else defs)
        [parametersNumber m..<ir_instr_count m] defs1)"

text \<open>
  \<open>internal_getDefinitions\<close> of \<open>ir_method.c\<close>, with its own scan; \<open>xanList_insert\<close> puts the new element first.
\<close>

definition internal_getDefinitions :: "ir_method \<Rightarrow> 64 word \<Rightarrow> nat list" where
  "internal_getDefinitions m varID =
    (let l = fold (\<lambda>instID l.
           if IRMETHOD_getVariableDefinedByInstruction (ir_instr_get_by_pos m instID) = varID
           then instID # l else l) [parametersNumber m..<ir_instr_count m] []
     in if unat varID < parametersNumber m \<and> unat varID \<notin> set l then unat varID # l else l)"

section \<open>GEN and KILL\<close>

definition rd_init_par :: "nat \<Rightarrow> nat \<Rightarrow> rd_data" where
  "rd_init_par blocksNumber count =
    (let d = internal_ir_instr_reaching_definitions_alloc blocksNumber
     in d\<lparr>rd_gen := blk_add count (rd_gen d)\<rparr>)"

definition rd_init_inst :: "nat \<Rightarrow> definitions \<Rightarrow> nat \<Rightarrow> ir_instruction \<Rightarrow> rd_data" where
  "rd_init_inst blocksNumber defs instID inst =
    (let d = internal_ir_instr_reaching_definitions_alloc blocksNumber;
         varDefined = IRMETHOD_getVariableDefinedByInstruction inst
     in if varDefined \<noteq> NOPARAM_VALUE then
          d\<lparr>rd_gen := blk_add instID (rd_gen d),
            rd_kill := fold (\<lambda>k kill. if k \<noteq> instID then blk_add k kill else kill)
              (defs ! unat varDefined) (rd_kill d)\<rparr>
        else d)"

definition rd_blocks :: "ir_method \<Rightarrow> nat" where
  "rd_blocks m = (ir_instr_count m + parametersNumber m) div 64 + 1"

text \<open>With no instruction and no parameter there is nothing to allocate, and the list of metadata is empty.\<close>

definition init_gen_kill :: "ir_method \<Rightarrow> rd_state" where
  "init_gen_kill m =
     fold (\<lambda>instID st. st[instID :=
             if instID < parametersNumber m then rd_init_par (rd_blocks m) instID
             else rd_init_inst (rd_blocks m) (collect_defs m) instID (ir_instr_get_by_pos m instID)])
       [0..<ir_instr_count m] (ir_method_reaching_definitions_alloc m (rd_blocks m))"

section \<open>The iteration\<close>

definition rd_visit :: "nat list list \<Rightarrow> nat \<Rightarrow> nat \<Rightarrow> bool \<times> rd_state \<Rightarrow> bool \<times> rd_state" where
  "rd_visit preds blocksNumber instID = (\<lambda>(modified, st).
    (let d = st ! instID;
         (modified1, in') =
           fold (\<lambda>inst2. blk_loop (\<lambda>count old. old OR rd_out (st ! inst2) ! count) blocksNumber)
             (preds ! instID) (modified, rd_in d);
         (modified2, out') =
           blk_loop (\<lambda>count old. rd_gen d ! count OR (in' ! count AND (JITMAXNUINT - rd_kill d ! count)))
             blocksNumber (modified1, rd_out d)
     in (modified2, st[instID := d\<lparr>rd_in := in', rd_out := out'\<rparr>])))"

definition compute_reaching_definitions_step ::
  "nat list list \<Rightarrow> nat \<Rightarrow> nat \<Rightarrow> rd_state \<Rightarrow> bool \<times> rd_state" where
  "compute_reaching_definitions_step preds instructionsNumber blocksNumber =
     flow_step (rd_visit preds blocksNumber) [0..<instructionsNumber]"

definition compute_reaching_definitions :: "ir_method \<Rightarrow> rd_state \<Rightarrow> rd_state option" where
  "compute_reaching_definitions m st =
     (if ir_instr_count m = 0 then Some st
      else case IRMETHOD_getInstructionsPredecessors m of
        None \<Rightarrow> None
      | Some preds \<Rightarrow>
          do_while (compute_reaching_definitions_step preds (ir_instr_count m) (rd_blocks m)) st)"

definition reaching_definitions_do_job :: "ir_method \<Rightarrow> rd_state option" where
  "reaching_definitions_do_job m = compute_reaching_definitions m (init_gen_kill m)"

section \<open>The lists of definitions\<close>

lemma length_addToDefs [simp]: "length (addToDefs v i defs) = length defs"
  by (simp add: addToDefs_def)

lemma set_addToDefs:
  "v < length defs \<Longrightarrow> set (addToDefs v i defs ! u) = (if u = v then {i} else {}) \<union> set (defs ! u)"
  by (auto simp: addToDefs_def nth_list_update)

lemma fold_addToDefs:
  assumes "\<And>i. i \<in> set ids \<Longrightarrow> V i \<subseteq> {..<length defs}"
    and "\<And>i. i \<in> set ids \<Longrightarrow> V i = {} \<and> (\<forall>defs. f i defs = defs) \<or>
      (\<exists>v. V i = {v} \<and> (\<forall>defs. f i defs = addToDefs v i defs))"
  shows "length (fold f ids defs) = length defs \<and>
    (\<forall>u. set (fold f ids defs ! u) = {i \<in> set ids. u \<in> V i} \<union> set (defs ! u))"
  using assms
proof (induction ids arbitrary: defs)
  case (Cons i ids)
  from Cons.prems(2) [of i] consider "V i = {}" "\<forall>defs. f i defs = defs"
    | v where "V i = {v}" "\<forall>defs. f i defs = addToDefs v i defs" by auto
  then show ?case
  proof cases
    case 1
    then show ?thesis using Cons by auto
  next
    case 2
    have v: "v < length defs" using Cons.prems(1) [of i] 2(1) by auto
    have "length (fold f ids (addToDefs v i defs)) = length (addToDefs v i defs) \<and>
        (\<forall>u. set (fold f ids (addToDefs v i defs) ! u) =
          {i \<in> set ids. u \<in> V i} \<union> set (addToDefs v i defs ! u))"
      by (rule Cons.IH) (use Cons.prems in auto)
    then show ?thesis using 2 v by (auto simp: set_addToDefs)
  qed
qed simp

lemma defined_vars_value:
  assumes "defined_vars inst \<subseteq> {..<2 ^ 33}"
  shows "defined_vars inst = (let v = IRMETHOD_getVariableDefinedByInstruction inst
    in if v \<noteq> NOPARAM_VALUE then {unat v} else {})"
  using assms small_not_minus_one [of "val (result inst)"]
  by (auto simp: defined_vars_def IRMETHOD_getVariableDefinedByInstruction_def Let_def)

lemma defined_vars_bound:
  assumes "variables_ok m" "i < ir_instr_count m" "parametersNumber m \<le> i"
  shows "defined_vars (ir_instr_get_by_pos m i) \<subseteq> {..<var_max m}"
    "defined_vars (ir_instr_get_by_pos m i) \<subseteq> {..<2 ^ 33}"
proof -
  show "defined_vars (ir_instr_get_by_pos m i) \<subseteq> {..<var_max m}"
    using defined_vars_less [OF assms(1,2)] assms(2,3) by (simp add: method_defines_def)
  then show "defined_vars (ir_instr_get_by_pos m i) \<subseteq> {..<2 ^ 33}"
    using assms(1) by (auto simp: variables_ok_def)
qed

lemma collect_defs_eq:
  assumes v: "variables_ok m"
  shows "length (collect_defs m) = var_max m \<and>
    (\<forall>u<var_max m. set (collect_defs m ! u) = {i. i < ir_instr_count m \<and> u \<in> method_defines m i})"
proof -
  let ?f = "\<lambda>instID defs. let varDefined = IRMETHOD_getVariableDefinedByInstruction (ir_instr_get_by_pos m instID)
          in if varDefined \<noteq> NOPARAM_VALUE then addToDefs (unat varDefined) instID defs else defs"
  let ?d1 = "fold (\<lambda>count. addToDefs count count) [0..<parametersNumber m] (initDefs (var_max m))"
  have p: "parametersNumber m \<le> var_max m" "parametersNumber m \<le> ir_instr_count m"
    using v by (simp_all add: variables_ok_def)
  have 1: "length ?d1 = var_max m \<and>
      (\<forall>u. set (?d1 ! u) = {i \<in> {0..<parametersNumber m}. u \<in> {i}} \<union> set (initDefs (var_max m) ! u))"
    using fold_addToDefs [where f = "\<lambda>count. addToDefs count count" and V = "\<lambda>i. {i}"
      and ids = "[0..<parametersNumber m]" and defs = "initDefs (var_max m)"] p
    by (auto simp: initDefs_def)
  have 2: "length (fold ?f [parametersNumber m..<ir_instr_count m] ?d1) = length ?d1 \<and>
      (\<forall>u. set (fold ?f [parametersNumber m..<ir_instr_count m] ?d1 ! u) =
        {i \<in> set [parametersNumber m..<ir_instr_count m]. u \<in> defined_vars (ir_instr_get_by_pos m i)} \<union>
        set (?d1 ! u))"
  proof (rule fold_addToDefs)
    fix i assume "i \<in> set [parametersNumber m..<ir_instr_count m]"
    then have i: "i < ir_instr_count m" "parametersNumber m \<le> i" by auto
    show "defined_vars (ir_instr_get_by_pos m i) \<subseteq> {..<length ?d1}"
      using defined_vars_bound(1) [OF v i] 1 by simp
    show "defined_vars (ir_instr_get_by_pos m i) = {} \<and> (\<forall>defs. ?f i defs = defs) \<or>
        (\<exists>v. defined_vars (ir_instr_get_by_pos m i) = {v} \<and> (\<forall>defs. ?f i defs = addToDefs v i defs))"
      unfolding defined_vars_value [OF defined_vars_bound(2) [OF v i]] by (simp add: Let_def)
  qed
  show ?thesis
    using 1 2 p by (auto simp: collect_defs_def initDefs_def method_defines_def Let_def)
qed

section \<open>The sets of an instruction\<close>

definition rd_gens :: "ir_method \<Rightarrow> nat \<Rightarrow> nat set" where
  "rd_gens m i = (if i < ir_instr_count m \<and> method_defines m i \<noteq> {} then {i} else {})"

text \<open>An instruction kills the other definitions of the variable it defines; the dummies kill nothing.\<close>

definition rd_kills :: "ir_method \<Rightarrow> nat \<Rightarrow> nat set" where
  "rd_kills m i =
     (if parametersNumber m \<le> i \<and> i < ir_instr_count m
      then {d. d < ir_instr_count m \<and> d \<noteq> i \<and> method_defines m d \<inter> method_defines m i \<noteq> {}} else {})"

lemma fold_kill:
  assumes "\<forall>k\<in>set ks. k < 64 * length kill"
  shows "length (fold (\<lambda>k kill. if k \<noteq> i then blk_add k kill else kill) ks kill) = length kill \<and>
    blk_set (fold (\<lambda>k kill. if k \<noteq> i then blk_add k kill else kill) ks kill) =
      {k \<in> set ks. k \<noteq> i} \<union> blk_set kill"
  using assms
proof (induction ks arbitrary: kill)
  case (Cons k ks)
  then show ?case by (auto simp: blk_set_add trigger_of_less_iff)
qed simp

lemma init_gen_kill_eq:
  "init_gen_kill m = map (\<lambda>instID.
       if instID < parametersNumber m then rd_init_par (rd_blocks m) instID
       else rd_init_inst (rd_blocks m) (collect_defs m) instID (ir_instr_get_by_pos m instID))
     [0..<ir_instr_count m]"
  unfolding init_gen_kill_def
  by (subst fold_update_upt) (simp_all add: ir_method_reaching_definitions_alloc_def)

lemma length_init_gen_kill [simp]: "length (init_gen_kill m) = ir_instr_count m"
  by (simp add: init_gen_kill_eq)

lemma length_fold_kill:
  "length (fold (\<lambda>k kill. if k \<noteq> i then blk_add k kill else kill) ks kill) = length kill"
  by (induction ks arbitrary: kill) auto

lemma rd_init_lengths:
  assumes "i < ir_instr_count m"
  shows "length (rd_gen (init_gen_kill m ! i)) = rd_blocks m"
    "length (rd_kill (init_gen_kill m ! i)) = rd_blocks m"
    "rd_in (init_gen_kill m ! i) = replicate (rd_blocks m) 0"
    "rd_out (init_gen_kill m ! i) = replicate (rd_blocks m) 0"
  using assms
  by (simp_all add: init_gen_kill_eq rd_init_par_def rd_init_inst_def Let_def length_fold_kill
      internal_ir_instr_reaching_definitions_alloc_def)

lemma rd_init_gen:
  assumes v: "variables_ok m" and i: "i < ir_instr_count m"
  shows "blk_set (rd_gen (init_gen_kill m ! i)) = rd_gens m i"
proof -
  have t: "trigger_of i < rd_blocks m" using i by (simp add: trigger_of_less_iff rd_blocks_def)
  show ?thesis
  proof (cases "i < parametersNumber m")
    case True
    then show ?thesis
      using i t by (simp add: init_gen_kill_eq rd_init_par_def rd_gens_def method_defines_def Let_def
          internal_ir_instr_reaching_definitions_alloc_def blk_set_add blk_set_replicate_0)
  next
    case False
    then show ?thesis
      using i t defined_vars_value [OF defined_vars_bound(2) [OF v i]]
      by (simp add: init_gen_kill_eq rd_init_inst_def rd_gens_def method_defines_def Let_def
          internal_ir_instr_reaching_definitions_alloc_def blk_set_add blk_set_replicate_0)
  qed
qed

lemma rd_init_kill:
  assumes v: "variables_ok m" and i: "i < ir_instr_count m"
  shows "blk_set (rd_kill (init_gen_kill m ! i)) = rd_kills m i"
proof (cases "i < parametersNumber m")
  case True
  then show ?thesis
    using i by (simp add: init_gen_kill_eq rd_init_par_def rd_kills_def Let_def
        internal_ir_instr_reaching_definitions_alloc_def blk_set_replicate_0)
next
  case False
  let ?v = "IRMETHOD_getVariableDefinedByInstruction (ir_instr_get_by_pos m i)"
  have d: "method_defines m i = (if ?v \<noteq> NOPARAM_VALUE then {unat ?v} else {})"
    using False i defined_vars_value [OF defined_vars_bound(2) [OF v i]]
    by (simp add: method_defines_def Let_def)
  show ?thesis
  proof (cases "?v = NOPARAM_VALUE")
    case True
    then show ?thesis
      using False i d by (simp add: init_gen_kill_eq rd_init_inst_def rd_kills_def Let_def
          internal_ir_instr_reaching_definitions_alloc_def blk_set_replicate_0)
  next
    case nv: False
    then have u: "unat ?v < var_max m" using defined_vars_less [OF v i] d by simp
    then have s: "set (collect_defs m ! unat ?v) = {k. k < ir_instr_count m \<and> unat ?v \<in> method_defines m k}"
      using collect_defs_eq [OF v] by blast
    have "\<forall>k\<in>set (collect_defs m ! unat ?v). k < 64 * length (replicate (rd_blocks m) (0 :: 64 word))"
      unfolding s by (auto simp: rd_blocks_def)
    from fold_kill [OF this, of i] show ?thesis
      using False nv i d s
      by (auto simp: init_gen_kill_eq rd_init_inst_def rd_kills_def Let_def
          internal_ir_instr_reaching_definitions_alloc_def blk_set_replicate_0)
  qed
qed

section \<open>The analysis as an instance of the bit-set problem\<close>

definition rd_abs :: "rd_state \<Rightarrow> bf_state" where
  "rd_abs st = map (\<lambda>d. (rd_in d, rd_out d)) st"

definition rd_ok :: "rd_state \<Rightarrow> nat \<Rightarrow> rd_state \<Rightarrow> bool" where
  "rd_ok st0 B st \<longleftrightarrow> length st = length st0 \<and>
     (\<forall>i<length st. rd_gen (st ! i) = rd_gen (st0 ! i) \<and> rd_kill (st ! i) = rd_kill (st0 ! i) \<and>
        length (rd_gen (st ! i)) = B \<and> length (rd_kill (st ! i)) = B \<and>
        length (rd_in (st ! i)) = B \<and> length (rd_out (st ! i)) = B)"

lemma rd_visit_eq:
  assumes ok: "rd_ok st0 B st" and i: "i < length st" and n: "set (preds ! i) \<subseteq> {..<length st}"
  shows "rd_visit preds B i (md, st) =
    (md \<or> bf_new ((!) preds) (\<lambda>i. rd_gen (st0 ! i)) (\<lambda>i. rd_kill (st0 ! i)) i (rd_abs st) \<noteq> rd_abs st ! i,
     st[i := (st ! i)
       \<lparr>rd_in := fst (bf_new ((!) preds) (\<lambda>i. rd_gen (st0 ! i)) (\<lambda>i. rd_kill (st0 ! i)) i (rd_abs st)),
        rd_out := snd (bf_new ((!) preds) (\<lambda>i. rd_gen (st0 ! i)) (\<lambda>i. rd_kill (st0 ! i)) i (rd_abs st))\<rparr>])"
proof -
  have len: "length (rd_in (st ! i)) = B" "length (rd_out (st ! i)) = B"
    and same: "rd_gen (st0 ! i) = rd_gen (st ! i)" "rd_kill (st0 ! i) = rd_kill (st ! i)"
    using ok i by (auto simp: rd_ok_def)
  have ab: "rd_abs st ! j = (rd_in (st ! j), rd_out (st ! j))" if "j < length st" for j
    using that by (simp add: rd_abs_def)
  have join: "fold (\<lambda>j. blk_loop (\<lambda>count old. old OR rd_out (st ! j) ! count) B) (preds ! i) (md, rd_in (st ! i)) =
      (md \<or> bf_join (rd_abs st) (preds ! i) (rd_in (st ! i)) \<noteq> rd_in (st ! i),
       bf_join (rd_abs st) (preds ! i) (rd_in (st ! i)))"
    using n ok ab len by (intro fold_blk_loop_or) (auto simp: rd_ok_def)
  show ?thesis
    using len ab [OF i]
    by (simp add: rd_visit_def join bf_new_def Let_def same blk_loop_full bf_apply_def JITMAXNUINT_minus)
qed

definition rd_table :: "ir_method \<Rightarrow> nat list list" where
  "rd_table m = map (predecessors m) [0..<ir_instr_count m + 1]"

lemma rd_table_nth [simp]: "i \<le> ir_instr_count m \<Longrightarrow> rd_table m ! i = predecessors m i"
  unfolding rd_table_def by (rule nth_table)

lemma predecessors_less: "i < ir_instr_count m \<Longrightarrow> set (predecessors m i) \<subseteq> {..<ir_instr_count m}"
  by (auto simp: predecessors_def label_predecessors_def)

interpretation rd: bit_flow "predecessors m" "\<lambda>i. rd_gen (init_gen_kill m ! i)"
  "\<lambda>i. rd_kill (init_gen_kill m ! i)" "ir_instr_count m" "rd_blocks m" "{..<ir_instr_count m}"
  "rd_visit (rd_table m) (rd_blocks m)" rd_abs "rd_ok (init_gen_kill m) (rd_blocks m)"
  for m
proof
  fix i assume i: "i \<in> {..<ir_instr_count m}"
  then show p: "set (predecessors m i) \<subseteq> {..<ir_instr_count m}"
    by (intro predecessors_less) simp
  show "length (rd_gen (init_gen_kill m ! i)) = rd_blocks m" "length (rd_kill (init_gen_kill m ! i)) = rd_blocks m"
    using i by (simp_all add: rd_init_lengths)
  fix md s assume ok: "rd_ok (init_gen_kill m) (rd_blocks m) s"
  then have len: "length s = ir_instr_count m" by (simp add: rd_ok_def)
  have l: "i < length s" and n: "set (rd_table m ! i) \<subseteq> {..<length s}"
    using i p by (simp_all add: len)
  note v = rd_visit_eq [OF ok l n, of md]
  have e: "bf_new ((!) (rd_table m)) g k i st = bf_new (predecessors m) g k i st" for g k st
    using i by (simp add: bf_new_def)
  have new: "length (fst (bf_new ((!) (rd_table m)) g k i (rd_abs s))) = rd_blocks m"
    "length (snd (bf_new ((!) (rd_table m)) g k i (rd_abs s))) = rd_blocks m" for g k
    using ok l by (simp_all add: bf_new_def Let_def rd_abs_def rd_ok_def)
  show "rd_ok (init_gen_kill m) (rd_blocks m) (snd (rd_visit (rd_table m) (rd_blocks m) i (md, s)))"
    using ok l new unfolding v rd_ok_def by (auto simp: nth_list_update)
  show "bf_visit (predecessors m) (\<lambda>i. rd_gen (init_gen_kill m ! i)) (\<lambda>i. rd_kill (init_gen_kill m ! i))
      i (md, rd_abs s) =
     (fst (rd_visit (rd_table m) (rd_blocks m) i (md, s)),
      rd_abs (snd (rd_visit (rd_table m) (rd_blocks m) i (md, s))))"
    by (simp add: v e bf_visit_def rd_abs_def map_update)
qed auto

lemma rd_init_ok: "rd_ok (init_gen_kill m) (rd_blocks m) (init_gen_kill m)"
  by (simp add: rd_ok_def rd_init_lengths)

lemma rd_init_abs: "rd_abs (init_gen_kill m) = bf_zero (ir_instr_count m) (rd_blocks m)"
  by (rule nth_equalityI) (auto simp: rd_abs_def bf_zero_def rd_init_lengths)

section \<open>Properties\<close>

text \<open>The edges into an instruction, by the successors of the others.\<close>

definition cfg_preds :: "ir_method \<Rightarrow> nat \<Rightarrow> nat set" where
  "cfg_preds m i = (if i < ir_instr_count m then {j. j < ir_instr_count m \<and> i \<in> set (successors m j)} else {})"

lemma rd_edges_eq: "simple_method m \<Longrightarrow> rd.edges m = cfg_preds m"
proof
  fix i assume m: "simple_method m"
  have "j \<in> set (predecessors m i) \<longleftrightarrow> j < ir_instr_count m \<and> i \<in> set (successors m j)"
    if "i < ir_instr_count m" for j
    using simple_edges [OF m, of i j] predecessors_less [OF that] that by (cases "j < ir_instr_count m") auto
  then show "rd.edges m i = cfg_preds m i" by (auto simp: rd.edges_def cfg_preds_def)
qed

lemma rd_gens_eq: "variables_ok m \<Longrightarrow> rd.gens m = rd_gens m"
  by (auto simp: fun_eq_iff rd.gens_def rd_init_gen rd_gens_def)

lemma rd_kills_eq: "variables_ok m \<Longrightarrow> rd.kills m = rd_kills m"
  by (auto simp: fun_eq_iff rd.kills_def rd_init_kill rd_kills_def)

lemma reached_in_iff:
  "d < 64 * length (rd_in x) \<Longrightarrow>
   ir_instr_reaching_definitions_reached_in_is x d \<longleftrightarrow> d \<in> blk_set (rd_in x)"
  by (simp add: ir_instr_reaching_definitions_reached_in_is_def and_mask_of_eq mem_blk_set trigger_of_less_iff)

lemma reached_out_iff:
  "d < 64 * length (rd_out x) \<Longrightarrow>
   ir_instr_reaching_definitions_reached_out_is x d \<longleftrightarrow> d \<in> blk_set (rd_out x)"
  by (simp add: ir_instr_reaching_definitions_reached_out_is_def and_mask_of_eq mem_blk_set trigger_of_less_iff)

lemma reaching_definitions_result:
  assumes m: "simple_method m" and v: "variables_ok m"
  shows "\<exists>st. reaching_definitions_do_job m = Some st \<and>
    (\<forall>i<ir_instr_count m. \<forall>d<ir_instr_count m.
       (ir_instr_reaching_definitions_reached_in_is (st ! i) d \<longleftrightarrow>
          arrives (cfg_preds m) (rd_gens m) (rd_kills m) i d) \<and>
       (ir_instr_reaching_definitions_reached_out_is (st ! i) d \<longleftrightarrow>
          flows (cfg_preds m) (rd_gens m) (rd_kills m) i d))"
proof -
  have o: "set [0..<ir_instr_count m] = {..<ir_instr_count m}" by auto
  obtain st where st: "do_while (flow_step (rd_visit (rd_table m) (rd_blocks m)) [0..<ir_instr_count m])
        (init_gen_kill m) = Some st"
      "rd_ok (init_gen_kill m) (rd_blocks m) st" "rd.solves m (rd_abs st)"
    using rd.analysis_loop [OF rd_init_ok rd_init_abs o] by blast
  have job: "reaching_definitions_do_job m = Some st"
    using st(1) simpleD(1) [OF m]
    by (simp add: reaching_definitions_do_job_def compute_reaching_definitions_def
        compute_reaching_definitions_step_def getInstructionsPredecessors_eq [OF m] rd_table_def del: upt_Suc)
  have len: "length st = ir_instr_count m" using st(2) by (simp add: rd_ok_def)
  have "(ir_instr_reaching_definitions_reached_in_is (st ! i) d \<longleftrightarrow>
        arrives (cfg_preds m) (rd_gens m) (rd_kills m) i d) \<and>
      (ir_instr_reaching_definitions_reached_out_is (st ! i) d \<longleftrightarrow>
        flows (cfg_preds m) (rd_gens m) (rd_kills m) i d)"
    if i: "i < ir_instr_count m" and d: "d < ir_instr_count m" for i d
  proof -
    have "rd_abs st ! i = (rd_in (st ! i), rd_out (st ! i))" using i len by (simp add: rd_abs_def)
    then have "blk_set (rd_out (st ! i)) = {x. flows (cfg_preds m) (rd_gens m) (rd_kills m) i x}"
      "blk_set (rd_in (st ! i)) = {x. arrives (cfg_preds m) (rd_gens m) (rd_kills m) i x}"
      using rd.solvesD [OF st(3), of i] i
      by (simp_all add: rd_edges_eq [OF m] rd_gens_eq [OF v] rd_kills_eq [OF v])
    moreover have "d < 64 * rd_blocks m" using d by (simp add: rd_blocks_def)
    ultimately show ?thesis
      using st(2) i len by (simp add: rd_ok_def reached_in_iff reached_out_iff)
  qed
  with job show ?thesis by blast
qed

text \<open>
  C7: On a method without handlers, \<open>finally\<close> blocks and filters, the reaching-definitions plugin ends, and
  afterwards the definition made by instruction \<open>d\<close> reaches the entry of instruction \<open>i\<close> exactly when
  there is a path of the control flow graph from \<open>d\<close> to \<open>i\<close> on which no other instruction between them
  defines the same variable (the path is listed backwards, from a predecessor of \<open>i\<close> to \<open>d\<close>).
\<close>

theorem reaching_definitions_correct:
  assumes "simple_method m" and "variables_ok m"
  shows "\<exists>st. reaching_definitions_do_job m = Some st \<and>
    (\<forall>i<ir_instr_count m. \<forall>d<ir_instr_count m.
       ir_instr_reaching_definitions_reached_in_is (st ! i) d \<longleftrightarrow>
         (\<exists>j p. j \<in> cfg_preds m i \<and> flow_path (cfg_preds m) (rd_gens m) (rd_kills m) (j # p) d))"
proof -
  obtain st where "reaching_definitions_do_job m = Some st"
    and r: "\<forall>i<ir_instr_count m. \<forall>d<ir_instr_count m.
       ir_instr_reaching_definitions_reached_in_is (st ! i) d \<longleftrightarrow>
          arrives (cfg_preds m) (rd_gens m) (rd_kills m) i d"
    using reaching_definitions_result [OF assms] by blast
  moreover have "arrives (cfg_preds m) (rd_gens m) (rd_kills m) i d \<longleftrightarrow>
      (\<exists>j p. j \<in> cfg_preds m i \<and> flow_path (cfg_preds m) (rd_gens m) (rd_kills m) (j # p) d)" for i d
    by (auto simp: arrives_def flows_iff_path)
  ultimately show ?thesis by auto
qed

theorem reaching_definitions_correct_witness:
  "\<exists>st. reaching_definitions_do_job demo = Some st \<and>
     ir_instr_reaching_definitions_reached_in_is (st ! 2) 4 \<and>
     ir_instr_reaching_definitions_reached_in_is (st ! 2) 1"
proof -
  let ?P = "\<lambda>p d. flow_path (cfg_preds demo) (rd_gens demo) (rd_kills demo) p d"
  have j: "5 \<in> cfg_preds demo 2" "1 \<in> cfg_preds demo 2" and p: "?P [5, 4] 4" "?P [1] 1"
    by (simp_all add: cfg_preds_def rd_gens_def rd_kills_def method_defines_def defined_vars_def
        successors_def mayInstructionOfTypeThrowException_def demo_simps
        ir_instr_label_get_def ir_instr_label_like_get_def upt_rec)
  obtain st where st: "reaching_definitions_do_job demo = Some st"
    and r: "\<forall>i<ir_instr_count demo. \<forall>d<ir_instr_count demo.
       ir_instr_reaching_definitions_reached_in_is (st ! i) d \<longleftrightarrow>
         (\<exists>j p. j \<in> cfg_preds demo i \<and> ?P (j # p) d)"
    using reaching_definitions_correct [OF demo_simple demo_variables] by blast
  have "ir_instr_reaching_definitions_reached_in_is (st ! 2) 4"
    using r [rule_format, of 2 4] j(1) p(1) by (simp del: flow_path.simps) blast
  moreover have "ir_instr_reaching_definitions_reached_in_is (st ! 2) 1"
    using r [rule_format, of 2 1] j(2) p(2) by (simp del: flow_path.simps) blast
  ultimately show ?thesis using st by blast
qed

lemma set_fold_insert:
  "set (fold (\<lambda>i l. if P i then i # l else l) xs l) = {i \<in> set xs. P i} \<union> set l"
  by (induction xs arbitrary: l) auto

text \<open>
  C26: The two scans for the definitions of a variable, the table of the plugin and the list of
  \<open>internal_getDefinitions\<close>, find the same instructions: those that define the variable, and
  the dummy instruction when it is a parameter.
\<close>

theorem definitions_agree:
  assumes v: "variables_ok m" and u: "unat varID < var_max m"
  shows "set (internal_getDefinitions m varID) = {i. i < ir_instr_count m \<and> unat varID \<in> method_defines m i} \<and>
    set (collect_defs m ! unat varID) = {i. i < ir_instr_count m \<and> unat varID \<in> method_defines m i}"
proof
  have nm: "varID \<noteq> NOPARAM_VALUE"
    using u v by (intro small_not_minus_one) (auto simp: variables_ok_def)
  have d: "IRMETHOD_getVariableDefinedByInstruction (ir_instr_get_by_pos m i) = varID \<longleftrightarrow>
      unat varID \<in> defined_vars (ir_instr_get_by_pos m i)"
    if "i < ir_instr_count m" "parametersNumber m \<le> i" for i
    using nm defined_vars_value [OF defined_vars_bound(2) [OF v that]]
    by (auto simp: Let_def) (metis word_unat_eq_iff)
  have p: "parametersNumber m \<le> ir_instr_count m" using v by (simp add: variables_ok_def)
  show "set (internal_getDefinitions m varID) = {i. i < ir_instr_count m \<and> unat varID \<in> method_defines m i}"
    using d p by (auto simp: internal_getDefinitions_def Let_def set_fold_insert method_defines_def)
  show "set (collect_defs m ! unat varID) = {i. i < ir_instr_count m \<and> unat varID \<in> method_defines m i}"
    using collect_defs_eq [OF v] u by blast
qed

theorem definitions_agree_witness:
  "{1, 4} \<subseteq> set (collect_defs demo ! 1) \<and> 5 \<notin> set (collect_defs demo ! 1)"
proof -
  have "unat (1 :: 64 word) < var_max demo" by (simp add: demo_simps)
  from definitions_agree [OF demo_variables this]
  have "set (collect_defs demo ! 1) = {i. i < 8 \<and> 1 \<in> method_defines demo i}" by simp
  moreover have "1 \<in> method_defines demo 1" "1 \<in> method_defines demo 4" "1 \<notin> method_defines demo 5"
    by (simp_all add: method_defines_def defined_vars_def demo_simps)
  ultimately show ?thesis by simp
qed

end
