(* ===== verification/ReachInsts.thy ===== *)
theory ReachInsts
  imports FlowGraph BitFlow
begin

text \<open>
  The generic data-flow structure of \<open>libirmanager/src/ir_dataflow.c\<close> and the analysis that uses it,
  \<open>optimizer-reachinginstructions/src/optimizer_reachinginstructions.c\<close>: which instructions can be
  executed after which. The queries of \<open>libirmanager/src/ir_method.c\<close> that read its result are here too.
\<close>

section \<open>Data-flow sets\<close>

record single_data_flow =
  df_kill :: blocks
  df_gen :: blocks
  df_in :: blocks
  df_out :: blocks

record data_flow =
  elements :: nat
  df_data :: "single_data_flow list"

definition DATAFLOW_allocateSets :: "nat \<Rightarrow> nat \<Rightarrow> data_flow" where
  "DATAFLOW_allocateSets instructionsNumber elems =
    (let blocksNumber = elems div 64 + 1; zero = replicate blocksNumber 0
     in \<lparr>elements = blocksNumber,
         df_data = replicate (instructionsNumber + 1)
           \<lparr>df_kill = zero, df_gen = zero, df_in = zero, df_out = zero\<rparr>\<rparr>)"

definition fill_sets :: "JITNUINT \<Rightarrow> nat \<Rightarrow> bool \<Rightarrow> bool \<Rightarrow> bool \<Rightarrow> bool \<Rightarrow> single_data_flow \<Rightarrow> single_data_flow" where
  "fill_sets w n gen kill in' out d =
     d\<lparr>df_kill := (if kill then replicate n w else df_kill d),
       df_gen := (if gen then replicate n w else df_gen d),
       df_in := (if in' then replicate n w else df_in d),
       df_out := (if out then replicate n w else df_out d)\<rparr>"

definition DATAFLOW_setEmptySets :: "data_flow \<Rightarrow> nat \<Rightarrow> bool \<Rightarrow> bool \<Rightarrow> bool \<Rightarrow> bool \<Rightarrow> data_flow" where
  "DATAFLOW_setEmptySets sets setID gen kill in' out =
     sets\<lparr>df_data := (df_data sets)[setID := fill_sets 0 (elements sets) gen kill in' out (df_data sets ! setID)]\<rparr>"

definition DATAFLOW_setFullSets :: "data_flow \<Rightarrow> nat \<Rightarrow> bool \<Rightarrow> bool \<Rightarrow> bool \<Rightarrow> bool \<Rightarrow> data_flow" where
  "DATAFLOW_setFullSets sets setID gen kill in' out =
     sets\<lparr>df_data := (df_data sets)[setID := fill_sets (-1) (elements sets) gen kill in' out (df_data sets ! setID)]\<rparr>"

definition DATAFLOW_setAllEmptySets :: "data_flow \<Rightarrow> bool \<Rightarrow> bool \<Rightarrow> bool \<Rightarrow> bool \<Rightarrow> data_flow" where
  "DATAFLOW_setAllEmptySets sets gen kill in' out =
     fold (\<lambda>i s. DATAFLOW_setEmptySets s i gen kill in' out) [0..<length (df_data sets)] sets"

definition DATAFLOW_setAllFullSets :: "data_flow \<Rightarrow> bool \<Rightarrow> bool \<Rightarrow> bool \<Rightarrow> bool \<Rightarrow> data_flow" where
  "DATAFLOW_setAllFullSets sets gen kill in' out =
     fold (\<lambda>i s. DATAFLOW_setFullSets s i gen kill in' out) [0..<length (df_data sets)] sets"

definition DATAFLOW_doesElementExistInINSet :: "data_flow \<Rightarrow> nat \<Rightarrow> nat \<Rightarrow> bool" where
  "DATAFLOW_doesElementExistInINSet sets setID elementID \<longleftrightarrow>
     df_in (df_data sets ! setID) ! trigger_of elementID AND mask_of elementID \<noteq> 0"

text \<open>The word of the element is assigned, not joined.\<close>

definition gen_assign :: "nat \<Rightarrow> single_data_flow \<Rightarrow> single_data_flow" where
  "gen_assign elementID d = d\<lparr>df_gen := (df_gen d)[trigger_of elementID := mask_of elementID]\<rparr>"

definition DATAFLOW_addElementToGENSet :: "data_flow \<Rightarrow> nat \<Rightarrow> nat \<Rightarrow> data_flow" where
  "DATAFLOW_addElementToGENSet sets setID elementID =
     sets\<lparr>df_data := (df_data sets)[setID := gen_assign elementID (df_data sets ! setID)]\<rparr>"

section \<open>Reaching instructions\<close>

definition compute_gen_kill_reachable_instructions :: "data_flow \<Rightarrow> data_flow" where
  "compute_gen_kill_reachable_instructions data =
     data\<lparr>df_data := fold (\<lambda>i st. st[i := gen_assign i (st ! i)]) [0..<length (df_data data)] (df_data data)\<rparr>"

definition init_in_out_reachable_instructions :: "data_flow \<Rightarrow> data_flow" where
  "init_in_out_reachable_instructions data =
     data\<lparr>df_data := map (fill_sets 0 (elements data) False False True True) (df_data data)\<rparr>"

text \<open>
  The circuits of the method, each by the source and the destination of its back edge; \<open>None\<close> when back
  edges are followed like other edges. Loop identification is another component.
\<close>

type_synonym back_edges = "(nat \<times> nat) list option"

definition is_back_edge :: "back_edges \<Rightarrow> nat \<Rightarrow> nat \<Rightarrow> bool" where
  "is_back_edge backEdges i succ = (case backEdges of None \<Rightarrow> False | Some l \<Rightarrow> (i, succ) \<in> set l)"

definition ri_out_word :: "nat list list \<Rightarrow> back_edges \<Rightarrow> single_data_flow list \<Rightarrow> nat \<Rightarrow> nat \<Rightarrow> JITNUINT \<Rightarrow> JITNUINT" where
  "ri_out_word succs backEdges st i j old =
     fold (\<lambda>succ w. if \<not> is_back_edge backEdges i succ then w OR df_in (st ! succ) ! j else w) (succs ! i) old"

definition ri_visit :: "nat list list \<Rightarrow> back_edges \<Rightarrow> nat \<Rightarrow> nat \<Rightarrow>
  bool \<times> single_data_flow list \<Rightarrow> bool \<times> single_data_flow list" where
  "ri_visit succs backEdges elems i = (\<lambda>(modified, st).
    (let d = st ! i;
         (modified1, out') = blk_loop (ri_out_word succs backEdges st i) elems (modified, df_out d);
         (modified2, in') = blk_loop (\<lambda>j old. df_gen d ! j OR out' ! j) elems (modified1, df_in d)
     in (modified2, st[i := d\<lparr>df_out := out', df_in := in'\<rparr>])))"

definition compute_reachable_instructions_data_flow_step ::
  "nat list list \<Rightarrow> back_edges \<Rightarrow> nat \<Rightarrow> nat \<Rightarrow> single_data_flow list \<Rightarrow> bool \<times> single_data_flow list" where
  "compute_reachable_instructions_data_flow_step succs backEdges num elems =
     flow_step (ri_visit succs backEdges elems) (rev [0..<num])"

text \<open>The outer option is the loop, the inner one the result NULL of a method without instructions.\<close>

definition compute_reachable_instructions_data_flow ::
  "ir_method \<Rightarrow> back_edges \<Rightarrow> data_flow option option" where
  "compute_reachable_instructions_data_flow m backEdges =
     (if ir_instr_count m = 0 then Some None
      else
        let r = init_in_out_reachable_instructions
                 (compute_gen_kill_reachable_instructions
                   (DATAFLOW_allocateSets (ir_instr_count m) (ir_instr_count m)))
        in case IRMETHOD_getInstructionsSuccessors m of
             None \<Rightarrow> None
           | Some succs \<Rightarrow>
               map_option (\<lambda>st. Some (r\<lparr>df_data := st\<rparr>))
                 (do_while (compute_reachable_instructions_data_flow_step succs backEdges
                    (length (df_data r)) (elements r)) (df_data r)))"

section \<open>Queries\<close>

definition internal_is_instruction_reachable_in :: "data_flow \<Rightarrow> nat \<Rightarrow> nat \<Rightarrow> bool" where
  "internal_is_instruction_reachable_in reachable inst position \<longleftrightarrow>
     df_in (df_data reachable ! position) ! trigger_of inst AND mask_of inst \<noteq> 0"

definition IRMETHOD_canInstructionBeReachedFromPosition :: "data_flow \<Rightarrow> nat \<Rightarrow> nat \<Rightarrow> bool" where
  "IRMETHOD_canInstructionBeReachedFromPosition reachable inst position =
     internal_is_instruction_reachable_in reachable inst position"

definition IRMETHOD_getInstructionsThatCanHaveBeenExecutedBeforeInstruction ::
  "ir_method \<Rightarrow> data_flow \<Rightarrow> nat \<Rightarrow> nat set" where
  "IRMETHOD_getInstructionsThatCanHaveBeenExecutedBeforeInstruction m reachable inst =
     set (filter (\<lambda>currentInst. internal_is_instruction_reachable_in reachable inst currentInst)
       [0..<ir_instr_count m])"

text \<open>
  The scan of all bits of one set. Its mask is the expression \<open>0x1 << elemID\<close> of type \<open>int\<close>: \<open>None\<close> when
  that shift has no defined value.
\<close>

fun reachable_scan :: "blocks \<Rightarrow> nat list \<Rightarrow> nat list option" where
  "reachable_scan in' [] = Some []"
| "reachable_scan in' (instID # instIDs) =
     (case int_mask_of instID of
        None \<Rightarrow> None
      | Some temp \<Rightarrow>
          map_option (\<lambda>l. if in' ! trigger_of instID AND temp = 0 then l else instID # l)
            (reachable_scan in' instIDs))"

definition internal_addInstructionsThatCanBeReachedFromPosition ::
  "ir_method \<Rightarrow> data_flow \<Rightarrow> nat \<Rightarrow> nat list option" where
  "internal_addInstructionsThatCanBeReachedFromPosition m reachable positionID =
     reachable_scan (df_in (df_data reachable ! positionID)) [0..<ir_instr_count m]"

section \<open>The analysis as an instance of the bit-set problem\<close>

definition ri_blocks :: "ir_method \<Rightarrow> nat" where
  "ri_blocks m = ir_instr_count m div 64 + 1"

definition ri_init :: "ir_method \<Rightarrow> single_data_flow list" where
  "ri_init m = df_data (init_in_out_reachable_instructions
     (compute_gen_kill_reachable_instructions
       (DATAFLOW_allocateSets (ir_instr_count m) (ir_instr_count m))))"

definition ri_nbr :: "ir_method \<Rightarrow> back_edges \<Rightarrow> nat \<Rightarrow> nat list" where
  "ri_nbr m backEdges i = filter (\<lambda>succ. \<not> is_back_edge backEdges i succ) (successors m i)"

definition ri_abs :: "single_data_flow list \<Rightarrow> bf_state" where
  "ri_abs st = map (\<lambda>d. (df_out d, df_in d)) st"

definition ri_ok :: "single_data_flow list \<Rightarrow> nat \<Rightarrow> single_data_flow list \<Rightarrow> bool" where
  "ri_ok st0 B st \<longleftrightarrow> length st = length st0 \<and>
     (\<forall>i<length st. df_gen (st ! i) = df_gen (st0 ! i) \<and> length (df_gen (st ! i)) = B \<and>
        length (df_in (st ! i)) = B \<and> length (df_out (st ! i)) = B)"

lemma fold_update_self:
  assumes "n \<le> length s"
  shows "fold (\<lambda>i st. st[i := f i (st ! i)]) [0..<n] s = map (\<lambda>i. f i (s ! i)) [0..<n] @ drop n s"
  using assms
proof (induction n)
  case (Suc n)
  have "drop n s = s ! n # drop (Suc n) s" using Suc.prems by (simp add: Cons_nth_drop_Suc)
  with Suc show ?case by (simp add: list_update_append nth_append)
qed simp

lemma ri_init_eq:
  "ri_init m = map (\<lambda>i. \<lparr>df_kill = replicate (ri_blocks m) 0,
       df_gen = (replicate (ri_blocks m) 0)[trigger_of i := mask_of i],
       df_in = replicate (ri_blocks m) 0, df_out = replicate (ri_blocks m) 0\<rparr>) [0..<ir_instr_count m + 1]"
proof -
  let ?z = "replicate (ri_blocks m) (0 :: 64 word)"
  let ?st = "replicate (ir_instr_count m + 1) \<lparr>df_kill = ?z, df_gen = ?z, df_in = ?z, df_out = ?z\<rparr>"
  have "fold (\<lambda>i st. st[i := gen_assign i (st ! i)]) [0..<ir_instr_count m + 1] ?st =
      map (\<lambda>i. gen_assign i (?st ! i)) [0..<ir_instr_count m + 1] @ drop (ir_instr_count m + 1) ?st"
    by (rule fold_update_self) simp
  then have "ri_init m = map (fill_sets 0 (ri_blocks m) False False True True)
      (map (\<lambda>i. gen_assign i (?st ! i)) [0..<ir_instr_count m + 1])"
    unfolding ri_init_def init_in_out_reachable_instructions_def
      compute_gen_kill_reachable_instructions_def DATAFLOW_allocateSets_def Let_def
    by (simp add: ri_blocks_def del: replicate_Suc upt_Suc)
  then show ?thesis by (simp add: gen_assign_def fill_sets_def del: replicate_Suc upt_Suc)
qed

lemma length_ri_init [simp]: "length (ri_init m) = ir_instr_count m + 1"
  by (simp add: ri_init_eq)

lemma ri_init_nth:
  "i \<le> ir_instr_count m \<Longrightarrow> ri_init m ! i = \<lparr>df_kill = replicate (ri_blocks m) 0,
       df_gen = (replicate (ri_blocks m) 0)[trigger_of i := mask_of i],
       df_in = replicate (ri_blocks m) 0, df_out = replicate (ri_blocks m) 0\<rparr>"
  unfolding ri_init_eq by (simp del: upt_Suc)

lemma bf_join_words:
  "bf_join st ns t = map (\<lambda>c. fold (\<lambda>s w. w OR snd (st ! s) ! c) ns (t ! c)) [0..<length t]"
proof (induction ns arbitrary: t)
  case (Cons j ns)
  have "bf_join st (j # ns) t = bf_join st ns (bf_or t (snd (st ! j)))" by (simp add: bf_join_def)
  also have "\<dots> = map (\<lambda>c. fold (\<lambda>s w. w OR snd (st ! s) ! c) ns (bf_or t (snd (st ! j)) ! c)) [0..<length t]"
    by (simp add: Cons.IH)
  also have "\<dots> = map (\<lambda>c. fold (\<lambda>s w. w OR snd (st ! s) ! c) (j # ns) (t ! c)) [0..<length t]"
    by (simp add: bf_or_def)
  finally show ?case .
qed (simp add: bf_join_def map_nth)

lemma fold_filter_or:
  "fold (\<lambda>s w. if P s then w OR g s else w) ns w = fold (\<lambda>s w. w OR g s) (filter P ns) w"
  by (induction ns arbitrary: w) auto

lemma fold_or_cong:
  "(\<And>s. s \<in> set ns \<Longrightarrow> g s = h s) \<Longrightarrow> fold (\<lambda>s w. w OR g s) ns w = fold (\<lambda>s w. w OR h s) ns (w :: 64 word)"
  by (induction ns arbitrary: w) auto

lemma ri_visit_eq:
  assumes ok: "ri_ok st0 B st" and i: "i < length st" and n: "set ns \<subseteq> {..<length st}"
    and ns: "ns = filter (\<lambda>succ. \<not> is_back_edge backEdges i succ) (succs ! i)"
  shows "ri_visit succs backEdges B i (md, st) =
    (md \<or> bf_new (\<lambda>_. ns) (\<lambda>i. df_gen (st0 ! i)) (\<lambda>_. replicate B 0) i (ri_abs st) \<noteq> ri_abs st ! i,
     st[i := (st ! i)
       \<lparr>df_out := fst (bf_new (\<lambda>_. ns) (\<lambda>i. df_gen (st0 ! i)) (\<lambda>_. replicate B 0) i (ri_abs st)),
        df_in := snd (bf_new (\<lambda>_. ns) (\<lambda>i. df_gen (st0 ! i)) (\<lambda>_. replicate B 0) i (ri_abs st))\<rparr>])"
proof -
  have len: "length (df_in (st ! i)) = B" "length (df_out (st ! i)) = B"
    and same: "df_gen (st0 ! i) = df_gen (st ! i)"
    using ok i by (auto simp: ri_ok_def)
  have ab: "ri_abs st ! j = (df_out (st ! j), df_in (st ! j))" if "j < length st" for j
    using that by (simp add: ri_abs_def)
  have "ri_out_word succs backEdges st i c w = fold (\<lambda>s w. w OR snd (ri_abs st ! s) ! c) ns w" for c w
    unfolding ri_out_word_def fold_filter_or ns [symmetric] using n ab by (intro fold_or_cong) auto
  then have "map (\<lambda>c. ri_out_word succs backEdges st i c (df_out (st ! i) ! c)) [0..<B] =
      bf_join (ri_abs st) ns (df_out (st ! i))"
    by (simp add: bf_join_words len)
  moreover have "bf_apply g (replicate B 0) t = map (\<lambda>c. g ! c OR t ! c) [0..<B]" if "length t = B" for g t
    using that by (simp add: bf_apply_def)
  ultimately show ?thesis
    using len ab [OF i] by (simp add: ri_visit_def bf_new_def Let_def same blk_loop_full)
qed



definition ri_table :: "ir_method \<Rightarrow> nat list list" where
  "ri_table m = map (successors m) [0..<ir_instr_count m + 1]"

lemma ri_table_nth [simp]: "i \<le> ir_instr_count m \<Longrightarrow> ri_table m ! i = successors m i"
  unfolding ri_table_def by (rule nth_table)

interpretation ri: bit_flow "ri_nbr m backEdges" "\<lambda>i. df_gen (ri_init m ! i)"
  "\<lambda>_. replicate (ri_blocks m) 0" "ir_instr_count m + 1" "ri_blocks m" "{..ir_instr_count m}"
  "ri_visit (ri_table m) backEdges (ri_blocks m)" ri_abs "ri_ok (ri_init m) (ri_blocks m)"
  for m backEdges
proof
  fix i assume i: "i \<in> {..ir_instr_count m}"
  then show p: "set (ri_nbr m backEdges i) \<subseteq> {..<ir_instr_count m + 1}"
    using successors_le [of i m] by (auto simp: ri_nbr_def less_Suc_eq_le)
  show "length (df_gen (ri_init m ! i)) = ri_blocks m"
    using i by (simp add: ri_init_nth less_Suc_eq_le)
  fix md s assume ok: "ri_ok (ri_init m) (ri_blocks m) s"
  then have len: "length s = ir_instr_count m + 1" by (simp add: ri_ok_def)
  have l: "i < length s" and n: "set (ri_nbr m backEdges i) \<subseteq> {..<length s}"
    using i p by (simp_all add: len)
  have "ri_nbr m backEdges i = filter (\<lambda>succ. \<not> is_back_edge backEdges i succ) (ri_table m ! i)"
    using i by (simp add: ri_nbr_def less_Suc_eq_le)
  note v = ri_visit_eq [OF ok l n this, of md]
  have e: "bf_new (\<lambda>_. ri_nbr m backEdges i) g k i st = bf_new (ri_nbr m backEdges) g k i st" for g k st
    by (simp add: bf_new_def)
  have new: "length (fst (bf_new (\<lambda>_. ri_nbr m backEdges i) g k i (ri_abs s))) = ri_blocks m"
    "length (snd (bf_new (\<lambda>_. ri_nbr m backEdges i) g k i (ri_abs s))) = ri_blocks m" for g k
    using ok l by (simp_all add: bf_new_def Let_def ri_abs_def ri_ok_def)
  show "ri_ok (ri_init m) (ri_blocks m) (snd (ri_visit (ri_table m) backEdges (ri_blocks m) i (md, s)))"
    using ok l new unfolding v ri_ok_def by (auto simp: nth_list_update)
  show "bf_visit (ri_nbr m backEdges) (\<lambda>i. df_gen (ri_init m ! i)) (\<lambda>_. replicate (ri_blocks m) 0)
      i (md, ri_abs s) =
     (fst (ri_visit (ri_table m) backEdges (ri_blocks m) i (md, s)),
      ri_abs (snd (ri_visit (ri_table m) backEdges (ri_blocks m) i (md, s))))"
    by (simp add: v e bf_visit_def ri_abs_def map_update)
qed auto

lemma ri_init_ok: "ri_ok (ri_init m) (ri_blocks m) (ri_init m)"
  by (simp add: ri_ok_def ri_init_nth less_Suc_eq_le)

lemma ri_init_abs: "ri_abs (ri_init m) = bf_zero (ir_instr_count m + 1) (ri_blocks m)"
  by (rule nth_equalityI)
    (auto simp: ri_abs_def bf_zero_def ri_init_nth less_Suc_eq_le simp del: replicate_Suc)

text \<open>The edges of the control flow graph, the chosen back edges left out.\<close>

definition cfg_edges :: "ir_method \<Rightarrow> back_edges \<Rightarrow> (nat \<times> nat) set" where
  "cfg_edges m backEdges =
     {(i, j). i \<le> ir_instr_count m \<and> j \<in> set (successors m i) \<and> \<not> is_back_edge backEdges i j}"

lemma ri_gen_set: "i \<le> ir_instr_count m \<Longrightarrow> blk_set (df_gen (ri_init m ! i)) = {i}"
proof -
  assume i: "i \<le> ir_instr_count m"
  then have t: "trigger_of i < ri_blocks m" by (simp add: trigger_of_less_iff ri_blocks_def)
  have "(replicate (ri_blocks m) 0)[trigger_of i := mask_of i] = blk_add i (replicate (ri_blocks m) 0)"
    using t by (simp add: blk_add_def)
  with i t show ?thesis by (simp add: ri_init_nth blk_set_add blk_set_replicate_0)
qed

lemma ri_flows_iff:
  assumes "i \<le> ir_instr_count m"
  shows "flows (ri.edges m backEdges) (ri.gens m) (ri.kills m) i x \<longleftrightarrow> (i, x) \<in> (cfg_edges m backEdges)\<^sup>*"
proof
  assume "flows (ri.edges m backEdges) (ri.gens m) (ri.kills m) i x"
  then show "(i, x) \<in> (cfg_edges m backEdges)\<^sup>*"
  proof induction
    case (flows_gen x i)
    then have "x = i" by (auto simp: ri.gens_def ri_gen_set less_Suc_eq_le split: if_splits)
    then show ?case by simp
  next
    case (flows_edge j i x)
    then have "(i, j) \<in> cfg_edges m backEdges"
      by (auto simp: ri.edges_def ri_nbr_def cfg_edges_def less_Suc_eq_le split: if_splits)
    with flows_edge show ?case by (meson converse_rtrancl_into_rtrancl)
  qed
next
  assume p: "(i, x) \<in> (cfg_edges m backEdges)\<^sup>*"
  then have x: "x \<le> ir_instr_count m"
    using assms by induction (auto simp: cfg_edges_def dest: successors_le)
  from p show "flows (ri.edges m backEdges) (ri.gens m) (ri.kills m) i x"
  proof (induction rule: converse_rtrancl_induct)
    case base
    show ?case
      using x by (intro flows_gen) (simp add: ri.gens_def ri_gen_set less_Suc_eq_le)
  next
    case (step y z)
    then have "z \<in> ri.edges m backEdges y"
      by (auto simp: ri.edges_def ri_nbr_def cfg_edges_def)
    moreover have "x \<notin> ri.kills m y" by (simp add: ri.kills_def blk_set_replicate_0 del: replicate_Suc)
    ultimately show ?case using step by (auto intro: flows.flows_edge)
  qed
qed

section \<open>Properties\<close>

lemma reaching_instructions_result:
  assumes n: "0 < ir_instr_count m"
  shows "\<exists>r. compute_reachable_instructions_data_flow m backEdges = Some (Some r) \<and>
    (\<forall>i\<le>ir_instr_count m. length (df_in (df_data r ! i)) = ri_blocks m \<and>
       blk_set (df_in (df_data r ! i)) = {x. (i, x) \<in> (cfg_edges m backEdges)\<^sup>*})"
proof -
  have o: "set (rev [0..<ir_instr_count m + 1]) = {..ir_instr_count m}" by auto
  obtain st where st: "do_while (flow_step (ri_visit (ri_table m) backEdges (ri_blocks m))
        (rev [0..<ir_instr_count m + 1])) (ri_init m) = Some st"
      "ri_ok (ri_init m) (ri_blocks m) st" "ri.solves m backEdges (ri_abs st)"
    using ri.analysis_loop [OF ri_init_ok ri_init_abs o, of backEdges] by blast
  define r where "r = init_in_out_reachable_instructions
      (compute_gen_kill_reachable_instructions (DATAFLOW_allocateSets (ir_instr_count m) (ir_instr_count m)))"
  have r: "df_data r = ri_init m" "elements r = ri_blocks m"
    by (simp_all add: r_def ri_init_def init_in_out_reachable_instructions_def ri_blocks_def
        compute_gen_kill_reachable_instructions_def DATAFLOW_allocateSets_def Let_def)
  have "compute_reachable_instructions_data_flow m backEdges = Some (Some (r\<lparr>df_data := st\<rparr>))"
    using n st(1) unfolding compute_reachable_instructions_data_flow_def r_def [symmetric] Let_def
    by (simp add: r getInstructionsSuccessors_eq compute_reachable_instructions_data_flow_step_def
        ri_table_def del: upt_Suc)
  moreover have "length (df_in (st ! i)) = ri_blocks m \<and>
      blk_set (df_in (st ! i)) = {x. (i, x) \<in> (cfg_edges m backEdges)\<^sup>*}" if i: "i \<le> ir_instr_count m" for i
  proof -
    have l: "i < length st" using st(2) i by (simp add: ri_ok_def)
    then have "snd (ri_abs st ! i) = df_in (st ! i)" by (simp add: ri_abs_def)
    with ri.solvesD(1) [OF st(3), of i] i ri_flows_iff [OF i]
    have "blk_set (df_in (st ! i)) = {x. (i, x) \<in> (cfg_edges m backEdges)\<^sup>*}"
      by (simp add: set_eq_iff)
    with st(2) l show ?thesis by (simp add: ri_ok_def)
  qed
  ultimately show ?thesis by (intro exI [of _ "r\<lparr>df_data := st\<rparr>"]) simp
qed



lemma reachable_scan_small:
  "\<forall>i\<in>set is. i mod 64 < 31 \<Longrightarrow>
   reachable_scan b is = Some (filter (\<lambda>i. bit (b ! trigger_of i) (i mod 64)) is)"
proof (induction "is")
  case (Cons i "is")
  have "b ! trigger_of i AND mask_of i = 0 \<longleftrightarrow> \<not> bit (b ! trigger_of i) (i mod 64)"
    using and_mask_of_neq_0 [of "b ! trigger_of i" i] by blast
  with Cons show ?case by (simp add: int_mask_of_def)
qed simp

lemma reachable_scan_large: "\<exists>i\<in>set is. 31 \<le> i mod 64 \<Longrightarrow> reachable_scan b is = None"
  by (induction "is") (auto simp: int_mask_of_def split: option.split)

text \<open>
  C30: The collection of all instructions reachable from a position is right on methods of at most 31
  instructions; on every longer method its mask \<open>0x1 << elemID\<close> leaves the range of \<open>int\<close>, although the
  words it tests are 64 bits wide.
\<close>

theorem reachable_collection_only_small:
  assumes "0 < ir_instr_count m" and "position \<le> ir_instr_count m"
    and "compute_reachable_instructions_data_flow m backEdges = Some (Some r)"
  shows "if ir_instr_count m \<le> 31 then
      \<exists>l. internal_addInstructionsThatCanBeReachedFromPosition m r position = Some l \<and>
        set l = {inst. inst < ir_instr_count m \<and> (position, inst) \<in> (cfg_edges m backEdges)\<^sup>*}
    else internal_addInstructionsThatCanBeReachedFromPosition m r position = None"
proof (cases "ir_instr_count m \<le> 31")
  case True
  have b: "blk_set (df_in (df_data r ! position)) = {x. (position, x) \<in> (cfg_edges m backEdges)\<^sup>*}"
    "length (df_in (df_data r ! position)) = ri_blocks m"
    using reaching_instructions_result [OF assms(1), of backEdges] assms(2,3) by auto
  have "\<forall>i\<in>set [0..<ir_instr_count m]. i mod 64 < 31" using True by auto
  note scan = reachable_scan_small [OF this, of "df_in (df_data r ! position)"]
  have "bit (df_in (df_data r ! position) ! trigger_of i) (i mod 64) \<longleftrightarrow>
      (position, i) \<in> (cfg_edges m backEdges)\<^sup>*" if "i < ir_instr_count m" for i
  proof -
    have "trigger_of i < length (df_in (df_data r ! position))"
      using that b(2) by (simp add: trigger_of_less_iff ri_blocks_def)
    then have "bit (df_in (df_data r ! position) ! trigger_of i) (i mod 64) \<longleftrightarrow>
        i \<in> blk_set (df_in (df_data r ! position))" by (simp add: mem_blk_set)
    then show ?thesis unfolding b(1) by simp
  qed
  with scan True show ?thesis
    by (auto simp: internal_addInstructionsThatCanBeReachedFromPosition_def)
next
  case False
  then have "31 \<in> set [0..<ir_instr_count m]" by simp
  then have "\<exists>i\<in>set [0..<ir_instr_count m]. 31 \<le> i mod 64" by (intro bexI [of _ 31]) simp_all
  from reachable_scan_large [OF this] False show ?thesis
    by (simp add: internal_addInstructionsThatCanBeReachedFromPosition_def)
qed

theorem reachable_collection_only_small_witness:
  "\<exists>r l. compute_reachable_instructions_data_flow demo None = Some (Some r) \<and>
     internal_addInstructionsThatCanBeReachedFromPosition demo r 4 = Some l \<and>
     set l = {inst. inst < 8 \<and> (4, inst) \<in> (cfg_edges demo None)\<^sup>*}"
proof -
  have n: "0 < ir_instr_count demo" "4 \<le> ir_instr_count demo" by simp_all
  obtain r where r: "compute_reachable_instructions_data_flow demo None = Some (Some r)"
    using reaching_instructions_result [OF n(1)] by blast
  with reachable_collection_only_small [OF n r] show ?thesis by auto
qed

text \<open>
  C31: Adding an element to a GEN set replaces the word it lives in: of two elements of the same word only
  the last one added is kept.
\<close>

theorem addElementToGENSet_overwrites:
  assumes "setID < length (df_data sets)" and "trigger_of a < length (df_gen (df_data sets ! setID))"
    and "trigger_of a = trigger_of b" and "a \<noteq> b"
  shows "let g = blk_set (df_gen (df_data (DATAFLOW_addElementToGENSet
            (DATAFLOW_addElementToGENSet sets setID a) setID b) ! setID))
         in b \<in> g \<and> a \<notin> g"
  using assms trigger_mod_eq [of a b]
  by (auto simp: DATAFLOW_addElementToGENSet_def gen_assign_def mem_blk_set bit_mask_of Let_def)

theorem addElementToGENSet_overwrites_witness:
  "let sets = DATAFLOW_allocateSets 2 2;
       g = blk_set (df_gen (df_data (DATAFLOW_addElementToGENSet
            (DATAFLOW_addElementToGENSet sets 0 0) 0 1) ! 0))
   in 1 \<in> g \<and> 0 \<notin> g"
  using addElementToGENSet_overwrites [of 0 "DATAFLOW_allocateSets 2 2" 0 1]
  by (simp add: DATAFLOW_allocateSets_def trigger_of_def Let_def)

end
