(* ===== verification/InstrTable.thy ===== *)
theory InstrTable
  imports IRLang "HOL-Library.Monad_Syntax"
begin

text \<open>
  The array of instructions of a method as \<open>libirmanager/src/ir_method.c\<close> stores it: a buffer of
  pointers that grows and shrinks, structures that carry their own position in the field \<open>ID\<close>, an exit node
  outside the buffer. The heap maps addresses to structures. Every access is checked:
  \<open>None\<close> stands for a failed assertion, an access outside the buffer or the use of an invalid pointer.
  The parameters an instruction owns and its metadata are one flag and one body here; releasing them is not
  modelled. New slots of the buffer are never read before they are written, except the first two, which the
  method has from the start.
\<close>

section \<open>State\<close>

record inst_cell =
  cell_ID :: nat
  cell_metadata :: bool
  cell_body :: ir_instruction

record instr_table =
  heap :: "nat \<Rightarrow> inst_cell option"
  next_address :: nat
  slots :: "nat option list"
  exit_pointer :: nat
  instructionsTop :: nat
  instructionsAllocated :: nat
  valid_optimization :: nat
  method_modified :: bool

text \<open>Arithmetic of the type \<open>JITUINT32\<close>.\<close>

definition u32_add :: "nat \<Rightarrow> nat \<Rightarrow> nat" where
  "u32_add a b = (a + b) mod 2 ^ 32"

definition u32_sub :: "nat \<Rightarrow> nat \<Rightarrow> nat" where
  "u32_sub a b = (a + 2 ^ 32 - b) mod 2 ^ 32"

definition assertion :: "bool \<Rightarrow> unit option" where
  "assertion P = (if P then Some () else None)"

text \<open>The pointer in a slot; a NULL pointer or a slot outside the buffer gives no pointer.\<close>

definition slot :: "instr_table \<Rightarrow> nat \<Rightarrow> nat option" where
  "slot t i = (if i < length (slots t) then slots t ! i else None)"

definition set_slot :: "nat \<Rightarrow> nat option \<Rightarrow> instr_table \<Rightarrow> instr_table option" where
  "set_slot i p t = (if i < length (slots t) then Some (t\<lparr>slots := (slots t)[i := p]\<rparr>) else None)"

definition get_ID :: "instr_table \<Rightarrow> nat \<Rightarrow> nat option" where
  "get_ID t p = map_option cell_ID (heap t p)"

definition set_ID :: "nat \<Rightarrow> nat \<Rightarrow> instr_table \<Rightarrow> instr_table option" where
  "set_ID p n t = map_option (\<lambda>c. t\<lparr>heap := (heap t)(p \<mapsto> c\<lparr>cell_ID := n\<rparr>)\<rparr>) (heap t p)"

text \<open>\<open>memmove\<close> inside the buffer.\<close>

definition move_slots :: "nat \<Rightarrow> nat \<Rightarrow> nat \<Rightarrow> instr_table \<Rightarrow> instr_table option" where
  "move_slots dst source n t =
     (if dst + n \<le> length (slots t) \<and> source + n \<le> length (slots t)
      then Some (t\<lparr>slots := take dst (slots t) @ take n (drop source (slots t)) @ drop (dst + n) (slots t)\<rparr>)
      else None)"

text \<open>\<open>for (count = ...) ((method->instructions[count])->ID)++\<close> and the same with \<open>--\<close>.\<close>

fun shift_IDs :: "(nat \<Rightarrow> nat) \<Rightarrow> nat list \<Rightarrow> instr_table \<Rightarrow> instr_table option" where
  "shift_IDs f [] t = Some t"
| "shift_IDs f (count # counts) t = do {
     p \<leftarrow> slot t count;
     n \<leftarrow> get_ID t p;
     t \<leftarrow> set_ID p (f n) t;
     shift_IDs f counts t
   }"

section \<open>The buffer\<close>

definition resize :: "nat \<Rightarrow> instr_table \<Rightarrow> instr_table" where
  "resize newSize t = t\<lparr>
     slots := take newSize (slots t) @ replicate (newSize - length (slots t)) None,
     instructionsAllocated := newSize\<rparr>"

definition ir_instr_check_new_space :: "instr_table \<Rightarrow> instr_table option" where
  "ir_instr_check_new_space t = do {
     assertion (instructionsTop t \<le> instructionsAllocated t);
     let t = (if instructionsTop t = instructionsAllocated t
              then resize (u32_add (instructionsAllocated t) 50) t
              else if instructionsTop t < u32_sub (instructionsAllocated t) 50
              then resize (u32_add (instructionsTop t) 10) t
              else t);
     assertion (instructionsTop t < instructionsAllocated t);
     Some t
   }"

definition update_exit_node_ID :: "instr_table \<Rightarrow> instr_table option" where
  "update_exit_node_ID t = set_ID (exit_pointer t) (instructionsTop t) t"

section \<open>Navigation\<close>

definition tbl_get_last :: "instr_table \<Rightarrow> nat option" where
  "tbl_get_last t =
     (if instructionsTop t = 0 then Some (exit_pointer t) else slot t (instructionsTop t - 1))"

definition tbl_get_by_pos :: "nat \<Rightarrow> instr_table \<Rightarrow> nat option" where
  "tbl_get_by_pos position t =
     (if position = instructionsTop t then Some (exit_pointer t)
      else if position > instructionsTop t then None
      else slot t position)"

definition tbl_get_first :: "instr_table \<Rightarrow> nat option" where
  "tbl_get_first t = (if 0 < instructionsTop t then slot t 0 else None)"

definition tbl_get_next :: "nat \<Rightarrow> instr_table \<Rightarrow> nat option" where
  "tbl_get_next p t =
     (case tbl_get_last t of
        None \<Rightarrow> None
      | Some l \<Rightarrow>
          if p = l then Some (exit_pointer t)
          else if p = exit_pointer t then None
          else do { i \<leftarrow> get_ID t p; assertion (i + 1 < instructionsTop t); slot t (i + 1) })"

definition tbl_get_prev :: "nat \<Rightarrow> instr_table \<Rightarrow> nat option" where
  "tbl_get_prev p t = do { i \<leftarrow> get_ID t p; if i = 0 then None else slot t (i - 1) }"

text \<open>\<open>IRMETHOD_doesInstructionBelongToMethod\<close> compares pointers, the exit node included.\<close>

definition belongs :: "nat \<Rightarrow> instr_table \<Rightarrow> bool" where
  "belongs p t \<longleftrightarrow> list_ex (\<lambda>i. tbl_get_by_pos i t = Some p) [0..<instructionsTop t + 1]"

section \<open>Creation\<close>

text \<open>\<open>method->instructions[i] != NULL && method->instructions[i]->metadata != NULL\<close>\<close>

definition slot_has_metadata :: "instr_table \<Rightarrow> nat \<Rightarrow> bool option" where
  "slot_has_metadata t i =
     (if i < length (slots t) then
        case slots t ! i of None \<Rightarrow> Some False | Some p \<Rightarrow> map_option cell_metadata (heap t p)
      else None)"

definition need_metadata :: "instr_table \<Rightarrow> bool option" where
  "need_metadata t = do {
     a \<leftarrow> slot_has_metadata t 0;
     if a then Some True else slot_has_metadata t 1
   }"

definition allocate_cell :: "inst_cell \<Rightarrow> instr_table \<Rightarrow> nat \<times> instr_table" where
  "allocate_cell c t =
     (next_address t, t\<lparr>heap := (heap t)(next_address t \<mapsto> c), next_address := next_address t + 1\<rparr>)"

definition ir_instr_make :: "instr_table \<Rightarrow> (nat \<times> instr_table) option" where
  "ir_instr_make t = do {
     let t = t\<lparr>valid_optimization := 0\<rparr>;
     allocateMetadata \<leftarrow> need_metadata t;
     Some (allocate_cell
       \<lparr>cell_ID = 2 ^ 32 - 1, cell_metadata = allocateMetadata, cell_body = IRLang.ir_instr_init\<rparr> t)
   }"

definition ir_instr_insert :: "nat \<Rightarrow> instr_table \<Rightarrow> instr_table option" where
  "ir_instr_insert p t = do {
     assertion (instructionsTop t \<le> instructionsAllocated t);
     t \<leftarrow> ir_instr_check_new_space t;
     t \<leftarrow> set_slot (instructionsTop t) (Some p) t;
     t \<leftarrow> set_ID p (instructionsTop t) t;
     let t = t\<lparr>instructionsTop := u32_add (instructionsTop t) 1\<rparr>;
     update_exit_node_ID t
   }"

definition ir_instr_insert_before :: "nat \<Rightarrow> nat option \<Rightarrow> instr_table \<Rightarrow> instr_table option" where
  "ir_instr_insert_before p prev t =
     (case prev of
        None \<Rightarrow> ir_instr_insert p t
      | Some q \<Rightarrow> do {
          freeSpace \<leftarrow> get_ID t q;
          assertion (freeSpace \<le> instructionsTop t);
          t \<leftarrow> ir_instr_check_new_space t;
          let delta = u32_sub (instructionsTop t) freeSpace;
          t \<leftarrow> (if delta > 0 then do {
                 t \<leftarrow> move_slots (freeSpace + 1) freeSpace delta t;
                 assertion (slot t (freeSpace + 1) = Some q);
                 shift_IDs (\<lambda>n. u32_add n 1) [freeSpace + 1..<instructionsTop t + 1] t
               } else Some t);
          t \<leftarrow> set_slot freeSpace (Some p) t;
          t \<leftarrow> set_ID p freeSpace t;
          let t = t\<lparr>instructionsTop := u32_add (instructionsTop t) 1\<rparr>;
          update_exit_node_ID t
        })"

definition ir_instr_new :: "instr_table \<Rightarrow> (nat \<times> instr_table) option" where
  "ir_instr_new t = do {
     (p, t) \<leftarrow> ir_instr_make (t\<lparr>method_modified := True\<rparr>);
     t \<leftarrow> ir_instr_insert p t;
     Some (p, t\<lparr>valid_optimization := 0\<rparr>)
   }"

definition ir_instr_new_before :: "nat option \<Rightarrow> instr_table \<Rightarrow> (nat \<times> instr_table) option" where
  "ir_instr_new_before prev t = do {
     (p, t) \<leftarrow> ir_instr_make t;
     t \<leftarrow> ir_instr_insert_before p prev t;
     Some (p, t\<lparr>valid_optimization := 0\<rparr>)
   }"

section \<open>Deletion\<close>

definition ir_instr_delete :: "nat \<Rightarrow> instr_table \<Rightarrow> instr_table option" where
  "ir_instr_delete p t = do {
     assertion (belongs p t);
     i \<leftarrow> get_ID t p;
     t \<leftarrow> set_slot i None t;
     let delta = u32_sub (u32_sub (instructionsTop t) i) 1;
     t \<leftarrow> (if delta > 0 then do {
            t \<leftarrow> move_slots i (i + 1) delta t;
            shift_IDs (\<lambda>n. u32_sub n 1) [i..<instructionsTop t - 1] t
          } else Some t);
     let t = t\<lparr>instructionsTop := u32_sub (instructionsTop t) 1\<rparr>;
     let t = t\<lparr>heap := (heap t)(p := None)\<rparr>;
     t \<leftarrow> update_exit_node_ID t;
     t \<leftarrow> ir_instr_check_new_space t;
     Some (t\<lparr>valid_optimization := 0\<rparr>)
   }"

text \<open>
  The loop that deletes the last element until none is left, over the operations it calls, with a bound
  on the rounds.
\<close>

fun drain :: "('s \<Rightarrow> nat) \<Rightarrow> ('s \<Rightarrow> 'p option) \<Rightarrow> ('p \<Rightarrow> 's \<Rightarrow> 's option) \<Rightarrow> nat \<Rightarrow> 's \<Rightarrow> 's option" where
  "drain size_of last_of del 0 t = (if size_of t = 0 then Some t else None)"
| "drain size_of last_of del (Suc k) t =
     (if size_of t = 0 then Some t
      else do {
        p \<leftarrow> last_of t;
        t \<leftarrow> del p t;
        drain size_of last_of del k t
      })"

definition last_not_exit :: "instr_table \<Rightarrow> nat option" where
  "last_not_exit t = do {
     p \<leftarrow> tbl_get_last t;
     assertion (p \<noteq> exit_pointer t);
     Some p
   }"

text \<open>Every round removes one instruction, so there are \<open>instructionsTop\<close> rounds.\<close>

definition ir_instr_delete_all :: "instr_table \<Rightarrow> instr_table option" where
  "ir_instr_delete_all t =
     (if instructionsTop t = 0 then Some t
      else do {
        t \<leftarrow> drain instructionsTop last_not_exit ir_instr_delete (instructionsTop t) t;
        assertion (instructionsTop t = 0);
        Some (t\<lparr>slots := replicate (length (slots t)) None\<rparr>)
      })"

text \<open>\<open>ir_instr_erase\<close> resets the contents and keeps the position and the metadata.\<close>

definition ir_instr_erase :: "nat \<Rightarrow> instr_table \<Rightarrow> instr_table option" where
  "ir_instr_erase p t =
     map_option (\<lambda>c. t\<lparr>heap := (heap t)(p \<mapsto> c\<lparr>cell_body := IRLang.ir_instr_init\<rparr>), valid_optimization := 0\<rparr>)
       (heap t p)"

section \<open>Movement\<close>

definition remove_and_insert_before :: "nat \<Rightarrow> nat \<Rightarrow> instr_table \<Rightarrow> instr_table option" where
  "remove_and_insert_before p q t = do {
     i \<leftarrow> get_ID t p;
     t \<leftarrow> set_slot i None t;
     t \<leftarrow> move_slots i (i + 1) (u32_sub (u32_sub (instructionsTop t) i) 1) t;
     t \<leftarrow> shift_IDs (\<lambda>n. u32_sub n 1) [i..<instructionsTop t - 1] t;
     let t = t\<lparr>instructionsTop := u32_sub (instructionsTop t) 1\<rparr>;
     freeSpace \<leftarrow> get_ID t q;
     t \<leftarrow> move_slots (freeSpace + 1) freeSpace (u32_sub (instructionsTop t) freeSpace) t;
     assertion (slot t freeSpace = Some q \<and> slot t (freeSpace + 1) = Some q);
     t \<leftarrow> shift_IDs (\<lambda>n. u32_add n 1) [freeSpace + 1..<instructionsTop t + 1] t;
     t \<leftarrow> set_slot freeSpace (Some p) t;
     t \<leftarrow> set_ID p freeSpace t;
     Some (t\<lparr>instructionsTop := u32_add (instructionsTop t) 1\<rparr>)
   }"

text \<open>
  \<open>ir_instr_move_before\<close> and \<open>ir_instr_move_after\<close> call each other: the first one calls the second when
  the destination is the exit node, and then with the last instruction, where the second one
  creates a temporary instruction and calls the first one with it. The inner call is never with the exit
  node, so \<open>move_before_inner\<close> is the first function for the other destinations.
\<close>

definition assert_destination :: "nat \<Rightarrow> nat \<Rightarrow> instr_table \<Rightarrow> unit option" where
  "assert_destination q j t = do {
     r \<leftarrow> slot t j;
     c \<leftarrow> heap t q;
     assertion (r = q \<or> inst_type (cell_body c) = IREXITNODE)
   }"

definition move_before_inner :: "nat \<Rightarrow> nat \<Rightarrow> instr_table \<Rightarrow> instr_table option" where
  "move_before_inner p q t = do {
     assertion (p \<noteq> q);
     i \<leftarrow> get_ID t p;
     j \<leftarrow> get_ID t q;
     assertion (i < instructionsTop t \<and> j \<le> instructionsTop t \<and> slot t i = Some p);
     let t = t\<lparr>valid_optimization := 0\<rparr>;
     assertion (j \<noteq> instructionsTop t);
     assert_destination q j t;
     remove_and_insert_before p q t
   }"

definition ir_instr_move_after :: "nat \<Rightarrow> nat \<Rightarrow> instr_table \<Rightarrow> instr_table option" where
  "ir_instr_move_after p q t = do {
     assertion (p \<noteq> q);
     i \<leftarrow> get_ID t p;
     j \<leftarrow> get_ID t q;
     assertion (i < instructionsTop t \<and> j < instructionsTop t \<and> slot t i = Some p \<and> slot t j = Some q);
     if i = j + 1 then Some t
     else do {
       let t = t\<lparr>valid_optimization := 0\<rparr>;
       if j = instructionsTop t - 1 then do {
         (temp, t) \<leftarrow> ir_instr_new t;
         t \<leftarrow> move_before_inner p temp t;
         ir_instr_delete temp t
       } else do {
         temp \<leftarrow> slot t (j + 1);
         move_before_inner p temp t
       }
     }
   }"

definition ir_instr_move_before :: "nat \<Rightarrow> nat \<Rightarrow> instr_table \<Rightarrow> instr_table option" where
  "ir_instr_move_before p q t = do {
     assertion (p \<noteq> q);
     i \<leftarrow> get_ID t p;
     j \<leftarrow> get_ID t q;
     assertion (i < instructionsTop t \<and> j \<le> instructionsTop t \<and> slot t i = Some p);
     let t = t\<lparr>valid_optimization := 0\<rparr>;
     if j = instructionsTop t then do {
       l \<leftarrow> tbl_get_last t;
       if p \<noteq> l then ir_instr_move_after p l t else Some t
     } else do {
       assert_destination q j t;
       remove_and_insert_before p q t
     }
   }"

definition ir_instr_new_after :: "nat option \<Rightarrow> instr_table \<Rightarrow> (nat \<times> instr_table) option" where
  "ir_instr_new_after succ t = do {
     (p, t) \<leftarrow> ir_instr_make t;
     t \<leftarrow> ir_instr_insert p t;
     t \<leftarrow> (case succ of None \<Rightarrow> Some t | Some q \<Rightarrow> ir_instr_move_after p q t);
     Some (p, t\<lparr>valid_optimization := 0\<rparr>)
   }"

definition ir_instr_clone :: "nat \<Rightarrow> instr_table \<Rightarrow> (nat \<times> instr_table) option" where
  "ir_instr_clone q t = do {
     (p, t) \<leftarrow> ir_instr_make t;
     t \<leftarrow> ir_instr_insert p t;
     c \<leftarrow> heap t q;
     d \<leftarrow> heap t p;
     Some (p, t\<lparr>heap := (heap t)(p \<mapsto> d\<lparr>cell_body := cell_body c\<rparr>), valid_optimization := 0\<rparr>)
   }"

section \<open>The interface of the IR manager\<close>

text \<open>The exported operations record first that the method was modified.\<close>

definition touch :: "instr_table \<Rightarrow> instr_table" where
  "touch t = t\<lparr>method_modified := True\<rparr>"

definition IRMETHOD_newInstruction :: "instr_table \<Rightarrow> (nat \<times> instr_table) option" where
  "IRMETHOD_newInstruction t = ir_instr_new (touch t)"

definition IRMETHOD_newInstructionBefore :: "nat option \<Rightarrow> instr_table \<Rightarrow> (nat \<times> instr_table) option" where
  "IRMETHOD_newInstructionBefore prev t = ir_instr_new_before prev (touch t)"

definition IRMETHOD_newInstructionAfter :: "nat option \<Rightarrow> instr_table \<Rightarrow> (nat \<times> instr_table) option" where
  "IRMETHOD_newInstructionAfter prev t = ir_instr_new_after prev (touch t)"

definition set_type :: "nat \<Rightarrow> nat \<Rightarrow> instr_table \<Rightarrow> instr_table option" where
  "set_type p ty t = map_option (\<lambda>c. t\<lparr>heap := (heap t)(p \<mapsto>
     c\<lparr>cell_body := (cell_body c)\<lparr>inst_type := ty mod 2 ^ 16\<rparr>\<rparr>)\<rparr>) (heap t p)"

definition IRMETHOD_newInstructionOfType :: "nat \<Rightarrow> instr_table \<Rightarrow> (nat \<times> instr_table) option" where
  "IRMETHOD_newInstructionOfType instructionType t = do {
     (p, t) \<leftarrow> ir_instr_new (touch t);
     t \<leftarrow> set_type p instructionType t;
     Some (p, t)
   }"

definition IRMETHOD_newInstructionOfTypeBefore :: "nat option \<Rightarrow> nat \<Rightarrow> instr_table \<Rightarrow> (nat \<times> instr_table) option" where
  "IRMETHOD_newInstructionOfTypeBefore prev instructionType t = do {
     (p, t) \<leftarrow> ir_instr_new_before prev (touch t);
     t \<leftarrow> set_type p instructionType t;
     Some (p, t)
   }"

definition IRMETHOD_newInstructionOfTypeAfter :: "nat option \<Rightarrow> nat \<Rightarrow> instr_table \<Rightarrow> (nat \<times> instr_table) option" where
  "IRMETHOD_newInstructionOfTypeAfter prev instructionType t = do {
     (p, t) \<leftarrow> ir_instr_new_after prev (touch t);
     t \<leftarrow> set_type p instructionType t;
     Some (p, t)
   }"

definition IRMETHOD_cloneInstruction :: "nat \<Rightarrow> instr_table \<Rightarrow> (nat \<times> instr_table) option" where
  "IRMETHOD_cloneInstruction instToClone t = ir_instr_clone instToClone (touch t)"

text \<open>Cloning and moving, over the operations of the instruction sequence it calls.\<close>

definition clone_and_move ::
  "('p \<Rightarrow> 's \<Rightarrow> ('p \<times> 's) option) \<Rightarrow> ('p \<Rightarrow> 'p \<Rightarrow> 's \<Rightarrow> 's option) \<Rightarrow> 'p \<Rightarrow> 'p \<Rightarrow> 's \<Rightarrow> ('p \<times> 's) option" where
  "clone_and_move clone_op move_op q b t = do {
     (i, t) \<leftarrow> clone_op q t;
     t \<leftarrow> move_op i b t;
     Some (i, t)
   }"

definition IRMETHOD_cloneInstructionAndInsertAfter :: "nat \<Rightarrow> nat \<Rightarrow> instr_table \<Rightarrow> (nat \<times> instr_table) option" where
  "IRMETHOD_cloneInstructionAndInsertAfter instToClone afterInst t =
     clone_and_move ir_instr_clone ir_instr_move_after instToClone afterInst (touch t)"

definition IRMETHOD_cloneInstructionAndInsertBefore :: "nat \<Rightarrow> nat \<Rightarrow> instr_table \<Rightarrow> (nat \<times> instr_table) option" where
  "IRMETHOD_cloneInstructionAndInsertBefore instToClone beforeInst t =
     clone_and_move ir_instr_clone ir_instr_move_before instToClone beforeInst (touch t)"

definition IRMETHOD_moveInstructionAfter :: "nat \<Rightarrow> nat \<Rightarrow> instr_table \<Rightarrow> instr_table option" where
  "IRMETHOD_moveInstructionAfter inst succ t = ir_instr_move_after inst succ (touch t)"

definition IRMETHOD_moveInstructionBefore :: "nat \<Rightarrow> nat \<Rightarrow> instr_table \<Rightarrow> instr_table option" where
  "IRMETHOD_moveInstructionBefore inst prev t = ir_instr_move_before inst prev (touch t)"

definition IRMETHOD_deleteInstruction :: "nat \<Rightarrow> instr_table \<Rightarrow> instr_table option" where
  "IRMETHOD_deleteInstruction inst t = ir_instr_delete inst (touch t)"

definition IRMETHOD_deleteInstructions :: "instr_table \<Rightarrow> instr_table option" where
  "IRMETHOD_deleteInstructions t = ir_instr_delete_all (touch t)"

text \<open>
  The dummy instructions that define the parameters: position after position, an \<open>IRNOP\<close> is put
  in front of whatever else is there. The loop of \<open>ir_method_insert_dummy_instruction\<close>.
\<close>

definition instruction_type :: "nat \<Rightarrow> instr_table \<Rightarrow> nat option" where
  "instruction_type p t = map_option (\<lambda>c. inst_type (cell_body c)) (heap t p)"

definition insert_dummy_at :: "nat \<Rightarrow> instr_table \<Rightarrow> instr_table option" where
  "insert_dummy_at count t =
     (case tbl_get_by_pos count t of
        Some q \<Rightarrow> do {
          ty \<leftarrow> instruction_type q t;
          if ty = IRNOP then Some t
          else do {
            (p, t) \<leftarrow> ir_instr_new_before (Some q) t;
            i \<leftarrow> get_ID t p;
            assertion (i = count);
            set_type p IRNOP t
          }
        }
      | None \<Rightarrow> do {
          (p, t) \<leftarrow> ir_instr_new t;
          i \<leftarrow> get_ID t p;
          assertion (i = count);
          set_type p IRNOP t
        })"

fun insert_dummies :: "nat list \<Rightarrow> instr_table \<Rightarrow> instr_table option" where
  "insert_dummies [] t = Some t"
| "insert_dummies (count # counts) t = do { t \<leftarrow> insert_dummy_at count t; insert_dummies counts t }"

definition ir_method_insert_dummy_instruction :: "nat \<Rightarrow> instr_table \<Rightarrow> instr_table option" where
  "ir_method_insert_dummy_instruction n t = insert_dummies [0..<n] t"

section \<open>A new method\<close>

text \<open>\<open>IRMETHOD_init\<close>: a buffer of two slots, the exit node, and one \<open>IRNOP\<close>.\<close>

definition empty_table :: instr_table where
  "empty_table = \<lparr>heap = [0 \<mapsto> \<lparr>cell_ID = 0, cell_metadata = False, cell_body = exit_node\<rparr>],
     next_address = 1, slots = [None, None], exit_pointer = 0, instructionsTop = 0,
     instructionsAllocated = 2, valid_optimization = 0, method_modified = False\<rparr>"

definition IRMETHOD_init :: "instr_table option" where
  "IRMETHOD_init = map_option snd (IRMETHOD_newInstructionOfType IRNOP empty_table)"

end
