(* ===== verification/TableInvariant.thy ===== *)
theory TableInvariant
  imports InstrTable
begin

text \<open>
  The invariant of the buffer of instructions, and for every operation of \<open>InstrTable\<close> a lemma that it
  succeeds on a well-formed buffer, keeps it well formed and changes the sequence of instructions like
  the operation on lists. \<open>open_gap\<close> and \<open>close_gap\<close> carry the movement of slots that insertion, deletion and
  movement share.
\<close>

section \<open>Invariant\<close>

text \<open>
  The buffer of \<open>t\<close> holds the instructions \<open>ps\<close>, in order, followed by slots without meaning; every
  instruction carries its position, the exit node the number of instructions.
\<close>

fun ids_from :: "(nat \<Rightarrow> inst_cell option) \<Rightarrow> nat \<Rightarrow> nat list \<Rightarrow> bool" where
  "ids_from h k [] \<longleftrightarrow> True"
| "ids_from h k (p # ps) \<longleftrightarrow> map_option cell_ID (h p) = Some k \<and> ids_from h (Suc k) ps"

definition table_inv :: "instr_table \<Rightarrow> nat list \<Rightarrow> bool" where
  "table_inv t ps \<longleftrightarrow>
     instructionsTop t = length ps \<and> instructionsAllocated t = length (slots t) \<and>
     2 \<le> length (slots t) \<and> length (slots t) \<le> length ps + 50 \<and> (\<exists>rest. slots t = map Some ps @ rest) \<and>
     distinct (ps @ [exit_pointer t]) \<and> ids_from (heap t) 0 (ps @ [exit_pointer t]) \<and>
     (\<forall>p. heap t p \<noteq> None \<longrightarrow> p < next_address t)"

text \<open>What an instruction holds besides its position.\<close>

definition content :: "instr_table \<Rightarrow> nat \<Rightarrow> (bool \<times> ir_instruction) option" where
  "content t p = map_option (\<lambda>c. (cell_metadata c, cell_body c)) (heap t p)"

text \<open>The pointers \<open>ir_instr_make\<close> follows are valid.\<close>

definition metadata_readable :: "instr_table \<Rightarrow> bool" where
  "metadata_readable t \<longleftrightarrow>
     (\<forall>i<2. i < length (slots t) \<and> (\<forall>p. slots t ! i = Some p \<longrightarrow> heap t p \<noteq> None))"

text \<open>Room for more instructions below the limit of 32 bits.\<close>

definition capacity :: "nat list \<Rightarrow> bool" where
  "capacity ps \<longleftrightarrow> length ps + 100 < 2 ^ 32"

section \<open>Positions\<close>

lemma ids_from_append:
  "ids_from h k (xs @ ys) \<longleftrightarrow> ids_from h k xs \<and> ids_from h (k + length xs) ys"
  by (induction xs arbitrary: k) auto

lemma ids_from_cong:
  "(\<And>p. p \<in> set ps \<Longrightarrow> map_option cell_ID (h p) = map_option cell_ID (h' p)) \<Longrightarrow>
   ids_from h k ps = ids_from h' k ps"
  by (induction ps arbitrary: k) auto

lemma ids_from_dom: "ids_from h k ps \<Longrightarrow> p \<in> set ps \<Longrightarrow> \<exists>c. h p = Some c"
  by (induction ps arbitrary: k) auto

lemma ids_from_nth: "ids_from h k ps \<Longrightarrow> i < length ps \<Longrightarrow> map_option cell_ID (h (ps ! i)) = Some (k + i)"
proof (induction ps arbitrary: k i)
  case (Cons p ps)
  then show ?case using Cons.IH [of "Suc k" "i - 1"] by (cases i) auto
qed simp

definition bump :: "(nat \<Rightarrow> nat) \<Rightarrow> nat list \<Rightarrow> (nat \<Rightarrow> inst_cell option) \<Rightarrow> nat \<Rightarrow> inst_cell option" where
  "bump f ps h p = (if p \<in> set ps then map_option (cell_ID_update f) (h p) else h p)"

lemma bump_Nil [simp]: "bump f [] h = h"
  by (simp add: bump_def fun_eq_iff)

lemma bump_other [simp]: "p \<notin> set ps \<Longrightarrow> bump f ps h p = h p"
  by (simp add: bump_def)

lemma map_option_bump [simp]: "bump f ps h p = None \<longleftrightarrow> h p = None"
  by (simp add: bump_def)

lemma bump_SomeD: "bump f ps h p = Some c \<Longrightarrow> \<exists>c. h p = Some c"
  by (auto simp: bump_def split: if_splits)

lemma content_bump [simp]:
  "map_option (\<lambda>c. (cell_metadata c, cell_body c)) (bump f ps h p) =
   map_option (\<lambda>c. (cell_metadata c, cell_body c)) (h p)"
  by (cases "h p") (simp_all add: bump_def)

lemma ids_from_bump:
  assumes "ids_from h k ps" and "\<And>i. i < length ps \<Longrightarrow> f (k + i) = k' + i" and "set ps \<subseteq> set S"
  shows "ids_from (bump f S h) k' ps"
  using assms
proof (induction ps arbitrary: k k')
  case (Cons p ps)
  have "ids_from (bump f S h) (Suc k') ps"
    using Cons.prems Cons.prems(2) [of "Suc _"] by (intro Cons.IH [of "Suc k"]) auto
  moreover have "map_option cell_ID (bump f S h p) = Some k'"
    using Cons.prems(1,3) Cons.prems(2) [of 0] by (auto simp: bump_def)
  ultimately show ?case by simp
qed simp

lemma ids_from_bump_other: "set ps \<inter> set S = {} \<Longrightarrow> ids_from (bump f S h) k ps = ids_from h k ps"
  by (rule ids_from_cong) (simp add: bump_def disjoint_iff)

text \<open>The loops over the positions.\<close>

lemma shift_IDs_eq:
  assumes "slots t = zs @ map Some ps @ rest" and "distinct ps" and "\<forall>p\<in>set ps. heap t p \<noteq> None"
  shows "shift_IDs f [length zs..<length zs + length ps] t = Some (t\<lparr>heap := bump f ps (heap t)\<rparr>)"
  using assms
proof (induction ps arbitrary: zs t)
  case (Cons p ps)
  obtain c where c: "heap t p = Some c" using Cons.prems(3) by auto
  let ?t = "t\<lparr>heap := (heap t)(p \<mapsto> c\<lparr>cell_ID := f (cell_ID c)\<rparr>)\<rparr>"
  have "shift_IDs f [length (zs @ [Some p])..<length (zs @ [Some p]) + length ps] ?t =
      Some (?t\<lparr>heap := bump f ps (heap ?t)\<rparr>)"
    using Cons.prems by (intro Cons.IH) auto
  moreover have "bump f ps (heap ?t) = bump f (p # ps) (heap t)"
    using Cons.prems(2) c by (auto simp: bump_def fun_eq_iff)
  ultimately show ?case
    using Cons.prems(1) c
    by (simp add: upt_conv_Cons slot_def get_ID_def set_ID_def nth_append del: upt_Suc)
qed simp

section \<open>Moving slots\<close>

lemma move_slots_open:
  assumes "slots t = map Some xs @ map Some ys @ z # rest"
  shows "\<exists>w. w = hd (map Some ys @ [z]) \<and> move_slots (length xs + 1) (length xs) (length ys) t =
    Some (t\<lparr>slots := map Some xs @ w # map Some ys @ rest\<rparr>)"
proof -
  have "take (length xs + 1) (slots t) = map Some xs @ [hd (map Some ys @ [z])]"
    using assms by (cases ys) auto
  moreover have "take (length ys) (drop (length xs) (slots t)) = map Some ys" using assms by simp
  moreover have "drop (length xs + 1 + length ys) (slots t) = rest" using assms by simp
  ultimately show ?thesis using assms by (auto simp: move_slots_def)
qed

lemma move_slots_close:
  assumes "slots t = map Some xs @ z # map Some ys @ rest"
  shows "\<exists>w. w = last (z # map Some ys) \<and> move_slots (length xs) (length xs + 1) (length ys) t =
    Some (t\<lparr>slots := map Some xs @ map Some ys @ w # rest\<rparr>)"
proof -
  have "take (length xs) (slots t) = map Some xs" using assms by simp
  moreover have "take (length ys) (drop (length xs + 1) (slots t)) = map Some ys" using assms by simp
  moreover have "drop (length xs + length ys) (slots t) = last (z # map Some ys) # rest"
    using assms by (cases ys rule: rev_cases) auto
  ultimately show ?thesis using assms by (auto simp: move_slots_def)
qed

lemma open_gap:
  assumes "slots t = map Some xs @ map Some ys @ z # rest" and "distinct ys"
    and "\<forall>p\<in>set ys. heap t p \<noteq> None"
  shows "\<exists>w. w = hd (map Some ys @ [z]) \<and> move_slots (length xs + 1) (length xs) (length ys) t =
      Some (t\<lparr>slots := map Some xs @ w # map Some ys @ rest\<rparr>) \<and>
    shift_IDs f [length xs + 1..<length xs + length ys + 1] (t\<lparr>slots := map Some xs @ w # map Some ys @ rest\<rparr>) =
      Some (t\<lparr>slots := map Some xs @ w # map Some ys @ rest, heap := bump f ys (heap t)\<rparr>)"
proof -
  obtain w where w0: "w = hd (map Some ys @ [z])" and w: "move_slots (length xs + 1) (length xs) (length ys) t =
      Some (t\<lparr>slots := map Some xs @ w # map Some ys @ rest\<rparr>)" (is "_ = Some ?t")
    using move_slots_open [OF assms(1)] by blast
  have "shift_IDs f [length (map Some xs @ [w])..<length (map Some xs @ [w]) + length ys] ?t =
      Some (?t\<lparr>heap := bump f ys (heap ?t)\<rparr>)"
    using assms(2,3) by (intro shift_IDs_eq [where rest = rest]) auto
  with w w0 show ?thesis by (intro exI [of _ w]) (simp del: upt_Suc)
qed

lemma close_gap:
  assumes "slots t = map Some xs @ z # map Some ys @ rest" and "distinct ys"
    and "\<forall>p\<in>set ys. heap t p \<noteq> None"
  shows "\<exists>w. w = last (z # map Some ys) \<and> move_slots (length xs) (length xs + 1) (length ys) t =
      Some (t\<lparr>slots := map Some xs @ map Some ys @ w # rest\<rparr>) \<and>
    shift_IDs f [length xs..<length xs + length ys] (t\<lparr>slots := map Some xs @ map Some ys @ w # rest\<rparr>) =
      Some (t\<lparr>slots := map Some xs @ map Some ys @ w # rest, heap := bump f ys (heap t)\<rparr>)"
proof -
  obtain w where w0: "w = last (z # map Some ys)" and w: "move_slots (length xs) (length xs + 1) (length ys) t =
      Some (t\<lparr>slots := map Some xs @ map Some ys @ w # rest\<rparr>)" (is "_ = Some ?t")
    using move_slots_close [OF assms(1)] by blast
  have "shift_IDs f [length (map Some xs)..<length (map Some xs) + length ys] ?t =
      Some (?t\<lparr>heap := bump f ys (heap ?t)\<rparr>)"
    using assms(2,3) by (intro shift_IDs_eq [where rest = "w # rest"]) auto
  with w w0 show ?thesis by (intro exI [of _ w]) (simp del: upt_Suc)
qed

section \<open>The buffer grows and shrinks\<close>

lemma u32_add_small: "a + b < 2 ^ 32 \<Longrightarrow> u32_add a b = a + b"
  by (simp add: u32_add_def)

lemma u32_sub_small: "b \<le> a \<Longrightarrow> a < 2 ^ 32 \<Longrightarrow> u32_sub a b = a - b"
  unfolding u32_sub_def by (simp only: diff_add_assoc2 mod_add_self2) simp

lemma check_new_space_eq:
  assumes r: "slots t = map Some ps @ rest" and n: "instructionsTop t = length ps"
    and a: "instructionsAllocated t = length ps + length rest" and b: "length rest \<le> 51"
    and cap: "capacity ps"
  shows "\<exists>rest'. rest' \<noteq> [] \<and> length rest' \<le> 50 \<and> ir_instr_check_new_space t =
      Some (t\<lparr>slots := map Some ps @ rest', instructionsAllocated := length ps + length rest'\<rparr>) \<and>
    (2 \<le> length ps + length rest \<longrightarrow> 2 \<le> length ps + length rest') \<and>
    (\<forall>i<2. i < length rest \<longrightarrow> i < length rest' \<and> rest' ! i = rest ! i)"
proof -
  have c: "length ps + 100 < 2 ^ 32" using cap by (simp add: capacity_def)
  show ?thesis
  proof (cases "rest = []")
    case True
    then show ?thesis
      using r n a c
      by (intro exI [of _ "replicate 50 None"])
        (simp add: ir_instr_check_new_space_def assertion_def resize_def u32_add_def)
  next
    case False
    show ?thesis
    proof (cases "length ps < u32_sub (length ps + length rest) 50")
      case True
      with False show ?thesis
        using r n a b c
        by (intro exI [of _ "take 10 rest @ replicate (10 - length rest) None"])
          (auto simp: ir_instr_check_new_space_def assertion_def resize_def u32_add_def min_def nth_append)
    next
      case small: False
      then have "length rest \<noteq> 51" using c by (auto simp: u32_sub_small)
      with b have "length rest \<le> 50" by simp
      with small False show ?thesis
        using r n a
        by (intro exI [of _ rest]) (cases t; auto simp: ir_instr_check_new_space_def assertion_def)
    qed
  qed
qed

lemma check_new_space_inv:
  assumes "table_inv t ps" and "capacity ps"
  shows "\<exists>rest. rest \<noteq> [] \<and> length rest \<le> 50 \<and> ir_instr_check_new_space t =
      Some (t\<lparr>slots := map Some ps @ rest, instructionsAllocated := length ps + length rest\<rparr>) \<and>
    2 \<le> length ps + length rest \<and> (ps = [] \<longrightarrow> 1 < length rest \<and> rest ! 1 = slots t ! 1)"
proof -
  obtain rest where r: "slots t = map Some ps @ rest" using assms(1) by (auto simp: table_inv_def)
  obtain rest' where "rest' \<noteq> []" "length rest' \<le> 50" "ir_instr_check_new_space t =
      Some (t\<lparr>slots := map Some ps @ rest', instructionsAllocated := length ps + length rest'\<rparr>)"
    "2 \<le> length ps + length rest \<longrightarrow> 2 \<le> length ps + length rest'"
    "\<forall>i<2. i < length rest \<longrightarrow> i < length rest' \<and> rest' ! i = rest ! i"
    using check_new_space_eq [of t ps rest] r assms by (auto simp: table_inv_def)
  with r assms(1) show ?thesis by (intro exI [of _ rest']) (auto simp: table_inv_def)
qed

lemma readable_cases:
  assumes "table_inv t ps"
    and "\<And>i p. length ps \<le> i \<Longrightarrow> i < 2 \<Longrightarrow> slots t ! i = Some p \<Longrightarrow> heap t p \<noteq> None"
  shows "metadata_readable t"
proof -
  have "heap t p \<noteq> None" if "i < 2" "slots t ! i = Some p" for i p
  proof (cases "i < length ps")
    case True
    then have "p \<in> set ps" using assms(1) that(2) by (auto simp: table_inv_def nth_append)
    then show ?thesis using assms(1) ids_from_dom [of "heap t" 0 "ps @ [exit_pointer t]" p] by (auto simp: table_inv_def)
  next
    case False
    then show ?thesis using assms(2) [of i p] that by simp
  qed
  then show ?thesis using assms(1) by (auto simp: metadata_readable_def table_inv_def)
qed

lemma readable_need_metadata:
  assumes "metadata_readable t"
  shows "\<exists>b. need_metadata t = Some b"
proof -
  have "\<exists>b. slot_has_metadata t i = Some b" if "i < 2" for i
    using assms that by (auto simp: metadata_readable_def slot_has_metadata_def split: option.split)
  from this [of 0] this [of 1] show ?thesis by (auto simp: need_metadata_def)
qed

section \<open>Insertion\<close>

lemma ids_insert:
  assumes "ids_from h 0 (xs @ ys @ [e])" and "distinct (xs @ p # ys @ [e])"
    and "length xs + length ys + 100 < 2 ^ 32"
  shows "ids_from (((bump (\<lambda>n. u32_add n 1) ys h)(p \<mapsto> c\<lparr>cell_ID := length xs\<rparr>))
      (e \<mapsto> ce\<lparr>cell_ID := Suc (length xs + length ys)\<rparr>)) 0 (xs @ p # ys @ [e])"
    (is "ids_from ?h _ _")
proof -
  have "ids_from ?h 0 xs = ids_from h 0 xs"
    using assms(2) by (intro ids_from_cong) (auto simp: disjoint_iff bump_def)
  moreover have "ids_from ?h (Suc (length xs)) ys = ids_from (bump (\<lambda>n. u32_add n 1) ys h) (Suc (length xs)) ys"
    using assms(2) by (intro ids_from_cong) auto
  moreover have "ids_from (bump (\<lambda>n. u32_add n 1) ys h) (Suc (length xs)) ys"
    using assms(1,3) by (intro ids_from_bump [of h "length xs"]) (auto simp: ids_from_append u32_add_small)
  ultimately show ?thesis using assms(1,2) by (auto simp: ids_from_append)
qed

lemma insert_before_eq:
  assumes inv: "table_inv t (xs @ ys)" and cap: "capacity (xs @ ys)"
    and p: "p \<notin> set (xs @ ys)" "p \<noteq> exit_pointer t" "heap t p = Some c"
    and q: "q = hd (ys @ [exit_pointer t])"
  shows "\<exists>t'. ir_instr_insert_before p (Some q) t = Some t' \<and> table_inv t' (xs @ p # ys) \<and>
    content t' = content t \<and> exit_pointer t' = exit_pointer t \<and> next_address t' = next_address t \<and>
    (metadata_readable t \<longrightarrow> metadata_readable t')"
proof -
  obtain rest where r: "rest \<noteq> []" "length rest \<le> 50" and chk: "ir_instr_check_new_space t =
      Some (t\<lparr>slots := map Some (xs @ ys) @ rest, instructionsAllocated := length (xs @ ys) + length rest\<rparr>)"
    (is "_ = Some ?t") and two: "2 \<le> length (xs @ ys) + length rest"
    and one: "xs @ ys = [] \<Longrightarrow> 1 < length rest \<and> rest ! 1 = slots t ! 1"
    using check_new_space_inv [OF inv cap] by blast
  obtain z rest' where z: "rest = z # rest'" using r(1) by (cases rest) auto
  note i = inv [unfolded table_inv_def]
  have ids: "ids_from (heap t) 0 (xs @ ys @ [exit_pointer t])" using i by simp
  have d: "distinct (xs @ p # ys @ [exit_pointer t])" using i p by auto
  have top: "instructionsTop t = length xs + length ys" using i by simp
  have len: "length xs + length ys + 100 < 2 ^ 32" using cap by (simp add: capacity_def)
  obtain ce where ce: "heap t (exit_pointer t) = Some ce"
    using ids_from_dom [OF ids, of "exit_pointer t"] by auto
  have fq: "get_ID t q = Some (length xs)"
    using ids q by (cases ys) (auto simp: get_ID_def ids_from_append)
  have sub: "u32_sub (length xs + length ys) (length xs) = length ys" using len by (simp add: u32_sub_small)
  obtain w where w: "move_slots (length xs + 1) (length xs) (length ys) ?t =
      Some (?t\<lparr>slots := map Some xs @ w # map Some ys @ rest'\<rparr>)"
    "shift_IDs (\<lambda>n. u32_add n 1) [length xs + 1..<length xs + length ys + 1] (?t\<lparr>slots := map Some xs @ w # map Some ys @ rest'\<rparr>) =
      Some (?t\<lparr>slots := map Some xs @ w # map Some ys @ rest', heap := bump (\<lambda>n. u32_add n 1) ys (heap ?t)\<rparr>)"
    using open_gap [of ?t xs ys z rest' "\<lambda>n. u32_add n 1"] d ids z
    by (auto simp: ids_from_append dest: ids_from_dom)
  have b: "heap t p' \<noteq> None \<Longrightarrow> p' < next_address t" for p' using i by blast
  let ?h = "((bump (\<lambda>n. u32_add n 1) ys (heap t))(p \<mapsto> c\<lparr>cell_ID := length xs\<rparr>))
      (exit_pointer t \<mapsto> ce\<lparr>cell_ID := Suc (length xs + length ys)\<rparr>)"
  let ?r = "t\<lparr>slots := map Some xs @ Some p # map Some ys @ rest', heap := ?h,
    instructionsAllocated := length xs + length ys + length rest,
    instructionsTop := Suc (length xs + length ys)\<rparr>"
  have "ir_instr_insert_before p (Some q) t = Some ?r"
  proof (cases "ys = []")
    case True
    then show ?thesis
      using fq top chk sub z p d ce len
      apply (simp add: ir_instr_insert_before_def assertion_def set_slot_def set_ID_def
          update_exit_node_ID_def u32_add_small)
      by (intro instr_table.equality; simp add: list_update_append)
  next
    case False
    then have "slot t' (Suc (length xs)) = Some q" if "slots t' = map Some xs @ w # map Some ys @ rest'" for t'
      using that q by (cases ys) (auto simp: slot_def nth_append)
    with False show ?thesis
      using fq top chk sub w z p d ce len
      apply (simp add: ir_instr_insert_before_def assertion_def set_slot_def set_ID_def
          update_exit_node_ID_def u32_add_small Let_def del: upt_Suc)
      by (intro instr_table.equality; simp add: list_update_append)
  qed
  moreover have inv_r: "table_inv ?r (xs @ p # ys)"
    using ids_insert [OF ids d len, of c ce] r two z d b p ce
    by (auto simp: table_inv_def dest: bump_SomeD)
  moreover have "content ?r = content t"
    using p ce d by (auto simp: content_def fun_eq_iff)
  moreover have "metadata_readable ?r" if "metadata_readable t"
    using that one z by (intro readable_cases [OF inv_r]) (auto simp: metadata_readable_def less_2_cases_iff)
  ultimately show ?thesis by (intro exI [of _ ?r]) simp
qed

lemma insert_eq:
  assumes inv: "table_inv t ps" and cap: "capacity ps"
    and p: "p \<notin> set ps" "p \<noteq> exit_pointer t" "heap t p = Some c"
  shows "\<exists>t'. ir_instr_insert p t = Some t' \<and> table_inv t' (ps @ [p]) \<and>
    content t' = content t \<and> exit_pointer t' = exit_pointer t \<and> next_address t' = next_address t \<and>
    (metadata_readable t \<longrightarrow> metadata_readable t')"
proof -
  obtain rest where r: "rest \<noteq> []" "length rest \<le> 50" and chk: "ir_instr_check_new_space t =
      Some (t\<lparr>slots := map Some ps @ rest, instructionsAllocated := length ps + length rest\<rparr>)"
    and two: "2 \<le> length ps + length rest"
    and one: "ps = [] \<Longrightarrow> 1 < length rest \<and> rest ! 1 = slots t ! 1"
    using check_new_space_inv [OF inv cap] by blast
  obtain z rest' where z: "rest = z # rest'" using r(1) by (cases rest) auto
  note i = inv [unfolded table_inv_def]
  have ids: "ids_from (heap t) 0 (ps @ [] @ [exit_pointer t])" using i by simp
  have d: "distinct (ps @ p # [] @ [exit_pointer t])" using i p by auto
  have len: "length ps + length ([] :: nat list) + 100 < 2 ^ 32" using cap by (simp add: capacity_def)
  obtain ce where ce: "heap t (exit_pointer t) = Some ce"
    using ids_from_dom [OF ids, of "exit_pointer t"] by auto
  have le: "length ps \<le> length (slots t)" using i by auto
  have b: "heap t p' \<noteq> None \<Longrightarrow> p' < next_address t" for p' using i by blast
  let ?h = "(heap t)(p \<mapsto> c\<lparr>cell_ID := length ps\<rparr>, exit_pointer t \<mapsto> ce\<lparr>cell_ID := Suc (length ps)\<rparr>)"
  let ?r = "t\<lparr>slots := map Some ps @ Some p # rest', heap := ?h,
    instructionsAllocated := length ps + length rest, instructionsTop := Suc (length ps)\<rparr>"
  have "ir_instr_insert p t = Some ?r"
    using i le chk z p d ce len
    apply (simp add: ir_instr_insert_def assertion_def set_slot_def set_ID_def update_exit_node_ID_def u32_add_small)
    by (intro instr_table.equality; simp add: list_update_append)
  moreover have inv_r: "table_inv ?r (ps @ [p])"
    using ids_insert [OF ids d len, of c ce] r two z d b p ce by (auto simp: table_inv_def)
  moreover have "content ?r = content t"
    using p ce d by (auto simp: content_def fun_eq_iff)
  moreover have "metadata_readable ?r" if "metadata_readable t"
    using that one z by (intro readable_cases [OF inv_r]) (auto simp: metadata_readable_def less_2_cases_iff)
  ultimately show ?thesis by (intro exI [of _ ?r]) simp
qed

section \<open>Deletion\<close>

lemma ids_remove:
  assumes "ids_from h 0 (xs @ p # ys)" and "distinct (xs @ p # ys)"
    and "length xs + length ys + 100 < 2 ^ 32"
  shows "ids_from (bump (\<lambda>n. u32_sub n 1) ys h) 0 (xs @ ys)"
proof -
  have "ids_from (bump (\<lambda>n. u32_sub n 1) ys h) 0 xs = ids_from h 0 xs"
    using assms(2) by (intro ids_from_bump_other) auto
  moreover have "ids_from (bump (\<lambda>n. u32_sub n 1) ys h) (length xs) ys"
    using assms(1,3) by (intro ids_from_bump [of h "Suc (length xs)"]) (auto simp: ids_from_append u32_sub_small)
  ultimately show ?thesis using assms(1) by (auto simp: ids_from_append)
qed

lemma belongs_member:
  assumes "table_inv t ps" and "p \<in> set ps"
  shows "belongs p t"
proof -
  obtain i where "i < length ps" "p = ps ! i" using assms(2) by (auto simp: in_set_conv_nth)
  with assms(1) show ?thesis
    by (auto simp: belongs_def list_ex_iff tbl_get_by_pos_def slot_def table_inv_def nth_append
        intro!: bexI [of _ i])
qed

lemma delete_eq:
  assumes inv: "table_inv t (xs @ p # ys)" and cap: "capacity (xs @ ys)"
  shows "\<exists>t'. ir_instr_delete p t = Some t' \<and> table_inv t' (xs @ ys) \<and>
    content t' = (content t)(p := None) \<and> exit_pointer t' = exit_pointer t \<and>
    next_address t' = next_address t \<and> valid_optimization t' = 0 \<and>
    (xs @ ys \<noteq> [] \<longrightarrow> metadata_readable t')"
proof -
  note i = inv [unfolded table_inv_def]
  obtain rest where r: "slots t = map Some xs @ Some p # map Some ys @ rest" using i by auto
  have lr: "length rest \<le> 50" using i r by simp
  let ?e = "exit_pointer t"
  have ids: "ids_from (heap t) 0 (xs @ p # ys @ [?e])" using i by simp
  have d: "distinct (xs @ p # ys @ [?e])" using i by simp
  have top: "instructionsTop t = Suc (length xs + length ys)" using i by simp
  have len: "length xs + length ys + 100 < 2 ^ 32" using cap by (simp add: capacity_def)
  obtain ce where ce: "heap t ?e = Some ce"
    using ids_from_dom [OF ids, of "exit_pointer t"] by auto
  have fp: "get_ID t p = Some (length xs)"
    using ids by (auto simp: get_ID_def ids_from_append)
  have b: "heap t p' \<noteq> None \<Longrightarrow> p' < next_address t" for p' using i by blast
  let ?t = "t\<lparr>slots := map Some xs @ None # map Some ys @ rest\<rparr>"
  obtain w where w0: "w = last (None # map Some ys)" and w: "move_slots (length xs) (length xs + 1) (length ys) ?t =
      Some (?t\<lparr>slots := map Some xs @ map Some ys @ w # rest\<rparr>)"
    "shift_IDs (\<lambda>n. u32_sub n 1) [length xs..<length xs + length ys] (?t\<lparr>slots := map Some xs @ map Some ys @ w # rest\<rparr>) =
      Some (?t\<lparr>slots := map Some xs @ map Some ys @ w # rest, heap := bump (\<lambda>n. u32_sub n 1) ys (heap ?t)\<rparr>)"
    using close_gap [of ?t xs None ys rest "\<lambda>n. u32_sub n 1"] d ids
    by (auto simp: ids_from_append dest: ids_from_dom)
  let ?h = "((bump (\<lambda>n. u32_sub n 1) ys (heap t))(p := None)) (?e \<mapsto> ce\<lparr>cell_ID := length xs + length ys\<rparr>)"
  obtain w' where w': "ys = [] \<Longrightarrow> w' = None" "ys \<noteq> [] \<Longrightarrow> w' = w" by (cases ys) auto
  have w1: "w' = last (None # map Some ys)" using w' w0 by (cases "ys = []") auto
  let ?s = "t\<lparr>slots := map Some (xs @ ys) @ w' # rest, instructionsTop := length xs + length ys, heap := ?h\<rparr>"
  obtain rest' where c: "rest' \<noteq> []" "length rest' \<le> 50" "ir_instr_check_new_space ?s =
      Some (?s\<lparr>slots := map Some (xs @ ys) @ rest', instructionsAllocated := length (xs @ ys) + length rest'\<rparr>)"
    "2 \<le> length (xs @ ys) + length (w' # rest) \<longrightarrow> 2 \<le> length (xs @ ys) + length rest'"
    "rest' ! 0 = w'"
  proof -
    have "length (w' # rest) \<le> 51" "instructionsAllocated ?s = length (xs @ ys) + length (w' # rest)"
      using lr i r by simp_all
    from check_new_space_eq [of ?s "xs @ ys" "w' # rest", OF _ _ this(2,1) cap]
    have "\<exists>rest'. rest' \<noteq> [] \<and> length rest' \<le> 50 \<and> ir_instr_check_new_space ?s =
      Some (?s\<lparr>slots := map Some (xs @ ys) @ rest', instructionsAllocated := length (xs @ ys) + length rest'\<rparr>) \<and>
      (2 \<le> length (xs @ ys) + length (w' # rest) \<longrightarrow> 2 \<le> length (xs @ ys) + length rest') \<and>
      (\<forall>i<2. i < length (w' # rest) \<longrightarrow> i < length rest' \<and> rest' ! i = (w' # rest) ! i)" by simp
    then show ?thesis using that by (metis length_Cons nth_Cons_0 zero_less_Suc zero_less_numeral)
  qed
  let ?r = "?s\<lparr>slots := map Some (xs @ ys) @ rest', instructionsAllocated := length (xs @ ys) + length rest',
    valid_optimization := 0\<rparr>"
  have sub: "u32_sub (Suc (length xs + length ys)) (length xs) = Suc (length ys)"
    "u32_sub (Suc (length ys)) 1 = length ys" "u32_sub (Suc (length xs + length ys)) 1 = length xs + length ys"
    using len by (simp_all add: u32_sub_small)
  have bel: "belongs p t" using belongs_member [OF inv] by simp
  note D = ir_instr_delete_def assertion_def set_slot_def set_ID_def update_exit_node_ID_def list_update_append Let_def
  have "ir_instr_delete p t = Some ?r"
  proof (cases "ys = []")
    case True
    with w'(1) show ?thesis using bel fp r top sub c(3) d ce by (simp add: D)
  next
    case False
    with w'(2) show ?thesis using bel fp r top sub w c(3) d ce by (simp add: D)
  qed
  moreover have inv_r: "table_inv ?r (xs @ ys)"
  proof -
    have "ids_from (bump (\<lambda>n. u32_sub n 1) ys (heap t)) 0 (xs @ ys)"
      using ids d len by (intro ids_remove [of _ _ p]) (auto simp: ids_from_append)
    moreover have "ids_from ?h 0 (xs @ ys) = ids_from (bump (\<lambda>n. u32_sub n 1) ys (heap t)) 0 (xs @ ys)"
      using d by (intro ids_from_cong) auto
    ultimately show ?thesis using c d b ce i r by (auto simp: table_inv_def ids_from_append dest: bump_SomeD)
  qed
  moreover have "content ?r = (content t)(p := None)"
    using ce d by (auto simp: content_def fun_eq_iff)
  moreover have "metadata_readable ?r" if ne: "xs @ ys \<noteq> []"
  proof (intro readable_cases [OF inv_r])
    fix k p' assume k: "length (xs @ ys) \<le> k" "k < 2" "slots ?r ! k = Some p'"
    have "length (xs @ ys) \<noteq> 0" using ne by simp
    then have "length (xs @ ys) = 1" "k = 1" using k(1,2) by linarith+
    then have "k = length (map Some (xs @ ys))" by simp
    then have "slots ?r ! k = rest' ! 0" using nth_append_length_plus [of "map Some (xs @ ys)" rest' 0] by simp
    then have "Some p' = w'" using k(3) c(5) by simp
    then have "p' \<in> set ys" using w1 by (cases ys rule: rev_cases) auto
    then have "p' \<in> set (xs @ ys @ [exit_pointer ?r])" by simp
    then show "heap ?r p' \<noteq> None" using ids_from_dom [of "heap ?r" 0 "xs @ ys @ [exit_pointer ?r]" p'] inv_r by (auto simp: table_inv_def)
  qed
  ultimately show ?thesis by (intro exI [of _ ?r]) simp
qed

section \<open>Movement\<close>

text \<open>
  Taking an instruction out and putting it before another one: the two halves are the deletion and
  the insertion without their bookkeeping.
\<close>

lemma remove_and_insert_eq:
  assumes inv: "table_inv t (xs @ p # ys)" and cap: "capacity (xs @ ys)"
    and split: "xs @ ys = us @ q # vs"
  shows "\<exists>t'. remove_and_insert_before p q t = Some t' \<and> table_inv t' (us @ p # q # vs) \<and>
    content t' = content t \<and> exit_pointer t' = exit_pointer t \<and>
    next_address t' = next_address t \<and> valid_optimization t' = valid_optimization t"
proof -
  note i = inv [unfolded table_inv_def]
  obtain rest where r: "slots t = map Some xs @ Some p # map Some ys @ rest" using i by auto
  let ?e = "exit_pointer t"
  have ids: "ids_from (heap t) 0 (xs @ p # ys @ [?e])" using i by simp
  have d: "distinct (xs @ p # ys @ [?e])" using i by simp
  have n: "length xs + length ys = Suc (length us + length vs)" using split by (metis length_append length_Cons add_Suc_right)
  have top: "instructionsTop t = Suc (Suc (length us + length vs))" using i n by simp
  have len: "length us + length vs + 101 < 2 ^ 32" using cap n by (simp add: capacity_def)
  obtain c where c: "heap t p = Some c" using ids_from_dom [OF ids, of p] by auto
  have fp: "get_ID t p = Some (length xs)" using ids by (auto simp: get_ID_def ids_from_append)
  let ?down = "\<lambda>n. u32_sub n 1" and ?up = "\<lambda>n. u32_add n 1"
  let ?t = "t\<lparr>slots := map Some xs @ None # map Some ys @ rest\<rparr>"
  obtain w where w: "move_slots (length xs) (length xs + 1) (length ys) ?t =
      Some (?t\<lparr>slots := map Some xs @ map Some ys @ w # rest\<rparr>)"
    "shift_IDs ?down [length xs..<length xs + length ys] (?t\<lparr>slots := map Some xs @ map Some ys @ w # rest\<rparr>) =
      Some (?t\<lparr>slots := map Some xs @ map Some ys @ w # rest, heap := bump ?down ys (heap ?t)\<rparr>)"
    using close_gap [of ?t xs None ys rest ?down] d ids
    by (auto simp: ids_from_append dest: ids_from_dom)
  let ?h = "bump ?down ys (heap t)"
  have "ids_from ?h 0 (xs @ ys)"
    using ids d len n by (intro ids_remove [of _ _ p]) (auto simp: ids_from_append)
  then have idh: "ids_from ?h 0 (us @ q # vs)" unfolding split .
  have dq: "distinct (us @ p # q # vs @ [?e])"
  proof -
    have "distinct (p # (xs @ ys) @ [?e])" using d by auto
    then show ?thesis unfolding split by auto
  qed
  let ?s = "t\<lparr>slots := map Some us @ map Some (q # vs) @ w # rest, heap := ?h, instructionsTop := Suc (length us + length vs)\<rparr>"
  have mxy: "map Some xs @ map Some ys @ w # rest = map Some us @ map Some (q # vs) @ w # rest"
    using arg_cong [OF split, of "\<lambda>l. map Some l @ w # rest"] by simp
  have s1: "slots ?s = map Some us @ map Some (q # vs) @ w # rest" by simp
  have s2: "distinct (q # vs)" using dq by simp
  have s3: "\<forall>p\<in>set (q # vs). heap ?s p \<noteq> None" 
  proof
    fix p' assume "p' \<in> set (q # vs)"
    then obtain c where "?h p' = Some c" using ids_from_dom [OF idh, of p'] by auto
    then have "heap ?s p' = Some c" by simp
    then show "heap ?s p' \<noteq> None" by (metis option.distinct(1))
  qed
  obtain w' where w0: "w' = hd (map Some (q # vs) @ [w])"
    and w': "move_slots (length us + 1) (length us) (length (q # vs)) ?s =
      Some (?s\<lparr>slots := map Some us @ w' # map Some (q # vs) @ rest\<rparr>)"
    "shift_IDs ?up [length us + 1..<length us + length (q # vs) + 1] (?s\<lparr>slots := map Some us @ w' # map Some (q # vs) @ rest\<rparr>) =
      Some (?s\<lparr>slots := map Some us @ w' # map Some (q # vs) @ rest, heap := bump ?up (q # vs) (heap ?s)\<rparr>)"
    using open_gap [OF s1 s2 s3, of ?up] by blast
  have fq: "get_ID ?s q = Some (length us)" using idh by (auto simp: get_ID_def ids_from_append)
  let ?r = "t\<lparr>slots := map Some us @ Some p # map Some (q # vs) @ rest,
    heap := (bump ?up (q # vs) ?h)(p \<mapsto> c\<lparr>cell_ID := length us\<rparr>), instructionsTop := Suc (Suc (length us + length vs))\<rparr>"
  have sub: "u32_sub (u32_sub (Suc (Suc (length us + length vs))) (length xs)) 1 = length ys"
    "u32_sub (Suc (Suc (length us + length vs))) 1 = Suc (length us + length vs)"
    "u32_sub (Suc (length us + length vs)) (length us) = Suc (length vs)"
    "u32_add (Suc (length us + length vs)) 1 = Suc (Suc (length us + length vs))"
    using len n by (simp_all add: u32_sub_small u32_add_small)
  have r1: "[length xs..<instructionsTop t - 1] = [length xs..<length xs + length ys]" using top n by simp
  have "remove_and_insert_before p q t = Some ?r"
    using fp r top sub w fq w' c d dq n w0
    by (simp add: remove_and_insert_before_def assertion_def slot_def nth_append set_slot_def set_ID_def list_update_append mxy del: upt_Suc)
  moreover have "table_inv ?r (us @ p # q # vs)"
  proof -
    obtain ce where ce: "heap t ?e = Some ce" "cell_ID ce = Suc (Suc (length us + length vs))"
      using ids n by (auto simp: ids_from_append)
    let ?h1 = "?h(?e \<mapsto> ce\<lparr>cell_ID := Suc (length us + length vs)\<rparr>)"
    have "ids_from ?h1 0 (us @ q # vs) = ids_from ?h 0 (us @ q # vs)"
      using dq by (intro ids_from_cong) auto
    then have "ids_from ?h1 0 (us @ (q # vs) @ [?e])" using idh by (simp add: ids_from_append)
    from ids_insert [OF this, of p c ce] dq len
    have "ids_from (((bump ?up (q # vs) ?h1)(p \<mapsto> c\<lparr>cell_ID := length us\<rparr>))
        (?e \<mapsto> ce\<lparr>cell_ID := Suc (Suc (length us + length vs))\<rparr>)) 0 (us @ p # (q # vs) @ [?e])"
      by simp
    moreover have "ids_from (((bump ?up (q # vs) ?h1)(p \<mapsto> c\<lparr>cell_ID := length us\<rparr>))
        (?e \<mapsto> ce\<lparr>cell_ID := Suc (Suc (length us + length vs))\<rparr>)) 0 (us @ p # (q # vs) @ [?e]) =
      ids_from (heap ?r) 0 (us @ p # (q # vs) @ [?e])"
      using d dq ce by (intro ids_from_cong) (auto simp: bump_def)
    ultimately show ?thesis using i d dq n r c by (auto simp: table_inv_def dest!: bump_SomeD)
  qed
  moreover have "content ?r = content t"
    using c dq d by (auto simp: content_def fun_eq_iff)
  ultimately show ?thesis by (intro exI [of _ ?r]) simp
qed

lemma get_ID_at: "table_inv t (xs @ p # ys) \<Longrightarrow> get_ID t p = Some (length xs)"
  by (auto simp: table_inv_def get_ID_def ids_from_append)

lemma get_ID_exit: "table_inv t ps \<Longrightarrow> get_ID t (exit_pointer t) = Some (length ps)"
  by (auto simp: table_inv_def get_ID_def ids_from_append)

lemma slot_at: "table_inv t (xs @ p # ys) \<Longrightarrow> slot t (length xs) = Some p"
  by (auto simp: table_inv_def slot_def nth_append)

lemma heap_at: "table_inv t (xs @ p # ys) \<Longrightarrow> \<exists>c. heap t p = Some c"
  by (auto simp: table_inv_def ids_from_append)

lemma not_exit_at: "table_inv t (xs @ p # ys) \<Longrightarrow> p \<noteq> exit_pointer t"
  by (auto simp: table_inv_def)

lemma top_at: "table_inv t ps \<Longrightarrow> instructionsTop t = length ps"
  by (simp add: table_inv_def)

lemma inv_valid_optimization [simp]: "table_inv (t\<lparr>valid_optimization := v\<rparr>) ps = table_inv t ps"
  "content (t\<lparr>valid_optimization := v\<rparr>) = content t"
  "table_inv (t\<lparr>method_modified := b\<rparr>) ps = table_inv t ps"
  "content (t\<lparr>method_modified := b\<rparr>) = content t"
  by (simp_all add: table_inv_def content_def fun_eq_iff)

lemma metadata_readable_flags [simp]:
  "metadata_readable (t\<lparr>valid_optimization := v\<rparr>) = metadata_readable t"
  "metadata_readable (t\<lparr>method_modified := b\<rparr>) = metadata_readable t"
  by (simp_all add: metadata_readable_def)

lemma readable_two: "table_inv t ps \<Longrightarrow> 2 \<le> length ps \<Longrightarrow> metadata_readable t"
  by (rule readable_cases) auto

lemma slot_has_metadata_flags [simp]:
  "slot_has_metadata (t\<lparr>valid_optimization := v\<rparr>) = slot_has_metadata t"
  "slot_has_metadata (t\<lparr>method_modified := b\<rparr>) = slot_has_metadata t"
  by (auto simp: fun_eq_iff slot_has_metadata_def split: option.split)

lemma get_ID_valid_optimization [simp]:
  "get_ID (t\<lparr>valid_optimization := v\<rparr>) = get_ID t" "slot (t\<lparr>valid_optimization := v\<rparr>) = slot t"
  "get_ID (t\<lparr>method_modified := b\<rparr>) = get_ID t" "slot (t\<lparr>method_modified := b\<rparr>) = slot t"
  "need_metadata (t\<lparr>valid_optimization := v\<rparr>) = need_metadata t"
  "need_metadata (t\<lparr>method_modified := b\<rparr>) = need_metadata t"
  by (simp_all add: fun_eq_iff get_ID_def slot_def need_metadata_def cong: if_cong)

lemma capacity_smaller: "capacity (xs @ p # ys) \<Longrightarrow> capacity (xs @ ys)"
  by (simp add: capacity_def)

text \<open>Where an instruction is before and after another one is taken out.\<close>

lemma split_cases:
  assumes "xs @ ys = us @ q # vs"
  obtains l where "xs = us @ q # l" "vs = l @ ys" | l where "ys = l @ q # vs" "us = xs @ l"
  using assms by (auto simp: append_eq_append_conv2 append_eq_Cons_conv Cons_eq_append_conv)

lemma position_after:
  assumes split: "xs @ ys = us @ q # vs"
  shows "\<exists>as bs. xs @ p # ys = as @ q # bs \<and>
    (length xs = Suc (length as) \<longrightarrow> us @ q # p # vs = xs @ p # ys) \<and>
    (length xs \<noteq> Suc (length as) \<longrightarrow>
      (bs = [] \<longrightarrow> ys \<noteq> [] \<and> vs = [] \<and> us @ [q] = xs @ ys) \<and>
      (bs \<noteq> [] \<longrightarrow> (\<exists>r bs' vs'. bs = r # bs' \<and> vs = r # vs')))"
  using split
proof (cases rule: split_cases)
  case (1 l)
  then show ?thesis by (intro exI [of _ us] exI [of _ "l @ p # ys"]) (cases l; auto)
next
  case (2 l)
  then show ?thesis by (intro exI [of _ "xs @ p # l"] exI [of _ vs]) (cases vs; auto)
qed

lemma move_inner_eq:
  assumes inv: "table_inv t (xs @ p # ys)" and cap: "capacity (xs @ ys)"
    and split: "xs @ ys = us @ q # vs"
  shows "\<exists>t'. move_before_inner p q t = Some t' \<and> table_inv t' (us @ p # q # vs) \<and>
    content t' = content t \<and> exit_pointer t' = exit_pointer t \<and> next_address t' = next_address t"
proof -
  obtain as bs where q: "xs @ p # ys = as @ q # bs" using position_after [OF split, of p] by blast
  have inv': "table_inv t (as @ q # bs)" using inv q by simp
  have "q \<in> set (xs @ ys)" by (simp add: split)
  then have ne: "p \<noteq> q" using inv by (auto simp: table_inv_def)
  have len: "length as + length bs = length xs + length ys"
    using arg_cong [OF q, of length] by simp
  have inv0: "table_inv (t\<lparr>valid_optimization := 0\<rparr>) (xs @ p # ys)" using inv by simp
  obtain c where c: "heap t q = Some c" using heap_at [OF inv'] by blast
  show ?thesis
    using remove_and_insert_eq [OF inv0 cap split] ne get_ID_at [OF inv] get_ID_at [OF inv'] top_at [OF inv]
      slot_at [OF inv] slot_at [OF inv'] c len
    by (auto simp: move_before_inner_def assertion_def assert_destination_def Let_def)
qed

section \<open>Creation\<close>

lemma need_metadata_two:
  assumes "table_inv t ps" and "2 \<le> length ps"
  shows "\<exists>b. need_metadata t = Some b"
proof -
  obtain p p' ps' where ps: "ps = p # p' # ps'" using assms(2) by (cases ps; cases "tl ps") auto
  obtain rest where "slots t = Some p # Some p' # rest" using assms(1) ps by (auto simp: table_inv_def)
  with assms(1) show ?thesis unfolding ps
    by (auto simp: need_metadata_def slot_has_metadata_def table_inv_def)
qed

lemma make_eq:
  assumes inv: "table_inv t ps" and b: "need_metadata t = Some b"
  shows "\<exists>t' c. ir_instr_make t = Some (next_address t, t') \<and> table_inv t' ps \<and>
    content t' = (content t)(next_address t \<mapsto> (b, IRLang.ir_instr_init)) \<and>
    heap t' (next_address t) = Some c \<and> exit_pointer t' = exit_pointer t \<and>
    next_address t \<notin> set ps \<and> next_address t \<noteq> exit_pointer t \<and> content t (next_address t) = None \<and>
    (metadata_readable t \<longrightarrow> metadata_readable t')"
proof -
  have n: "heap t (next_address t) = None" using inv by (auto simp: table_inv_def)
  have fresh: "next_address t \<notin> set ps" "next_address t \<noteq> exit_pointer t"
    using inv n by (auto simp: table_inv_def dest: ids_from_dom)
  have h: "ids_from (heap t) 0 (ps @ [exit_pointer t])" using inv by (simp add: table_inv_def)
  have "ids_from ((heap t)(next_address t \<mapsto> c)) 0 (ps @ [exit_pointer t])" for c
    using h fresh by (subst ids_from_cong [where h' = "heap t"]) auto
  then show ?thesis
    using inv b fresh n
    by (auto simp: ir_instr_make_def allocate_cell_def table_inv_def content_def fun_eq_iff metadata_readable_def)
qed

lemma new_eq:
  assumes inv: "table_inv t ps" and cap: "capacity ps" and b: "need_metadata t = Some b"
  shows "\<exists>t'. ir_instr_new t = Some (next_address t, t') \<and> table_inv t' (ps @ [next_address t]) \<and>
    content t' = (content t)(next_address t \<mapsto> (b, IRLang.ir_instr_init)) \<and> exit_pointer t' = exit_pointer t \<and>
    content t (next_address t) = None \<and>
    (metadata_readable t \<longrightarrow> metadata_readable t')"
proof -
  have inv': "table_inv (t\<lparr>method_modified := True\<rparr>) ps" "need_metadata (t\<lparr>method_modified := True\<rparr>) = Some b"
    using inv b by simp_all
  from make_eq [OF this] obtain t1 c where m: "ir_instr_make (t\<lparr>method_modified := True\<rparr>) = Some (next_address t, t1)"
    "table_inv t1 ps" "content t1 = (content t)(next_address t \<mapsto> (b, IRLang.ir_instr_init))"
    "heap t1 (next_address t) = Some c" "exit_pointer t1 = exit_pointer t"
    "next_address t \<notin> set ps" "next_address t \<noteq> exit_pointer t" "content t (next_address t) = None" "metadata_readable t \<longrightarrow> metadata_readable t1" by auto
  then show ?thesis
    using insert_eq [OF m(2) cap, of "next_address t" c] by (auto simp: ir_instr_new_def)
qed

lemma new_before_eq:
  assumes inv: "table_inv t (xs @ ys)" and cap: "capacity (xs @ ys)" and b: "need_metadata t = Some b"
    and q: "prev = None \<and> ys = [] \<or> prev = Some (hd (ys @ [exit_pointer t]))"
  shows "\<exists>t'. ir_instr_new_before prev t = Some (next_address t, t') \<and> table_inv t' (xs @ next_address t # ys) \<and>
    content t' = (content t)(next_address t \<mapsto> (b, IRLang.ir_instr_init)) \<and> exit_pointer t' = exit_pointer t \<and>
    content t (next_address t) = None \<and>
    (metadata_readable t \<longrightarrow> metadata_readable t')"
proof -
  from make_eq [OF inv b] obtain t1 c where m: "ir_instr_make t = Some (next_address t, t1)"
    "table_inv t1 (xs @ ys)" "content t1 = (content t)(next_address t \<mapsto> (b, IRLang.ir_instr_init))"
    "heap t1 (next_address t) = Some c" "exit_pointer t1 = exit_pointer t"
    "next_address t \<notin> set (xs @ ys)" "next_address t \<noteq> exit_pointer t" "content t (next_address t) = None" "metadata_readable t \<longrightarrow> metadata_readable t1" by auto
  from q show ?thesis
  proof
    assume "prev = None \<and> ys = []"
    then show ?thesis
      using m insert_eq [OF m(2) cap, of "next_address t" c]
      by (auto simp: ir_instr_new_before_def ir_instr_insert_before_def)
  next
    assume "prev = Some (hd (ys @ [exit_pointer t]))"
    then show ?thesis
      using m insert_before_eq [OF m(2) cap, of "next_address t" c]
      by (auto simp: ir_instr_new_before_def)
  qed
qed

lemma move_after_eq:
  assumes inv: "table_inv t (xs @ p # ys)" and cap: "capacity (xs @ p # ys)"
    and split: "xs @ ys = us @ q # vs"
  shows "\<exists>t'. ir_instr_move_after p q t = Some t' \<and> table_inv t' (us @ q # p # vs) \<and>
    content t' = content t \<and> exit_pointer t' = exit_pointer t"
proof -
  obtain as bs where q: "xs @ p # ys = as @ q # bs"
    and adj: "length xs = Suc (length as) \<Longrightarrow> us @ q # p # vs = xs @ p # ys"
    and lst: "length xs \<noteq> Suc (length as) \<Longrightarrow> bs = [] \<Longrightarrow> ys \<noteq> [] \<and> vs = [] \<and> us @ [q] = xs @ ys"
    and inn: "length xs \<noteq> Suc (length as) \<Longrightarrow> bs \<noteq> [] \<Longrightarrow> \<exists>r bs' vs'. bs = r # bs' \<and> vs = r # vs'"
    using position_after [OF split, of p] by blast
  have inv': "table_inv t (as @ q # bs)" using inv q by simp
  have "q \<in> set (xs @ ys)" by (simp add: split)
  then have ne: "p \<noteq> q" using inv by (auto simp: table_inv_def)
  have len: "length as + length bs = length xs + length ys"
    using arg_cong [OF q, of length] by simp
  note at = get_ID_at [OF inv] get_ID_at [OF inv'] top_at [OF inv] slot_at [OF inv] slot_at [OF inv']
  have dxy: "distinct (xs @ p # ys)" using inv by (simp add: table_inv_def)
  let ?t = "t\<lparr>valid_optimization := 0\<rparr>"
  have invt: "table_inv ?t (xs @ p # ys)" using inv by simp
  consider (adjacent) "length xs = Suc (length as)" | (last) "length xs \<noteq> Suc (length as)" "bs = []"
    | (inner) "length xs \<noteq> Suc (length as)" "bs \<noteq> []" by blast
  then show ?thesis
  proof cases
    case adjacent
    then show ?thesis
      using at ne len inv adj by (auto simp: ir_instr_move_after_def assertion_def)
  next
    case last
    note ys = lst [OF last]
    have two: "2 \<le> length (xs @ p # ys)" using ys by (cases ys) auto
    obtain b where b: "need_metadata ?t = Some b" using need_metadata_two [OF invt two] by blast
    let ?e = "next_address ?t"
    obtain t1 where t1: "ir_instr_new ?t = Some (?e, t1)" "table_inv t1 ((xs @ p # ys) @ [?e])"
      "content t1 = (content t)(?e \<mapsto> (b, IRLang.ir_instr_init))" "exit_pointer t1 = exit_pointer t"
      "content t ?e = None"
      using new_eq [OF invt cap b] by auto
    obtain t2 where t2: "move_before_inner p ?e t1 = Some t2" "table_inv t2 ((xs @ ys) @ p # ?e # [])"
      "content t2 = content t1" "exit_pointer t2 = exit_pointer t1"
      using move_inner_eq [of t1 xs p "ys @ [?e]" "xs @ ys" ?e "[]"] t1(2) cap by (auto simp: capacity_def)
    have t2': "table_inv t2 ((xs @ ys @ [p]) @ ?e # [])" using t2(2) by simp
    obtain t3 where t3: "ir_instr_delete ?e t2 = Some t3" "table_inv t3 ((xs @ ys @ [p]) @ [])"
      "content t3 = (content t2)(?e := None)" "exit_pointer t3 = exit_pointer t2"
      using delete_eq [OF t2'] cap by (auto simp: capacity_def)
    have c: "content t3 = content t" using t1(3,5) t2(3) t3(3) by (auto simp: fun_eq_iff)
    have j: "length as = length xs + length ys" using len last(2) by simp
    have "ir_instr_move_after p q t = Some t3"
      using at ne j last ys t1(1) t2(1) t3(1)
      by (simp add: ir_instr_move_after_def assertion_def Let_def)
    moreover have "table_inv t3 (us @ q # p # vs)" using t3(2) ys by (metis append.assoc append_Cons append_Nil append_Nil2)
    ultimately show ?thesis using c t1(4) t2(4) t3(4) by auto
  next
    case inner
    obtain r bs' vs' where bs: "bs = r # bs'" and vs: "vs = r # vs'" using inn [OF inner] by blast
    have r: "slot t (Suc (length as)) = Some r"
      using slot_at [of t "as @ [q]" r bs'] inv' bs by simp
    have spl: "xs @ ys = (us @ [q]) @ r # vs'" using split vs by simp
    obtain t' where "move_before_inner p r ?t = Some t'" "table_inv t' ((us @ [q]) @ p # r # vs')"
      "content t' = content ?t" "exit_pointer t' = exit_pointer ?t"
      using move_inner_eq [OF invt capacity_smaller [OF cap] spl] by blast
    then show ?thesis
      using at ne len inner bs r vs
      by (auto simp: ir_instr_move_after_def assertion_def Let_def)
  qed
qed

lemma move_before_eq:
  assumes inv: "table_inv t (xs @ p # ys)" and cap: "capacity (xs @ p # ys)"
    and split: "xs @ ys = us @ q # vs"
  shows "\<exists>t'. ir_instr_move_before p q t = Some t' \<and> table_inv t' (us @ p # q # vs) \<and>
    content t' = content t \<and> exit_pointer t' = exit_pointer t"
proof -
  obtain as bs where q: "xs @ p # ys = as @ q # bs" using position_after [OF split, of p] by blast
  have inv': "table_inv t (as @ q # bs)" using inv q by simp
  have "q \<in> set (xs @ ys)" by (simp add: split)
  then have ne: "p \<noteq> q" using inv by (auto simp: table_inv_def)
  have len: "length as + length bs = length xs + length ys"
    using arg_cong [OF q, of length] by simp
  have inv0: "table_inv (t\<lparr>valid_optimization := 0\<rparr>) (xs @ p # ys)" using inv by simp
  obtain c where c: "heap t q = Some c" using heap_at [OF inv'] by blast
  show ?thesis
    using remove_and_insert_eq [OF inv0 capacity_smaller [OF cap] split] ne get_ID_at [OF inv] get_ID_at [OF inv']
      top_at [OF inv] slot_at [OF inv] slot_at [OF inv'] c len
    by (auto simp: ir_instr_move_before_def assertion_def assert_destination_def Let_def)
qed

text \<open>Moving before the exit node moves to the end.\<close>

lemma tbl_get_last_snoc: "table_inv t (ps @ [p]) \<Longrightarrow> tbl_get_last t = Some p"
  using slot_at [of t ps p "[]"] by (simp add: tbl_get_last_def table_inv_def)

lemma move_to_end_eq:
  assumes inv: "table_inv t (xs @ p # ys)" and cap: "capacity (xs @ p # ys)"
  shows "\<exists>t'. ir_instr_move_before p (exit_pointer t) t = Some t' \<and> table_inv t' (xs @ ys @ [p]) \<and>
    content t' = content t \<and> exit_pointer t' = exit_pointer t \<and>
    (metadata_readable t \<longrightarrow> metadata_readable t')"
proof (cases ys rule: rev_cases)
  case Nil
  then have "tbl_get_last t = Some p" using tbl_get_last_snoc inv by simp
  then show ?thesis
    using Nil inv get_ID_at [OF inv] get_ID_exit [OF inv] top_at [OF inv] slot_at [OF inv] not_exit_at [OF inv]
    by (auto simp: ir_instr_move_before_def assertion_def Let_def tbl_get_last_def)
next
  case (snoc ys' l)
  let ?t = "t\<lparr>valid_optimization := 0\<rparr>"
  have invt: "table_inv ?t (xs @ p # ys)" using inv by simp
  have last: "tbl_get_last ?t = Some l" "p \<noteq> l"
    using tbl_get_last_snoc [of ?t "xs @ p # ys'" l] invt snoc by (auto simp: table_inv_def)
  obtain t' where "ir_instr_move_after p l ?t = Some t'" "table_inv t' ((xs @ ys') @ l # p # [])"
    "content t' = content ?t" "exit_pointer t' = exit_pointer ?t"
    using move_after_eq [OF invt cap, of "xs @ ys'" l "[]"] snoc by auto
  moreover have "metadata_readable t'" using calculation(2) by (rule readable_two) simp
  ultimately show ?thesis
    using last snoc get_ID_at [OF inv] get_ID_exit [OF inv] top_at [OF inv] slot_at [OF inv] not_exit_at [OF inv]
    by (simp add: ir_instr_move_before_def assertion_def Let_def)
qed

section \<open>Copies and resets\<close>

lemma new_after_eq:
  assumes inv: "table_inv t (xs @ ys)" and cap: "capacity (xs @ p # ys)" and b: "need_metadata t = Some b"
    and p: "p = next_address t" and q: "succ = None \<and> ys = [] \<or> xs \<noteq> [] \<and> succ = Some (last xs)"
  shows "\<exists>t'. ir_instr_new_after succ t = Some (p, t') \<and> table_inv t' (xs @ p # ys) \<and>
    content t' = (content t)(p \<mapsto> (b, IRLang.ir_instr_init)) \<and> exit_pointer t' = exit_pointer t \<and>
    content t p = None \<and>
    (metadata_readable t \<longrightarrow> metadata_readable t')"
proof -
  from make_eq [OF inv b] p obtain t1 c where m: "ir_instr_make t = Some (p, t1)"
    "table_inv t1 (xs @ ys)" "content t1 = (content t)(p \<mapsto> (b, IRLang.ir_instr_init))"
    "heap t1 p = Some c" "exit_pointer t1 = exit_pointer t"
    "p \<notin> set (xs @ ys)" "p \<noteq> exit_pointer t" "content t p = None" "metadata_readable t \<longrightarrow> metadata_readable t1" by auto
  obtain t2 where t2: "ir_instr_insert p t1 = Some t2" "table_inv t2 ((xs @ ys) @ [p])"
    "content t2 = content t1" "exit_pointer t2 = exit_pointer t1"
    "metadata_readable t1 \<longrightarrow> metadata_readable t2"
    using insert_eq [OF m(2) capacity_smaller [OF cap], of p c] m by auto
  from q show ?thesis
  proof
    assume "succ = None \<and> ys = []"
    then show ?thesis using m t2 by (auto simp: ir_instr_new_after_def)
  next
    assume s: "xs \<noteq> [] \<and> succ = Some (last xs)"
    then have "table_inv t2 ((xs @ ys) @ p # [])" "capacity ((xs @ ys) @ p # [])"
      "(xs @ ys) @ [] = butlast xs @ last xs # ys"
      using t2(2) cap by (auto simp: capacity_def)
    from move_after_eq [OF this] obtain t3 where t3: "ir_instr_move_after p (last xs) t2 = Some t3"
      "table_inv t3 (butlast xs @ last xs # p # ys)" "content t3 = content t2" "exit_pointer t3 = exit_pointer t2"
      by blast
    have "butlast xs @ last xs # p # ys = xs @ p # ys"
      using s by (metis append.assoc append_Cons append_Nil append_butlast_last_id)
    with t3(2) have "table_inv t3 (xs @ p # ys)" by (simp only:)
    moreover have "2 \<le> length (xs @ p # ys)" using s by (cases xs) auto
    ultimately show ?thesis
      using m t2 t3 s readable_two [of t3 "xs @ p # ys"] by (auto simp: ir_instr_new_after_def)
  qed
qed

lemma clone_eq:
  assumes inv: "table_inv t ps" and cap: "capacity ps" and b: "need_metadata t = Some b"
    and q: "content t q = Some (d, body)" and p: "p = next_address t"
  shows "\<exists>t'. ir_instr_clone q t = Some (p, t') \<and> table_inv t' (ps @ [p]) \<and>
    content t' = (content t)(p \<mapsto> (b, body)) \<and> exit_pointer t' = exit_pointer t \<and> content t p = None \<and>
    (metadata_readable t \<longrightarrow> metadata_readable t')"
proof -
  from make_eq [OF inv b] p obtain t1 c where m: "ir_instr_make t = Some (p, t1)"
    "table_inv t1 ps" "content t1 = (content t)(p \<mapsto> (b, IRLang.ir_instr_init))"
    "heap t1 p = Some c" "exit_pointer t1 = exit_pointer t"
    "p \<notin> set ps" "p \<noteq> exit_pointer t" "content t p = None" "metadata_readable t \<longrightarrow> metadata_readable t1" by auto
  obtain t2 where t2: "ir_instr_insert p t1 = Some t2" "table_inv t2 (ps @ [p])"
    "content t2 = content t1" "exit_pointer t2 = exit_pointer t1"
    "metadata_readable t1 \<longrightarrow> metadata_readable t2"
    using insert_eq [OF m(2) cap, of p c] m by auto
  have "content t2 q = Some (d, body)" using t2(3) m(3,8) q by auto
  then obtain cq where cq: "heap t2 q = Some cq" "cell_body cq = body" by (auto simp: content_def)
  obtain cp where cp: "heap t2 p = Some cp" using heap_at [of t2 ps p "[]"] t2(2) by auto
  have bp: "cell_metadata cp = b" using t2(3) m(3) cp by (auto simp: content_def fun_eq_iff split: if_splits)
  let ?r = "t2\<lparr>heap := (heap t2)(p \<mapsto> cp\<lparr>cell_body := body\<rparr>), valid_optimization := 0\<rparr>"
  have "ir_instr_clone q t = Some (p, ?r)" using m t2 cq cp by (simp add: ir_instr_clone_def)
  moreover have "table_inv ?r (ps @ [p])"
    using t2(2) cp ids_from_cong [of "ps @ [p, exit_pointer t2]" "heap ?r" "heap t2" 0]
    by (auto simp: table_inv_def)
  moreover have "content ?r = (content t)(p \<mapsto> (b, body))"
    using t2(3) m(3) cp bp by (auto simp: content_def fun_eq_iff)
  moreover have "metadata_readable ?r" if "metadata_readable t"
    using that m(9) t2(5) by (auto simp: metadata_readable_def)
  ultimately show ?thesis using t2(4) m(5,8) by (intro exI [of _ ?r]) simp
qed

end
