(* ===== verification/InstrSequence.thy ===== *)
theory InstrSequence
  imports TableInvariant
begin

text \<open>
  The sequence of instructions as the clients of the IR manager see it: a list of instructions under
  handles, the edits the exported operations offer, and the proof that the buffer refines it. The
  locale \<open>instruction_sequence\<close> states what the composed operations rely on; its interpretation discharges the
  laws for the buffer.
\<close>

section \<open>The abstract sequence\<close>

text \<open>
  What a client of the IR manager sees: a list of instructions, each under the handle the client holds.
\<close>

type_synonym view = "(nat \<times> ir_instruction) list"

abbreviation handles :: "view \<Rightarrow> nat list" where
  "handles l \<equiv> map fst l"

definition represents :: "instr_table \<Rightarrow> view \<Rightarrow> bool" where
  "represents t l \<longleftrightarrow> table_inv t (handles l) \<and> metadata_readable t \<and>
     (\<forall>(p, x)\<in>set l. map_option snd (content t p) = Some x)"

text \<open>The edits, and what each does to the list; a new handle differs from those in use.\<close>

datatype edit =
    NewInstruction nat | NewBefore nat nat | NewAfter nat nat
  | Clone nat | CloneBefore nat nat | CloneAfter nat nat
  | Delete nat | DeleteAll | MoveBefore nat nat | MoveToEnd nat | MoveAfter nat nat

definition blank :: "nat \<Rightarrow> ir_instruction" where
  "blank ty = IRLang.ir_instr_init\<lparr>inst_type := ty mod 2 ^ 16\<rparr>"

inductive edit_spec :: "edit \<Rightarrow> view \<Rightarrow> view \<Rightarrow> bool" where
  new: "f \<notin> set (handles l) \<Longrightarrow> edit_spec (NewInstruction ty) l (l @ [(f, blank ty)])"
| new_before: "l = xs @ (q, y) # ys \<Longrightarrow> f \<notin> set (handles l) \<Longrightarrow>
    edit_spec (NewBefore q ty) l (xs @ (f, blank ty) # (q, y) # ys)"
| new_after: "l = xs @ (q, y) # ys \<Longrightarrow> f \<notin> set (handles l) \<Longrightarrow>
    edit_spec (NewAfter q ty) l (xs @ (q, y) # (f, blank ty) # ys)"
| clone: "(q, y) \<in> set l \<Longrightarrow> f \<notin> set (handles l) \<Longrightarrow> edit_spec (Clone q) l (l @ [(f, y)])"
| clone_before: "(q, y) \<in> set l \<Longrightarrow> l = xs @ (b, x) # ys \<Longrightarrow> f \<notin> set (handles l) \<Longrightarrow>
    edit_spec (CloneBefore q b) l (xs @ (f, y) # (b, x) # ys)"
| clone_after: "(q, y) \<in> set l \<Longrightarrow> l = xs @ (b, x) # ys \<Longrightarrow> f \<notin> set (handles l) \<Longrightarrow>
    edit_spec (CloneAfter q b) l (xs @ (b, x) # (f, y) # ys)"
| delete: "l = xs @ (p, x) # ys \<Longrightarrow> xs @ ys \<noteq> [] \<Longrightarrow> edit_spec (Delete p) l (xs @ ys)"
| delete_all: "edit_spec DeleteAll l []"
| move_before: "l = xs @ (p, x) # ys \<Longrightarrow> xs @ ys = us @ (q, y) # vs \<Longrightarrow>
    edit_spec (MoveBefore p q) l (us @ (p, x) # (q, y) # vs)"
| move_to_end: "l = xs @ (p, x) # ys \<Longrightarrow> edit_spec (MoveToEnd p) l (xs @ ys @ [(p, x)])"
| move_after: "l = xs @ (p, x) # ys \<Longrightarrow> xs @ ys = us @ (q, y) # vs \<Longrightarrow>
    edit_spec (MoveAfter p q) l (us @ (q, y) # (p, x) # vs)"

inductive_cases edit_specE: "edit_spec e l l'"

text \<open>The edits as calls of the IR manager.\<close>

fun run_edit :: "edit \<Rightarrow> instr_table \<Rightarrow> instr_table option" where
  "run_edit (NewInstruction ty) t = map_option snd (IRMETHOD_newInstructionOfType ty t)"
| "run_edit (NewBefore q ty) t = map_option snd (IRMETHOD_newInstructionOfTypeBefore (Some q) ty t)"
| "run_edit (NewAfter q ty) t = map_option snd (IRMETHOD_newInstructionOfTypeAfter (Some q) ty t)"
| "run_edit (Clone q) t = map_option snd (IRMETHOD_cloneInstruction q t)"
| "run_edit (CloneBefore q b) t = map_option snd (IRMETHOD_cloneInstructionAndInsertBefore q b t)"
| "run_edit (CloneAfter q b) t = map_option snd (IRMETHOD_cloneInstructionAndInsertAfter q b t)"
| "run_edit (Delete p) t = IRMETHOD_deleteInstruction p t"
| "run_edit DeleteAll t = IRMETHOD_deleteInstructions t"
| "run_edit (MoveBefore p q) t = IRMETHOD_moveInstructionBefore p q t"
| "run_edit (MoveToEnd p) t = IRMETHOD_moveInstructionBefore p (exit_pointer t) t"
| "run_edit (MoveAfter p q) t = IRMETHOD_moveInstructionAfter p q t"

lemma touch_simps [simp]:
  "table_inv (touch t) = table_inv t" "content (touch t) = content t" "exit_pointer (touch t) = exit_pointer t"
  "metadata_readable (touch t) = metadata_readable t" "next_address (touch t) = next_address t"
  "instructionsTop (touch t) = instructionsTop t" "represents (touch t) = represents t"
  by (simp_all add: touch_def fun_eq_iff represents_def)

lemma set_type_eq:
  assumes "content t p = Some (b, x)" and "table_inv t ps"
  shows "\<exists>t'. set_type p ty t = Some t' \<and> table_inv t' ps \<and>
    content t' = (content t)(p \<mapsto> (b, x\<lparr>inst_type := ty mod 2 ^ 16\<rparr>)) \<and>
    exit_pointer t' = exit_pointer t \<and> (metadata_readable t \<longrightarrow> metadata_readable t')"
proof -
  obtain c where c: "heap t p = Some c" "cell_metadata c = b" "cell_body c = x"
    using assms(1) by (auto simp: content_def)
  let ?r = "t\<lparr>heap := (heap t)(p \<mapsto> c\<lparr>cell_body := x\<lparr>inst_type := ty mod 2 ^ 16\<rparr>\<rparr>)\<rparr>"
  have "table_inv ?r ps"
    using assms(2) c ids_from_cong [of "ps @ [exit_pointer t]" "heap ?r" "heap t" 0]
    by (auto simp: table_inv_def)
  then show ?thesis
    using c by (intro exI [of _ ?r]) (auto simp: set_type_def content_def fun_eq_iff metadata_readable_def)
qed

lemma represents_member:
  assumes "represents t l" and "(p, x) \<in> set l"
  shows "\<exists>b. content t p = Some (b, x)"
  using assms by (fastforce simp: represents_def)

lemma represents_readable: "represents t l \<Longrightarrow> \<exists>b. need_metadata t = Some b"
  using readable_need_metadata by (auto simp: represents_def)

section \<open>The interface the composed operations rely on\<close>

locale instruction_sequence =
  fixes inv :: "'s \<Rightarrow> 'p list \<Rightarrow> bool" and fits :: "'p list \<Rightarrow> bool" and ready :: "'s \<Rightarrow> bool"
    and body_at :: "'s \<Rightarrow> 'p \<Rightarrow> 'c option"
    and size_of :: "'s \<Rightarrow> nat" and last_of :: "'s \<Rightarrow> 'p option"
    and delete_op :: "'p \<Rightarrow> 's \<Rightarrow> 's option" and clone_op :: "'p \<Rightarrow> 's \<Rightarrow> ('p \<times> 's) option"
    and move_before_op :: "'p \<Rightarrow> 'p \<Rightarrow> 's \<Rightarrow> 's option" and move_after_op :: "'p \<Rightarrow> 'p \<Rightarrow> 's \<Rightarrow> 's option"
  assumes size_law: "inv t ps \<Longrightarrow> size_of t = length ps"
    and last_law: "inv t (ps @ [p]) \<Longrightarrow> last_of t = Some p"
    and fits_law: "fits (xs @ p # ys) \<Longrightarrow> fits (xs @ ys)"
    and delete_law: "inv t (xs @ p # ys) \<Longrightarrow> fits (xs @ ys) \<Longrightarrow>
      \<exists>t'. delete_op p t = Some t' \<and> inv t' (xs @ ys) \<and> (\<forall>r. r \<noteq> p \<longrightarrow> body_at t' r = body_at t r)"
    and clone_law: "inv t ps \<Longrightarrow> fits ps \<Longrightarrow> ready t \<Longrightarrow> body_at t q = Some y \<Longrightarrow>
      \<exists>p t'. clone_op q t = Some (p, t') \<and> inv t' (ps @ [p]) \<and> body_at t p = None \<and>
        body_at t' = (body_at t)(p \<mapsto> y)"
    and move_before_law: "inv t (xs @ p # ys) \<Longrightarrow> fits (xs @ p # ys) \<Longrightarrow> xs @ ys = us @ q # vs \<Longrightarrow>
      \<exists>t'. move_before_op p q t = Some t' \<and> inv t' (us @ p # q # vs) \<and> body_at t' = body_at t"
    and move_after_law: "inv t (xs @ p # ys) \<Longrightarrow> fits (xs @ p # ys) \<Longrightarrow> xs @ ys = us @ q # vs \<Longrightarrow>
      \<exists>t'. move_after_op p q t = Some t' \<and> inv t' (us @ q # p # vs) \<and> body_at t' = body_at t"
begin

lemma drain_empties:
  "inv t ps \<Longrightarrow> fits ps \<Longrightarrow> \<exists>t'. drain size_of last_of delete_op (length ps) t = Some t' \<and> inv t' []"
proof (induction ps arbitrary: t rule: rev_induct)
  case Nil
  then show ?case using size_law by auto
next
  case (snoc p ps)
  have "fits ps" using fits_law [of ps p "[]"] snoc.prems(2) by simp
  moreover from this obtain t1 where "delete_op p t = Some t1" "inv t1 ps"
    using delete_law [of t ps p "[]"] snoc.prems by auto
  ultimately show ?case
    using snoc.IH [of t1] size_law [OF snoc.prems(1)] last_law [OF snoc.prems(1)] by simp
qed

lemma clone_before:
  assumes "inv t (xs @ b # ys)" and "\<And>p. fits (xs @ b # ys @ [p])" and "ready t" and "body_at t q = Some y"
  shows "\<exists>p t'. clone_and_move clone_op move_before_op q b t = Some (p, t') \<and> inv t' (xs @ p # b # ys) \<and>
    body_at t p = None \<and> body_at t' = (body_at t)(p \<mapsto> y)"
proof -
  have "fits (xs @ b # ys)" using fits_law [of "xs @ b # ys" b "[]"] assms(2) by simp
  then obtain p t1 where t1: "clone_op q t = Some (p, t1)" "inv t1 ((xs @ b # ys) @ p # [])"
    "body_at t p = None" "body_at t1 = (body_at t)(p \<mapsto> y)"
    using clone_law [OF assms(1) _ assms(3,4)] by auto
  moreover obtain t2 where "move_before_op p b t1 = Some t2" "inv t2 (xs @ p # b # ys)" "body_at t2 = body_at t1"
    using move_before_law [OF t1(2), of xs b ys] assms(2) [of p] by auto
  ultimately show ?thesis by (auto simp: clone_and_move_def)
qed

lemma clone_after:
  assumes "inv t (xs @ b # ys)" and "\<And>p. fits (xs @ b # ys @ [p])" and "ready t" and "body_at t q = Some y"
  shows "\<exists>p t'. clone_and_move clone_op move_after_op q b t = Some (p, t') \<and> inv t' (xs @ b # p # ys) \<and>
    body_at t p = None \<and> body_at t' = (body_at t)(p \<mapsto> y)"
proof -
  have "fits (xs @ b # ys)" using fits_law [of "xs @ b # ys" b "[]"] assms(2) by simp
  then obtain p t1 where t1: "clone_op q t = Some (p, t1)" "inv t1 ((xs @ b # ys) @ p # [])"
    "body_at t p = None" "body_at t1 = (body_at t)(p \<mapsto> y)"
    using clone_law [OF assms(1) _ assms(3,4)] by auto
  moreover obtain t2 where "move_after_op p b t1 = Some t2" "inv t2 (xs @ b # p # ys)" "body_at t2 = body_at t1"
    using move_after_law [OF t1(2), of xs b ys] assms(2) [of p] by auto
  ultimately show ?thesis by (auto simp: clone_and_move_def)
qed

end

definition body_at :: "instr_table \<Rightarrow> nat \<Rightarrow> ir_instruction option" where
  "body_at t p = map_option snd (content t p)"

lemma body_at_touch [simp]: "body_at (touch t) = body_at t"
  by (simp add: body_at_def fun_eq_iff)

lemma body_at_upd: "content t' = (content t)(p \<mapsto> (b, x)) \<Longrightarrow> body_at t' = (body_at t)(p \<mapsto> x)"
  by (simp add: body_at_def fun_eq_iff)

lemma body_at_same: "content t' = content t \<Longrightarrow> body_at t' = body_at t"
  by (simp add: body_at_def fun_eq_iff)

lemma body_at_Some: "body_at t p = Some x \<Longrightarrow> \<exists>b. content t p = Some (b, x)"
  by (auto simp: body_at_def)

interpretation table: instruction_sequence table_inv capacity metadata_readable body_at
  instructionsTop last_not_exit ir_instr_delete ir_instr_clone ir_instr_move_before ir_instr_move_after
proof
  fix t xs p ys us q vs ps y
  show "table_inv t ps \<Longrightarrow> instructionsTop t = length ps" by (rule top_at)
  show "last_not_exit t = Some p" if "table_inv t (ps @ [p])"
    using tbl_get_last_snoc [OF that] not_exit_at [of t ps p "[]"] that by (simp add: last_not_exit_def assertion_def)
  show "capacity (xs @ p # ys) \<Longrightarrow> capacity (xs @ ys)" by (rule capacity_smaller)
  show "\<exists>t'. ir_instr_delete p t = Some t' \<and> table_inv t' (xs @ ys) \<and> (\<forall>r. r \<noteq> p \<longrightarrow> body_at t' r = body_at t r)"
    if "table_inv t (xs @ p # ys)" "capacity (xs @ ys)"
    using delete_eq [OF that] by (fastforce simp: body_at_def)
  show "\<exists>p t'. ir_instr_clone q t = Some (p, t') \<and> table_inv t' (ps @ [p]) \<and> body_at t p = None \<and>
      body_at t' = (body_at t)(p \<mapsto> y)"
    if t: "table_inv t ps" "capacity ps" "metadata_readable t" "body_at t q = Some y"
  proof -
    obtain b d where "need_metadata t = Some b" "content t q = Some (d, y)"
      using readable_need_metadata [OF t(3)] body_at_Some [OF t(4)] by blast
    from clone_eq [OF t(1,2) this refl] show ?thesis by (auto simp: body_at_upd body_at_def)
  qed
  show "\<exists>t'. ir_instr_move_before p q t = Some t' \<and> table_inv t' (us @ p # q # vs) \<and> body_at t' = body_at t"
    if "table_inv t (xs @ p # ys)" "capacity (xs @ p # ys)" "xs @ ys = us @ q # vs"
    using move_before_eq [OF that] body_at_same by blast
  show "\<exists>t'. ir_instr_move_after p q t = Some t' \<and> table_inv t' (us @ q # p # vs) \<and> body_at t' = body_at t"
    if "table_inv t (xs @ p # ys)" "capacity (xs @ p # ys)" "xs @ ys = us @ q # vs"
    using move_after_eq [OF that] body_at_same by blast
qed

section \<open>The buffer refines the abstract sequence\<close>

lemma represents_intro:
  assumes "table_inv t (handles l)" and "metadata_readable t" and "\<And>p x. (p, x) \<in> set l \<Longrightarrow> body_at t p = Some x"
  shows "represents t l"
  using assms by (auto simp: represents_def body_at_def)

lemma represents_body: "represents t l \<Longrightarrow> (p, x) \<in> set l \<Longrightarrow> body_at t p = Some x"
  by (auto simp: represents_def body_at_def)

lemma represents_dom: "represents t l \<Longrightarrow> p \<in> set (handles l) \<Longrightarrow> body_at t p \<noteq> None"
  using represents_body by fastforce

lemma delete_all_eq:
  assumes "table_inv t ps" and "capacity ps" and "metadata_readable t"
  shows "\<exists>t'. ir_instr_delete_all t = Some t' \<and> table_inv t' [] \<and> metadata_readable t'"
proof (cases "ps = []")
  case True
  then show ?thesis using assms top_at [OF assms(1)] by (auto simp: ir_instr_delete_all_def)
next
  case False
  obtain t1 where t1: "drain instructionsTop last_not_exit ir_instr_delete (length ps) t = Some t1" "table_inv t1 []"
    using table.drain_empties [OF assms(1,2)] by blast
  let ?r = "t1\<lparr>slots := replicate (length (slots t1)) None\<rparr>"
  have "table_inv ?r []" using t1(2) by (auto simp: table_inv_def)
  moreover have "metadata_readable ?r" using t1(2) by (auto simp: table_inv_def metadata_readable_def)
  moreover have "ir_instr_delete_all t = Some ?r"
    using False t1 top_at [OF assms(1)] top_at [OF t1(2)] by (simp add: ir_instr_delete_all_def assertion_def)
  ultimately show ?thesis by blast
qed

text \<open>An operation that adds an instruction, and one that keeps the bodies of those that stay.\<close>

lemma represents_add:
  assumes "represents t l" and "table_inv t' (handles l')" and "metadata_readable t'"
    and "body_at t' = (body_at t)(f \<mapsto> y)" and "body_at t f = None" and "set l' = insert (f, y) (set l)"
  shows "represents t' l' \<and> f \<notin> set (handles l)"
proof
  show f: "f \<notin> set (handles l)" using represents_dom [OF assms(1), of f] assms(5) by blast
  show "represents t' l'"
  proof (rule represents_intro [OF assms(2,3)])
    fix p x assume p: "(p, x) \<in> set l'"
    show "body_at t' p = Some x"
    proof (cases "p = f")
      case True
      then have "(p, x) \<notin> set l" using f by force
      with p True show ?thesis using assms(4,6) by auto
    next
      case False
      with p show ?thesis using assms(4,6) represents_body [OF assms(1), of p x] by simp
    qed
  qed
qed

lemma represents_keep:
  assumes "represents t l" and "table_inv t' (handles l')" and "metadata_readable t'"
    and "\<And>p x. (p, x) \<in> set l' \<Longrightarrow> (p, x) \<in> set l \<and> body_at t' p = body_at t p"
  shows "represents t' l'"
  using assms(4) represents_body [OF assms(1)] by (intro represents_intro [OF assms(2,3)]) auto

lemma new_of_type_eq:
  assumes new: "op (touch t) = Some (f, t1)" "table_inv t1 (handles l')" 
    "content t1 = (content t)(f \<mapsto> (b, IRLang.ir_instr_init))" "content t f = None" "metadata_readable t1"
    and l': "set l' = insert (f, blank ty) (set l)" and r: "represents t l"
  shows "\<exists>t'. do { (p, t) \<leftarrow> op (touch t); t \<leftarrow> set_type p ty t; Some (p, t) } = Some (f, t') \<and>
    represents t' l' \<and> f \<notin> set (handles l)"
proof -
  obtain t2 where t2: "set_type f ty t1 = Some t2" "table_inv t2 (handles l')"
    "content t2 = (content t1)(f \<mapsto> (b, blank ty))" "metadata_readable t2"
    using set_type_eq [OF _ new(2), of f b IRLang.ir_instr_init ty] new(3,5) by (auto simp: blank_def)
  have "content t2 = (content t)(f \<mapsto> (b, blank ty))" using t2(3) new(3) by simp
  from represents_add [OF r t2(2,4) body_at_upd [OF this] _ l'] new(1,4) t2(1)
  show ?thesis by (simp add: body_at_def)
qed

lemma capacity_length: "capacity ps \<Longrightarrow> length ps' \<le> length ps \<Longrightarrow> capacity ps'"
  by (simp add: capacity_def)

lemma edit_new:
  assumes r: "represents t l" and cap: "capacity (0 # handles l)"
  shows "\<exists>t' f. run_edit (NewInstruction ty) t = Some t' \<and> represents t' (l @ [(f, blank ty)]) \<and> f \<notin> set (handles l)"
proof -
  obtain b where b: "need_metadata (touch t) = Some b" using represents_readable [of "touch t" l] r by auto
  have i: "table_inv (touch t) (handles l)" "metadata_readable t" using r by (simp_all add: represents_def)
  obtain t1 where "ir_instr_new (touch t) = Some (next_address t, t1)"
    "table_inv t1 (handles (l @ [(next_address t, blank ty)]))" 
    "content t1 = (content t)(next_address t \<mapsto> (b, IRLang.ir_instr_init))"
    "content t (next_address t) = None" "metadata_readable t1"
    using new_eq [OF i(1) capacity_length [OF cap] b] i(2) by auto
  from new_of_type_eq [where op = ir_instr_new, OF this, where ty = ty and l = l] r show ?thesis
    by (auto simp: IRMETHOD_newInstructionOfType_def)
qed

lemma edit_new_before:
  assumes r: "represents t (xs @ (q, y) # ys)" and cap: "capacity (0 # handles (xs @ (q, y) # ys))"
  shows "\<exists>t' f. run_edit (NewBefore q ty) t = Some t' \<and> represents t' (xs @ (f, blank ty) # (q, y) # ys) \<and>
    f \<notin> set (handles (xs @ (q, y) # ys))"
proof -
  obtain b where b: "need_metadata (touch t) = Some b" using represents_readable [of "touch t"] r by auto
  have i: "table_inv (touch t) (handles xs @ q # handles ys)" "metadata_readable t" using r by (simp_all add: represents_def)
  obtain t1 where "ir_instr_new_before (Some q) (touch t) = Some (next_address t, t1)"
    "table_inv t1 (handles (xs @ (next_address t, blank ty) # (q, y) # ys))" 
    "content t1 = (content t)(next_address t \<mapsto> (b, IRLang.ir_instr_init))"
    "content t (next_address t) = None" "metadata_readable t1"
    using new_before_eq [OF i(1) capacity_length [OF cap] b, of "Some q"] i(2) by auto
  from new_of_type_eq [where op = "ir_instr_new_before (Some q)", OF this, where ty = ty and l = "xs @ (q, y) # ys"] r
  show ?thesis by (auto simp: IRMETHOD_newInstructionOfTypeBefore_def)
qed

lemma edit_new_after:
  assumes r: "represents t (xs @ (q, y) # ys)" and cap: "capacity (0 # handles (xs @ (q, y) # ys))"
  shows "\<exists>t' f. run_edit (NewAfter q ty) t = Some t' \<and> represents t' (xs @ (q, y) # (f, blank ty) # ys) \<and>
    f \<notin> set (handles (xs @ (q, y) # ys))"
proof -
  obtain b where b: "need_metadata (touch t) = Some b" using represents_readable [of "touch t"] r by auto
  have i: "table_inv (touch t) ((handles xs @ [q]) @ handles ys)" "metadata_readable t" using r by (simp_all add: represents_def)
  have cap': "capacity ((handles xs @ [q]) @ next_address t # handles ys)" using cap by (simp add: capacity_def)
  obtain t1 where "ir_instr_new_after (Some q) (touch t) = Some (next_address t, t1)"
    "table_inv t1 (handles (xs @ (q, y) # (next_address t, blank ty) # ys))" 
    "content t1 = (content t)(next_address t \<mapsto> (b, IRLang.ir_instr_init))"
    "content t (next_address t) = None" "metadata_readable t1"
    using new_after_eq [OF i(1) cap' b, of "Some q"] i(2) by auto
  from new_of_type_eq [where op = "ir_instr_new_after (Some q)", OF this, where ty = ty and l = "xs @ (q, y) # ys"] r
  show ?thesis by (auto simp: IRMETHOD_newInstructionOfTypeAfter_def)
qed

lemma edit_clone:
  assumes r: "represents t l" and cap: "capacity (0 # handles l)" and q: "(q, y) \<in> set l"
  shows "\<exists>t' f. run_edit (Clone q) t = Some t' \<and> represents t' (l @ [(f, y)]) \<and> f \<notin> set (handles l)"
proof -
  obtain b where b: "need_metadata (touch t) = Some b" using represents_readable [of "touch t"] r by auto
  obtain d where d: "content (touch t) q = Some (d, y)" using represents_member [OF r q] by auto
  have i: "table_inv (touch t) (handles l)" "metadata_readable (touch t)" using r by (simp_all add: represents_def)
  obtain t1 where t1: "ir_instr_clone q (touch t) = Some (next_address t, t1)"
    "table_inv t1 (handles (l @ [(next_address t, y)]))" 
    "content t1 = (content t)(next_address t \<mapsto> (b, y))" "content t (next_address t) = None" "metadata_readable t1"
    using clone_eq [OF i(1) capacity_length [OF cap] b d refl] i(2) by auto
  have "body_at t (next_address t) = None" using t1(4) by (simp add: body_at_def)
  from represents_add [OF r t1(2,5) body_at_upd [OF t1(3)] this] t1(1) show ?thesis
    by (auto simp: IRMETHOD_cloneInstruction_def)
qed

lemma edit_clone_before:
  assumes r: "represents t (xs @ (b, x) # ys)" and cap: "capacity (0 # handles (xs @ (b, x) # ys))"
    and q: "(q, y) \<in> set (xs @ (b, x) # ys)"
  shows "\<exists>t' f. run_edit (CloneBefore q b) t = Some t' \<and> represents t' (xs @ (f, y) # (b, x) # ys) \<and>
    f \<notin> set (handles (xs @ (b, x) # ys))"
proof -
  have i: "table_inv (touch t) (handles xs @ b # handles ys)" "metadata_readable (touch t)"
    using r by (simp_all add: represents_def)
  have cap': "capacity (handles xs @ b # handles ys @ [p])" for p using cap by (simp add: capacity_def)
  obtain f t1 where t1: "clone_and_move ir_instr_clone ir_instr_move_before q b (touch t) = Some (f, t1)"
    "table_inv t1 (handles (xs @ (f, y) # (b, x) # ys))" "body_at t1 = (body_at t)(f \<mapsto> y)" "body_at t f = None"
    using table.clone_before [OF i(1) cap' i(2), of q y] represents_body [OF r q] by auto
  have "metadata_readable t1" using t1(2) by (rule readable_two) simp
  from represents_add [OF r t1(2) this t1(3,4)] t1(1) show ?thesis
    by (auto simp: IRMETHOD_cloneInstructionAndInsertBefore_def)
qed

lemma edit_clone_after:
  assumes r: "represents t (xs @ (b, x) # ys)" and cap: "capacity (0 # handles (xs @ (b, x) # ys))"
    and q: "(q, y) \<in> set (xs @ (b, x) # ys)"
  shows "\<exists>t' f. run_edit (CloneAfter q b) t = Some t' \<and> represents t' (xs @ (b, x) # (f, y) # ys) \<and>
    f \<notin> set (handles (xs @ (b, x) # ys))"
proof -
  have i: "table_inv (touch t) (handles xs @ b # handles ys)" "metadata_readable (touch t)"
    using r by (simp_all add: represents_def)
  have cap': "capacity (handles xs @ b # handles ys @ [p])" for p using cap by (simp add: capacity_def)
  obtain f t1 where t1: "clone_and_move ir_instr_clone ir_instr_move_after q b (touch t) = Some (f, t1)"
    "table_inv t1 (handles (xs @ (b, x) # (f, y) # ys))" "body_at t1 = (body_at t)(f \<mapsto> y)" "body_at t f = None"
    using table.clone_after [OF i(1) cap' i(2), of q y] represents_body [OF r q] by auto
  have "metadata_readable t1" using t1(2) by (rule readable_two) simp
  from represents_add [OF r t1(2) this t1(3,4)] t1(1) show ?thesis
    by (auto simp: IRMETHOD_cloneInstructionAndInsertAfter_def)
qed

lemma represents_distinct: "represents t l \<Longrightarrow> distinct (handles l)"
  by (simp add: represents_def table_inv_def)

lemma edit_delete:
  assumes r: "represents t (xs @ (p, x) # ys)" and cap: "capacity (handles (xs @ (p, x) # ys))"
    and ne: "xs @ ys \<noteq> []"
  shows "\<exists>t'. run_edit (Delete p) t = Some t' \<and> represents t' (xs @ ys)"
proof -
  have i: "table_inv (touch t) (handles xs @ p # handles ys)" using r by (simp add: represents_def)
  have "capacity (handles xs @ handles ys)" using cap by (simp add: capacity_def)
  from delete_eq [OF i this] obtain t' where t': "ir_instr_delete p (touch t) = Some t'"
    "table_inv t' (handles (xs @ ys))" "content t' = (content t)(p := None)" "metadata_readable t'"
    using ne by auto
  have "p \<notin> set (handles (xs @ ys))" using represents_distinct [OF r] by auto
  then have "body_at t' r = body_at t r" if "(r, z) \<in> set (xs @ ys)" for r z
    using that t'(3) by (force simp: body_at_def)
  then have "represents t' (xs @ ys)" by (intro represents_keep [OF r t'(2,4)]) auto
  with t'(1) show ?thesis by (auto simp: IRMETHOD_deleteInstruction_def)
qed

lemma edit_delete_all:
  assumes r: "represents t l" and cap: "capacity (handles l)"
  shows "\<exists>t'. run_edit DeleteAll t = Some t' \<and> represents t' []"
  using delete_all_eq [of "touch t" "handles l"] assms by (auto simp: represents_def IRMETHOD_deleteInstructions_def)

lemma edit_move_before:
  assumes r: "represents t (xs @ (p, x) # ys)" and cap: "capacity (handles (xs @ (p, x) # ys))"
    and split: "xs @ ys = us @ (q, y) # vs"
  shows "\<exists>t'. run_edit (MoveBefore p q) t = Some t' \<and> represents t' (us @ (p, x) # (q, y) # vs)"
proof -
  have i: "table_inv (touch t) (handles xs @ p # handles ys)" using r by (simp add: represents_def)
  have s: "handles xs @ handles ys = handles us @ q # handles vs" using arg_cong [OF split, of handles] by simp
  have c: "capacity (handles xs @ p # handles ys)" using cap by simp
  obtain t' where t0: "ir_instr_move_before p q (touch t) = Some t'"
    "table_inv t' (handles us @ p # q # handles vs)" "content t' = content (touch t)"
    using move_before_eq [OF i c s] by blast
  then have t': "ir_instr_move_before p q (touch t) = Some t'"
    "table_inv t' (handles (us @ (p, x) # (q, y) # vs))" "content t' = content t" by simp_all
  have "set (us @ (p, x) # (q, y) # vs) = set (xs @ (p, x) # ys)" using arg_cong [OF split, of set] by auto
  then have "represents t' (us @ (p, x) # (q, y) # vs)"
    using body_at_same [OF t'(3)] by (intro represents_keep [OF r t'(2) readable_two [OF t'(2)]]) auto
  with t'(1) show ?thesis by (auto simp: IRMETHOD_moveInstructionBefore_def)
qed

lemma edit_move_after:
  assumes r: "represents t (xs @ (p, x) # ys)" and cap: "capacity (handles (xs @ (p, x) # ys))"
    and split: "xs @ ys = us @ (q, y) # vs"
  shows "\<exists>t'. run_edit (MoveAfter p q) t = Some t' \<and> represents t' (us @ (q, y) # (p, x) # vs)"
proof -
  have i: "table_inv (touch t) (handles xs @ p # handles ys)" using r by (simp add: represents_def)
  have s: "handles xs @ handles ys = handles us @ q # handles vs" using arg_cong [OF split, of handles] by simp
  have c: "capacity (handles xs @ p # handles ys)" using cap by simp
  obtain t' where t0: "ir_instr_move_after p q (touch t) = Some t'"
    "table_inv t' (handles us @ q # p # handles vs)" "content t' = content (touch t)"
    using move_after_eq [OF i c s] by blast
  then have t': "ir_instr_move_after p q (touch t) = Some t'"
    "table_inv t' (handles (us @ (q, y) # (p, x) # vs))" "content t' = content t" by simp_all
  have "set (us @ (q, y) # (p, x) # vs) = set (xs @ (p, x) # ys)" using arg_cong [OF split, of set] by auto
  then have "represents t' (us @ (q, y) # (p, x) # vs)"
    using body_at_same [OF t'(3)] by (intro represents_keep [OF r t'(2) readable_two [OF t'(2)]]) auto
  with t'(1) show ?thesis by (auto simp: IRMETHOD_moveInstructionAfter_def)
qed

lemma edit_move_to_end:
  assumes r: "represents t (xs @ (p, x) # ys)" and cap: "capacity (handles (xs @ (p, x) # ys))"
  shows "\<exists>t'. run_edit (MoveToEnd p) t = Some t' \<and> represents t' (xs @ ys @ [(p, x)])"
proof -
  have i: "table_inv (touch t) (handles xs @ p # handles ys)" using r by (simp add: represents_def)
  have c: "capacity (handles xs @ p # handles ys)" using cap by simp
  obtain t' where t0: "ir_instr_move_before p (exit_pointer (touch t)) (touch t) = Some t'"
    "table_inv t' (handles xs @ handles ys @ [p])" "content t' = content (touch t)"
    "metadata_readable (touch t) \<longrightarrow> metadata_readable t'"
    using move_to_end_eq [OF i c] by blast
  then have t': "ir_instr_move_before p (exit_pointer t) (touch t) = Some t'"
    "table_inv t' (handles (xs @ ys @ [(p, x)]))" "content t' = content t"
    "metadata_readable t \<longrightarrow> metadata_readable t'" by simp_all
  have "represents t' (xs @ ys @ [(p, x)])"
    using body_at_same [OF t'(3)] t'(4) r by (intro represents_keep [OF r t'(2)]) (auto simp: represents_def)
  with t'(1) show ?thesis by (auto simp: IRMETHOD_moveInstructionBefore_def)
qed

text \<open>
  Every edit the abstract sequence allows succeeds on the buffer, with the list the abstract
  sequence prescribes for some new handle.
\<close>

lemma run_edit_refines:
  assumes "edit_spec e l l0" and "represents t l" and "capacity (0 # handles l)"
  shows "\<exists>t' l'. run_edit e t = Some t' \<and> represents t' l' \<and> edit_spec e l l'"
proof -
  have cap: "capacity (handles l)" using assms(3) by (simp add: capacity_def)
  from assms(1) show ?thesis
  proof cases
    case (new f ty)
    with edit_new [OF assms(2,3)] show ?thesis by (blast intro: edit_spec.intros)
  next
    case (new_before xs q y ys f ty)
    with edit_new_before [of t xs q y ys] assms(2,3) show ?thesis by (blast intro: edit_spec.intros)
  next
    case (new_after xs q y ys f ty)
    with edit_new_after [of t xs q y ys] assms(2,3) show ?thesis by (blast intro: edit_spec.intros)
  next
    case (clone q y f)
    with edit_clone [OF assms(2,3)] show ?thesis by (blast intro: edit_spec.intros)
  next
    case (clone_before q y xs b x ys f)
    with edit_clone_before [of t xs b x ys q y] assms(2,3) show ?thesis by (blast intro: edit_spec.intros)
  next
    case (clone_after q y xs b x ys f)
    with edit_clone_after [of t xs b x ys q y] assms(2,3) show ?thesis by (blast intro: edit_spec.intros)
  next
    case (delete xs p x ys)
    with edit_delete [of t xs p x ys] assms(2) cap show ?thesis by (blast intro: edit_spec.intros)
  next
    case delete_all
    with edit_delete_all [OF assms(2) cap] show ?thesis by (blast intro: edit_spec.intros)
  next
    case (move_before xs p x ys us q y vs)
    with edit_move_before [of t xs p x ys us q y vs] assms(2) cap show ?thesis by (blast intro: edit_spec.intros)
  next
    case (move_to_end xs p x ys)
    with edit_move_to_end [of t xs p x ys] assms(2) cap show ?thesis by (blast intro: edit_spec.intros)
  next
    case (move_after xs p x ys us q y vs)
    with edit_move_after [of t xs p x ys us q y vs] assms(2) cap show ?thesis by (blast intro: edit_spec.intros)
  qed
qed

section \<open>Reachable buffers\<close>

text \<open>The handles the buffer holds, and the edits a client may ask for.\<close>

definition handles_of :: "instr_table \<Rightarrow> nat list" where
  "handles_of t = map (\<lambda>i. the (slots t ! i)) [0..<instructionsTop t]"

fun permitted :: "edit \<Rightarrow> nat list \<Rightarrow> bool" where
  "permitted (NewInstruction ty) hs = True"
| "permitted (NewBefore q ty) hs = (q \<in> set hs)"
| "permitted (NewAfter q ty) hs = (q \<in> set hs)"
| "permitted (Clone q) hs = (q \<in> set hs)"
| "permitted (CloneBefore q b) hs = (q \<in> set hs \<and> b \<in> set hs)"
| "permitted (CloneAfter q b) hs = (q \<in> set hs \<and> b \<in> set hs)"
| "permitted (Delete p) hs = (p \<in> set hs \<and> 1 < length hs)"
| "permitted DeleteAll hs = True"
| "permitted (MoveBefore p q) hs = (p \<in> set hs \<and> q \<in> set hs \<and> p \<noteq> q)"
| "permitted (MoveToEnd p) hs = (p \<in> set hs)"
| "permitted (MoveAfter p q) hs = (p \<in> set hs \<and> q \<in> set hs \<and> p \<noteq> q)"

inductive reachable_table :: "instr_table \<Rightarrow> bool" where
  init: "IRMETHOD_init = Some t \<Longrightarrow> reachable_table t"
| edit: "reachable_table t \<Longrightarrow> permitted e (handles_of t) \<Longrightarrow> capacity (0 # handles_of t) \<Longrightarrow>
    run_edit e t = Some t' \<Longrightarrow> reachable_table t'"

lemma handles_of_represents:
  assumes "represents t l"
  shows "handles_of t = handles l"
proof -
  obtain rest where "slots t = map Some (handles l) @ rest" "instructionsTop t = length l"
    using assms by (auto simp: represents_def table_inv_def)
  then show ?thesis by (intro nth_equalityI) (simp_all add: handles_of_def nth_append)
qed

lemma handle_split:
  assumes "p \<in> set (handles l)"
  obtains xs x ys where "l = xs @ (p, x) # ys"
  using assms by (auto simp: in_set_conv_decomp)

lemma handle_split_two:
  assumes "p \<in> set (handles l)" and "q \<in> set (handles l)" and "p \<noteq> q"
  obtains xs x ys us y vs where "l = xs @ (p, x) # ys" "xs @ ys = us @ (q, y) # vs"
proof -
  obtain xs x ys where l: "l = xs @ (p, x) # ys" using handle_split [OF assms(1)] .
  then have "q \<in> set (handles (xs @ ys))" using assms(2,3) by auto
  then obtain us y vs where "xs @ ys = us @ (q, y) # vs" using handle_split by blast
  with l show ?thesis by (rule that)
qed

lemma permitted_spec:
  assumes r: "represents t l" and p: "permitted e (handles l)"
  shows "\<exists>l'. edit_spec e l l'"
proof -
  have "heap t (next_address t) = None" using r by (auto simp: represents_def table_inv_def)
  then have "next_address t \<notin> set (handles l)"
    using represents_dom [OF r, of "next_address t"] by (simp add: body_at_def content_def) blast
  then obtain f where f: "f \<notin> set (handles l)" by blast
  show ?thesis
  proof (cases e)
    case (NewInstruction ty)
    then show ?thesis using f edit_spec.new by blast
  next
    case (NewBefore q ty)
    then obtain xs y ys where "l = xs @ (q, y) # ys" using p handle_split by (metis permitted.simps(2))
    then show ?thesis using NewBefore f edit_spec.new_before by blast
  next
    case (NewAfter q ty)
    then obtain xs y ys where "l = xs @ (q, y) # ys" using p handle_split by (metis permitted.simps(3))
    then show ?thesis using NewAfter f edit_spec.new_after by blast
  next
    case (Clone q)
    then obtain y where "(q, y) \<in> set l" using p by auto
    then show ?thesis using Clone f edit_spec.clone by blast
  next
    case (CloneBefore q b)
    then obtain y where y: "(q, y) \<in> set l" using p by auto
    obtain xs x ys where "l = xs @ (b, x) # ys" using CloneBefore p handle_split by (metis permitted.simps(5))
    then show ?thesis using y CloneBefore f edit_spec.clone_before by blast
  next
    case (CloneAfter q b)
    then obtain y where y: "(q, y) \<in> set l" using p by auto
    obtain xs x ys where "l = xs @ (b, x) # ys" using CloneAfter p handle_split by (metis permitted.simps(6))
    then show ?thesis using y CloneAfter f edit_spec.clone_after by blast
  next
    case (Delete p')
    then obtain xs x ys where l: "l = xs @ (p', x) # ys" using p handle_split by (metis permitted.simps(7))
    then have "xs @ ys \<noteq> []" using Delete p by auto
    then show ?thesis using l Delete edit_spec.delete by blast
  next
    case DeleteAll
    then show ?thesis using edit_spec.delete_all by blast
  next
    case (MoveBefore p' q)
    then obtain xs x ys us y vs where "l = xs @ (p', x) # ys" "xs @ ys = us @ (q, y) # vs"
      using p handle_split_two by (metis permitted.simps(9))
    then show ?thesis using MoveBefore edit_spec.move_before by blast
  next
    case (MoveToEnd p')
    then obtain xs x ys where "l = xs @ (p', x) # ys" using p handle_split by (metis permitted.simps(10))
    then show ?thesis using MoveToEnd edit_spec.move_to_end by blast
  next
    case (MoveAfter p' q)
    then obtain xs x ys us y vs where "l = xs @ (p', x) # ys" "xs @ ys = us @ (q, y) # vs"
      using p handle_split_two by (metis permitted.simps(11))
    then show ?thesis using MoveAfter edit_spec.move_after by blast
  qed
qed

lemma empty_table_represents: "represents empty_table []"
  by (auto simp: represents_def table_inv_def empty_table_def metadata_readable_def less_2_cases_iff)

lemma init_represents: "\<exists>t p. IRMETHOD_init = Some t \<and> represents t [(p, blank IRNOP)]"
  using edit_new [OF empty_table_represents, of IRNOP] by (auto simp: IRMETHOD_init_def capacity_def)

lemma reachable_represents: "reachable_table t \<Longrightarrow> \<exists>l. represents t l"
proof (induction rule: reachable_table.induct)
  case (init t)
  then show ?case using init_represents by (metis option.inject)
next
  case (edit t e t')
  then obtain l where l: "represents t l" by blast
  note h = handles_of_represents [OF l]
  obtain l0 where "edit_spec e l l0" using permitted_spec [OF l] edit(2) h by auto
  from run_edit_refines [OF this l] edit(3,4) h show ?case by auto
qed

section \<open>Dummy instructions\<close>

lemma get_by_pos_at:
  assumes "represents t (pre @ rest)"
  shows "tbl_get_by_pos (length pre) t = Some (hd (handles rest @ [exit_pointer t]))"
proof (cases rest)
  case Nil
  then show ?thesis using assms by (simp add: tbl_get_by_pos_def represents_def table_inv_def)
next
  case (Cons x xs)
  then show ?thesis
    using assms slot_at [of t "handles pre" "fst x" "handles xs"]
    by (simp add: tbl_get_by_pos_def represents_def table_inv_def)
qed

lemma insert_dummy_keep:
  assumes "represents t (pre @ (q, y) # rest)" and "inst_type y = IRNOP"
  shows "insert_dummy_at (length pre) t = Some t"
proof -
  have "body_at t q = Some y" using represents_body [OF assms(1)] by simp
  then show ?thesis
    using get_by_pos_at [OF assms(1)] assms(2)
    by (auto simp: insert_dummy_at_def instruction_type_def body_at_def content_def)
qed

lemma exit_content: "table_inv t ps \<Longrightarrow> instruction_type (exit_pointer t) t = map_option inst_type (body_at t (exit_pointer t))"
  by (auto simp: instruction_type_def body_at_def content_def option.map_comp comp_def)

lemma insert_dummy_new:
  assumes r: "represents t (pre @ rest)" and cap: "capacity (0 # handles (pre @ rest))"
    and e: "instruction_type (exit_pointer t) t = Some IREXITNODE"
    and n: "rest = [] \<or> inst_type (snd (hd rest)) \<noteq> IRNOP"
  shows "\<exists>t' f. insert_dummy_at (length pre) t = Some t' \<and> represents t' (pre @ (f, blank IRNOP) # rest) \<and>
    instruction_type (exit_pointer t') t' = Some IREXITNODE \<and> f \<notin> set (handles (pre @ rest))"
proof -
  let ?q = "hd (handles rest @ [exit_pointer t])" and ?f = "next_address t"
  have i: "table_inv t (handles pre @ handles rest)" "metadata_readable t" using r by (simp_all add: represents_def)
  obtain b where b: "need_metadata t = Some b" using represents_readable [OF r] by blast
  obtain t1 where t1: "ir_instr_new_before (Some ?q) t = Some (?f, t1)"
    "table_inv t1 (handles pre @ ?f # handles rest)"
    "content t1 = (content t)(?f \<mapsto> (b, IRLang.ir_instr_init))" "exit_pointer t1 = exit_pointer t"
    "content t ?f = None" "metadata_readable t1"
    using new_before_eq [OF i(1) capacity_length [OF cap] b, of "Some ?q"] i(2) by auto
  obtain t2 where t2: "set_type ?f IRNOP t1 = Some t2" "table_inv t2 (handles pre @ ?f # handles rest)"
    "content t2 = (content t1)(?f \<mapsto> (b, blank IRNOP))" "metadata_readable t2" "exit_pointer t2 = exit_pointer t1"
    using set_type_eq [OF _ t1(2), of ?f b IRLang.ir_instr_init IRNOP] t1(3,6) by (auto simp: blank_def)
  have c: "content t2 = (content t)(?f \<mapsto> (b, blank IRNOP))" using t2(3) t1(3) by simp
  have n': "body_at t ?f = None" using t1(5) by (simp add: body_at_def)
  have inv2: "table_inv t2 (handles (pre @ (?f, blank IRNOP) # rest))" using t2(2) by simp
  have rep: "represents t2 (pre @ (?f, blank IRNOP) # rest) \<and> ?f \<notin> set (handles (pre @ rest))"
    by (rule represents_add [OF r inv2 t2(4) body_at_upd [OF c] n']) auto
  have "instruction_type ?q t \<noteq> None \<and> instruction_type ?q t \<noteq> Some IRNOP"
  proof (cases rest)
    case Nil
    then show ?thesis using e by simp
  next
    case (Cons x xs)
    then have "body_at t (fst x) = Some (snd x)" using represents_body [OF r, of "fst x" "snd x"] by simp
    then show ?thesis using Cons n by (auto simp: instruction_type_def body_at_def content_def)
  qed
  moreover have "get_ID t1 ?f = Some (length pre)" using get_ID_at [OF t1(2)] by simp
  ultimately have "insert_dummy_at (length pre) t = Some t2"
    using get_by_pos_at [OF r] t1(1) t2(1) by (auto simp: insert_dummy_at_def assertion_def)
  moreover have "instruction_type (exit_pointer t2) t2 = Some IREXITNODE"
    using e exit_content [OF i(1)] exit_content [OF t2(2)] body_at_upd [OF c] n' t1(4) t2(5) by auto
  ultimately show ?thesis using rep by blast
qed

lemma insert_dummies_eq:
  assumes "represents t (pre @ rest)" and "capacity (replicate (Suc n) 0 @ handles (pre @ rest))"
    and "instruction_type (exit_pointer t) t = Some IREXITNODE"
  shows "\<exists>t' fs k. insert_dummies [length pre..<length pre + n] t = Some t' \<and>
    represents t' (pre @ take k rest @ map (\<lambda>f. (f, blank IRNOP)) fs @ drop k rest) \<and> k + length fs = n \<and>
    k \<le> length rest \<and> (\<forall>x\<in>set (take k rest). inst_type (snd x) = IRNOP)"
  using assms
proof (induction n arbitrary: t pre rest)
  case 0
  then show ?case by (intro exI [of _ t] exI [of _ "[]"] exI [of _ 0]) simp
next
  case (Suc n)
  have u: "[length pre..<length pre + Suc n] = length pre # [length (pre @ [x])..<length (pre @ [x]) + n]" for x :: "nat \<times> ir_instruction"
    by (simp add: upt_conv_Cons del: upt_Suc)
  have cap: "capacity (0 # handles (pre @ rest))" using Suc.prems(2) by (simp add: capacity_def)
  show ?case
  proof (cases "rest = [] \<or> inst_type (snd (hd rest)) \<noteq> IRNOP")
    case True
    obtain t1 f where t1: "insert_dummy_at (length pre) t = Some t1" "represents t1 ((pre @ [(f, blank IRNOP)]) @ rest)"
      "instruction_type (exit_pointer t1) t1 = Some IREXITNODE"
      using insert_dummy_new [OF Suc.prems(1) cap Suc.prems(3) True] by auto
    have "capacity (replicate (Suc n) 0 @ handles ((pre @ [(f, blank IRNOP)]) @ rest))"
      using Suc.prems(2) by (simp add: capacity_def)
    from Suc.IH [OF t1(2) this t1(3)] obtain t' fs k where ih:
      "insert_dummies [length (pre @ [(f, blank IRNOP)])..<length (pre @ [(f, blank IRNOP)]) + n] t1 = Some t'"
      "represents t' ((pre @ [(f, blank IRNOP)]) @ take k rest @ map (\<lambda>f. (f, blank IRNOP)) fs @ drop k rest)"
      "k + length fs = n" "k \<le> length rest" "\<forall>x\<in>set (take k rest). inst_type (snd x) = IRNOP" by blast
    have "k = 0" using ih(4,5) True by (cases k; cases rest) auto
    then show ?thesis
      using ih t1(1) unfolding u [of "(f, blank IRNOP)"]
      by (intro exI [of _ t'] exI [of _ "f # fs"] exI [of _ 0]) simp
  next
    case False
    then obtain q y rest' where rest: "rest = (q, y) # rest'" "inst_type y = IRNOP" by (cases rest) auto
    have r: "represents t ((pre @ [(q, y)]) @ rest')" using Suc.prems(1) rest by simp
    have "capacity (replicate (Suc n) 0 @ handles ((pre @ [(q, y)]) @ rest'))"
      using Suc.prems(2) rest by (simp add: capacity_def)
    from Suc.IH [OF r this Suc.prems(3)] obtain t' fs k where ih:
      "insert_dummies [length (pre @ [(q, y)])..<length (pre @ [(q, y)]) + n] t = Some t'"
      "represents t' ((pre @ [(q, y)]) @ take k rest' @ map (\<lambda>f. (f, blank IRNOP)) fs @ drop k rest')"
      "k + length fs = n" "k \<le> length rest'" "\<forall>x\<in>set (take k rest'). inst_type (snd x) = IRNOP" by blast
    have "insert_dummy_at (length pre) t = Some t" using insert_dummy_keep Suc.prems(1) rest by simp
    then show ?thesis
      using ih rest unfolding u [of "(q, y)"]
      by (intro exI [of _ t'] exI [of _ fs] exI [of _ "Suc k"]) simp
  qed
qed

section \<open>Properties\<close>

text \<open>The definitions, for evaluation on a concrete buffer.\<close>

lemmas table_eval = IRMETHOD_init_def IRMETHOD_newInstructionOfType_def IRMETHOD_newInstruction_def
  IRMETHOD_deleteInstruction_def ir_instr_new_def ir_instr_make_def ir_instr_insert_def ir_instr_delete_def
  touch_def empty_table_def allocate_cell_def need_metadata_def slot_has_metadata_def assertion_def
  ir_instr_check_new_space_def resize_def u32_add_def u32_sub_def set_slot_def set_ID_def get_ID_def
  update_exit_node_ID_def set_type_def belongs_def tbl_get_by_pos_def slot_def move_slots_def Let_def upt_rec
  Option.is_none_def

text \<open>
  C5: The buffer refines the abstract sequence: every edit the abstract sequence allows succeeds on a
  buffer that represents it (no failed assertion, no access outside the buffer, no invalid pointer) and
  leaves a buffer that represents the list the abstract edit prescribes for some new handle.
\<close>

theorem edits_refine_sequence:
  assumes "represents t l" and "edit_spec e l l0" and "length l + 101 < 2 ^ 32"
  shows "\<exists>t' l'. run_edit e t = Some t' \<and> represents t' l' \<and> edit_spec e l l'"
  using run_edit_refines [OF assms(2,1)] assms(3) by (simp add: capacity_def)

theorem edits_refine_sequence_witness:
  "\<exists>t p t' l'. IRMETHOD_init = Some t \<and> represents t [(p, blank IRNOP)] \<and>
     run_edit (NewBefore p IRRET) t = Some t' \<and> represents t' l' \<and>
     edit_spec (NewBefore p IRRET) [(p, blank IRNOP)] l'"
proof -
  obtain t p where t: "IRMETHOD_init = Some t" "represents t [(p, blank IRNOP)]"
    using init_represents by blast
  have "edit_spec (NewBefore p IRRET) ([] @ (p, blank IRNOP) # []) ([] @ (Suc p, blank IRRET) # (p, blank IRNOP) # [])"
    by (rule edit_spec.new_before) auto
  then have "edit_spec (NewBefore p IRRET) [(p, blank IRNOP)] [(Suc p, blank IRRET), (p, blank IRNOP)]" by simp
  from edits_refine_sequence [OF t(2) this] t show ?thesis by fastforce
qed

text \<open>
  C14: Whatever the calls that built it, a method keeps its buffer well formed: slot \<open>i\<close> holds a valid
  instruction whose \<open>ID\<close> is \<open>i\<close>, no instruction occurs twice, and the exit node carries the number of
  instructions.
\<close>

theorem reachable_positions:
  assumes "reachable_table t"
  shows "distinct (handles_of t) \<and> length (handles_of t) = instructionsTop t \<and>
    instructionsTop t \<le> instructionsAllocated t \<and>
    (\<forall>i<instructionsTop t. slot t i = Some (handles_of t ! i) \<and> get_ID t (handles_of t ! i) = Some i) \<and>
    get_ID t (exit_pointer t) = Some (instructionsTop t)"
proof -
  obtain l where l: "represents t l" using reachable_represents [OF assms] by blast
  then obtain rest where i: "table_inv t (handles l)" "slots t = map Some (handles l) @ rest"
    by (auto simp: represents_def table_inv_def)
  have "slot t k = Some (handles l ! k) \<and> get_ID t (handles l ! k) = Some k" if "k < length l" for k
    using i that ids_from_nth [of "heap t" 0 "handles l @ [exit_pointer t]" k]
    by (auto simp: table_inv_def slot_def get_ID_def nth_append)
  with i get_ID_exit [OF i(1)] show ?thesis
    unfolding handles_of_represents [OF l] by (auto simp: table_inv_def)
qed

theorem reachable_positions_witness:
  "\<exists>t. reachable_table t \<and> get_ID t (exit_pointer t) = Some (instructionsTop t)"
  using init_represents reachable_table.init reachable_positions by blast

text \<open>
  C15: On every reachable buffer every permitted edit succeeds; deletion is permitted as long as one
  instruction stays.
\<close>

theorem permitted_edits_succeed:
  assumes "reachable_table t" and "permitted e (handles_of t)" and "instructionsTop t + 101 < 2 ^ 32"
  shows "run_edit e t \<noteq> None"
proof -
  obtain l where l: "represents t l" using reachable_represents [OF assms(1)] by blast
  note h = handles_of_represents [OF l]
  obtain l0 where s: "edit_spec e l l0" using permitted_spec [OF l] assms(2) h by auto
  have "instructionsTop t = length l" using l by (auto simp: represents_def table_inv_def)
  then show ?thesis using run_edit_refines [OF s l] assms(3) by (auto simp: capacity_def)
qed

theorem permitted_edits_succeed_witness:
  "\<exists>t. IRMETHOD_init = Some t \<and> run_edit (NewInstruction IRRET) t \<noteq> None"
proof -
  obtain t p where t: "IRMETHOD_init = Some t" "represents t [(p, blank IRNOP)]"
    using init_represents by blast
  then have "instructionsTop t = 1" by (simp add: represents_def table_inv_def)
  with t permitted_edits_succeed [of t "NewInstruction IRRET"] show ?thesis
    by (auto intro: reachable_table.init)
qed

definition two_instructions :: instr_table where
  "two_instructions = \<lparr>heap = [1 \<mapsto> \<lparr>cell_ID = 0, cell_metadata = False, cell_body = blank IRNOP\<rparr>,
       2 \<mapsto> \<lparr>cell_ID = 1, cell_metadata = False, cell_body = IRLang.ir_instr_init\<rparr>,
       0 \<mapsto> \<lparr>cell_ID = 2, cell_metadata = False, cell_body = exit_node\<rparr>],
     next_address = 3, slots = Some 1 # Some 2 # replicate 8 None @ [None], exit_pointer = 0, instructionsTop = 2,
     instructionsAllocated = 11, valid_optimization = 0, method_modified = True\<rparr>"

lemma Suc_folds: "Suc (Suc 0) = 2" "Suc 2 = 3" by simp_all

lemma two_instructions: "IRMETHOD_init \<bind> IRMETHOD_newInstruction = Some (2, two_instructions)"
  by (simp add: table_eval) (simp add: two_instructions_def blank_def Suc_folds)

definition emptied :: instr_table where
  "emptied = \<lparr>heap = [0 \<mapsto> \<lparr>cell_ID = 0, cell_metadata = False, cell_body = exit_node\<rparr>],
     next_address = 3, slots = None # Some 2 # replicate 8 None, exit_pointer = 0, instructionsTop = 0,
     instructionsAllocated = 10, valid_optimization = 0, method_modified = True\<rparr>"

text \<open>
  C35: Deleting the last instruction one by one is not harmless: after the first and then the second of two
  instructions are deleted, slot 1 still holds the address of the second one, and the next creation of an
  instruction reads the freed structure.
\<close>

theorem creation_after_deletions_reads_freed_memory:
  "IRMETHOD_init \<bind> IRMETHOD_newInstruction = Some (2, two_instructions) \<and>
   IRMETHOD_deleteInstruction 1 two_instructions \<bind> IRMETHOD_deleteInstruction 2 = Some emptied \<and>
   slot emptied 1 = Some 2 \<and> heap emptied 2 = None \<and> IRMETHOD_newInstruction emptied = None"
proof (intro conjI)
  show "IRMETHOD_init \<bind> IRMETHOD_newInstruction = Some (2, two_instructions)" by (rule two_instructions)
  show "IRMETHOD_deleteInstruction 1 two_instructions \<bind> IRMETHOD_deleteInstruction 2 = Some emptied"
    by (simp add: table_eval two_instructions_def) (simp add: emptied_def)
  show "slot emptied 1 = Some 2" by (simp add: slot_def emptied_def)
  show "heap emptied 2 = None" by (simp add: emptied_def)
  show "IRMETHOD_newInstruction emptied = None" by (simp add: table_eval emptied_def)
qed



end
