(* ===== verification/Variables.thy ===== *)
theory Variables
  imports IRLang
begin

text \<open>
  The variables and labels of a method, as \<open>libirmanager/src/ir_method.c\<close> numbers and renames them: the
  number of variables, new variables and labels, substitution of variables and labels, shifted
  variables. Variables that escape through \<open>IRGETADDRESS\<close>: the bitmap of \<open>ir_method.c\<close> and the plugin
  \<open>optimizer-escapes\<close>. The lemmas show that the update of the number of variables establishes what the
  data-flow analyses assume, that new numbers are new, and that renaming to an unused variable can be
  undone.
\<close>

unbundle bit_operations_syntax

section \<open>The number of variables\<close>

definition ir_method_pars_count_get :: "ir_method \<Rightarrow> nat" where
  "ir_method_pars_count_get m = parametersNumber m"

definition ir_method_var_local_count_get :: "ir_method \<Rightarrow> nat" where
  "ir_method_var_local_count_get m = length (locals m)"

definition ir_method_var_max_set :: "nat \<Rightarrow> ir_method \<Rightarrow> ir_method" where
  "ir_method_var_max_set n m = m\<lparr>var_max := n mod 2 ^ 32\<rparr>"

definition IRMETHOD_hasMethodInstructions :: "ir_method \<Rightarrow> bool" where
  "IRMETHOD_hasMethodInstructions m \<longleftrightarrow> list_ex (\<lambda>inst. inst_type inst \<noteq> IRNOP) (instructions m)"

text \<open>
  The running maximum is a signed 32-bit number. Against the 64-bit value of an item it is compared
  as the 64-bit number it extends to, against the 32-bit number of a call parameter as an unsigned one;
  a greater value is cut to 32 bits.
\<close>

definition raise_max :: "ir_item \<Rightarrow> 32 word \<Rightarrow> 32 word" where
  "raise_max item m = (if item_type item = IROFFSET \<and> val item > scast m then ucast (val item) else m)"

definition raise_max_call :: "ir_instruction \<Rightarrow> nat \<Rightarrow> 32 word \<Rightarrow> 32 word" where
  "raise_max_call inst n m =
     (if ir_instrcall_par_type_get inst n = IROFFSET \<and> ucast (ir_instrcall_par_value_get inst n) > m
      then ucast (ir_instrcall_par_value_get inst n) else m)"

definition max_of_instruction :: "ir_instruction \<Rightarrow> 32 word \<Rightarrow> 32 word" where
  "max_of_instruction inst m =
     fold (raise_max_call inst) [0..<ir_instrcall_pars_count_get inst]
       (raise_max (result inst) (fold raise_max (ir_instr_pars inst) m))"

definition ir_method_update_max_variable :: "ir_method \<Rightarrow> ir_method" where
  "ir_method_update_max_variable m =
     (let n = fold max_of_instruction (instructions m)
                (word_of_nat (ir_method_pars_count_get m + ir_method_var_local_count_get m))
      in ir_method_var_max_set (unat (if IRMETHOD_hasMethodInstructions m then n + 1 else n)) m)"

definition ir_instr_new_variable_ID :: "ir_method \<Rightarrow> ir_method \<times> 64 word" where
  "ir_instr_new_variable_ID m =
     (ir_method_var_max_set (var_max m + 1) m, word_of_nat (var_max m))"

section \<open>Labels\<close>

definition raise_label :: "ir_item \<Rightarrow> 64 word \<Rightarrow> 64 word" where
  "raise_label item m = (if item_type item = IRLABELITEM \<and> val item > m then val item else m)"

definition ir_method_label_max_get :: "ir_method \<Rightarrow> 64 word" where
  "ir_method_label_max_get m =
     fold (\<lambda>inst n. raise_label (param_3 inst) (raise_label (param_2 inst) (raise_label (param_1 inst) n)))
       (instructions m) 0"

definition ir_instr_new_label_ID :: "ir_method \<Rightarrow> 64 word" where
  "ir_instr_new_label_ID m = ir_method_label_max_get m + 1"

section \<open>Substitution\<close>

text \<open>
  The parameters the \<open>switch\<close> over their number reaches, changed one after the other, and the call
  parameters. The number is read before any of them changes.
\<close>

definition change_pars :: "(ir_item \<Rightarrow> ir_item) \<Rightarrow> ir_instruction \<Rightarrow> ir_instruction" where
  "change_pars f inst =
     (let n = ir_instr_pars_count_get inst
      in inst\<lparr>param_1 := if 1 \<le> n then f (param_1 inst) else param_1 inst,
              param_2 := if 2 \<le> n then f (param_2 inst) else param_2 inst,
              param_3 := if 3 \<le> n then f (param_3 inst) else param_3 inst\<rparr>)"

definition change_result :: "(ir_item \<Rightarrow> ir_item) \<Rightarrow> ir_instruction \<Rightarrow> ir_instruction" where
  "change_result f inst = inst\<lparr>result := f (result inst)\<rparr>"

definition change_call_pars :: "(ir_item \<Rightarrow> ir_item) \<Rightarrow> ir_instruction \<Rightarrow> ir_instruction" where
  "change_call_pars f inst = inst\<lparr>callParameters := map_option (map f) (callParameters inst)\<rparr>"

definition subst_variable :: "64 word \<Rightarrow> 64 word \<Rightarrow> ir_item \<Rightarrow> ir_item" where
  "subst_variable fromVarID toVarID item =
     (if item_type item = IROFFSET \<and> val item = fromVarID then item\<lparr>val := toVarID\<rparr> else item)"

definition subst_item :: "64 word \<Rightarrow> ir_item \<Rightarrow> ir_item \<Rightarrow> ir_item" where
  "subst_item fromVarID itemToUse item =
     (if item_type item = IROFFSET \<and> val item = fromVarID then itemToUse else item)"

definition subst_label :: "64 word \<Rightarrow> 64 word \<Rightarrow> ir_item \<Rightarrow> ir_item" where
  "subst_label old_label new_label item =
     (if item_type item = IRLABELITEM \<and> val item = old_label then item\<lparr>val := new_label\<rparr> else item)"

definition set_label :: "64 word \<Rightarrow> ir_item \<Rightarrow> ir_item" where
  "set_label new_label item = (if item_type item = IRLABELITEM then item\<lparr>val := new_label\<rparr> else item)"

definition IRMETHOD_substituteUsesOfVariableInsideInstruction ::
  "ir_instruction \<Rightarrow> 64 word \<Rightarrow> 64 word \<Rightarrow> ir_instruction" where
  "IRMETHOD_substituteUsesOfVariableInsideInstruction inst fromVarID toVarID =
     change_call_pars (subst_variable fromVarID toVarID) (change_pars (subst_variable fromVarID toVarID) inst)"

definition IRMETHOD_substituteVariableInsideInstruction ::
  "ir_instruction \<Rightarrow> 64 word \<Rightarrow> 64 word \<Rightarrow> ir_instruction" where
  "IRMETHOD_substituteVariableInsideInstruction inst fromVarID toVarID =
     change_call_pars (subst_variable fromVarID toVarID)
       (change_result (subst_variable fromVarID toVarID) (change_pars (subst_variable fromVarID toVarID) inst))"

definition IRMETHOD_substituteVariableInsideInstructionWithItem ::
  "ir_instruction \<Rightarrow> 64 word \<Rightarrow> ir_item \<Rightarrow> ir_instruction" where
  "IRMETHOD_substituteVariableInsideInstructionWithItem inst fromVarID itemToUse =
     change_call_pars (subst_item fromVarID itemToUse)
       (change_result (subst_item fromVarID itemToUse) (change_pars (subst_item fromVarID itemToUse) inst))"

definition IRMETHOD_substituteVariable :: "ir_method \<Rightarrow> 64 word \<Rightarrow> 64 word \<Rightarrow> ir_method" where
  "IRMETHOD_substituteVariable m fromVarID toVarID =
     m\<lparr>instructions := map (\<lambda>inst. IRMETHOD_substituteVariableInsideInstruction inst fromVarID toVarID) (instructions m)\<rparr>"

definition IRMETHOD_substituteLabel :: "ir_instruction \<Rightarrow> 64 word \<Rightarrow> 64 word \<Rightarrow> ir_instruction" where
  "IRMETHOD_substituteLabel inst old_label new_label =
     change_call_pars (subst_label old_label new_label) (change_pars (subst_label old_label new_label) inst)"

definition IRMETHOD_substituteLabels :: "ir_instruction \<Rightarrow> 64 word \<Rightarrow> ir_instruction" where
  "IRMETHOD_substituteLabels inst new_label =
     change_call_pars (set_label new_label) (change_pars (set_label new_label) inst)"

definition IRMETHOD_substituteLabelInAllBranches :: "ir_method \<Rightarrow> 64 word \<Rightarrow> 64 word \<Rightarrow> ir_method" where
  "IRMETHOD_substituteLabelInAllBranches m old_label new_label =
     m\<lparr>instructions := map (\<lambda>inst. if inst_type inst = IRLABEL then inst
                                    else IRMETHOD_substituteLabel inst old_label new_label) (instructions m)\<rparr>"

section \<open>Shifted variables\<close>

definition shift_item :: "32 word \<Rightarrow> ir_item \<Rightarrow> ir_item" where
  "shift_item offset_value item =
     (if item_type item = IROFFSET then item\<lparr>val := val item + scast offset_value\<rparr> else item)"

definition shift_item_above :: "32 word \<Rightarrow> 32 word \<Rightarrow> ir_item \<Rightarrow> ir_item" where
  "shift_item_above offset_value threshold item =
     (if item_type item = IROFFSET \<and> val item > scast threshold
      then item\<lparr>val := val item + scast offset_value\<rparr> else item)"

definition shift_instruction :: "32 word \<Rightarrow> ir_instruction \<Rightarrow> ir_instruction" where
  "shift_instruction offset_value inst =
     change_call_pars (shift_item offset_value) (inst\<lparr>
       param_3 := shift_item offset_value (param_3 inst), param_2 := shift_item offset_value (param_2 inst),
       param_1 := shift_item offset_value (param_1 inst), result := shift_item offset_value (result inst)\<rparr>)"

definition IRMETHOD_shiftVariableIDs :: "ir_method \<Rightarrow> 32 word \<Rightarrow> ir_method" where
  "IRMETHOD_shiftVariableIDs m offset_value =
     (if offset_value = 0 then m
      else ir_method_update_max_variable
        (m\<lparr>instructions := map (shift_instruction offset_value) (instructions m)\<rparr>))"

definition IRMETHOD_shiftVariableIDsHigherThanThreshold :: "ir_method \<Rightarrow> 32 word \<Rightarrow> 32 word \<Rightarrow> ir_method" where
  "IRMETHOD_shiftVariableIDsHigherThanThreshold m offset_value threshold =
     (if offset_value = 0 then m
      else ir_method_update_max_variable
        (m\<lparr>instructions := map (\<lambda>inst. change_call_pars (shift_item_above offset_value threshold)
             (change_result (shift_item_above offset_value threshold)
               (change_pars (shift_item_above offset_value threshold) inst))) (instructions m)\<rparr>))"

section \<open>Escaped variables\<close>

record escapes =
  bitmap :: "64 word list option"
  blocksNumber :: nat

text \<open>The words a grown bitmap gets are whatever the memory holds: the argument \<open>grown\<close>.\<close>

definition ir_method_escapes_alloc :: "(nat \<Rightarrow> 64 word) \<Rightarrow> nat \<Rightarrow> escapes \<Rightarrow> escapes" where
  "ir_method_escapes_alloc grown n e =
     (if n = 0 then \<lparr>bitmap = None, blocksNumber = 0\<rparr>
      else if blocksNumber e = n then e
      else \<lparr>bitmap = Some (case bitmap e of
               None \<Rightarrow> replicate n 0
             | Some b \<Rightarrow> take n b @ map grown [length b..<n]), blocksNumber = n\<rparr>)"

text \<open>\<open>None\<close>: the \<open>int\<close> 1 is shifted out of its range.\<close>

definition ir_method_escapes_isVariableEscaped :: "escapes \<Rightarrow> nat \<Rightarrow> bool option" where
  "ir_method_escapes_isVariableEscaped e varID =
     (case bitmap e of
        None \<Rightarrow> Some True
      | Some b \<Rightarrow> map_option (\<lambda>temp. b ! trigger_of varID AND temp = temp) (int_mask_of varID))"

definition ir_method_escapes_setVariableAsEscaped :: "nat \<Rightarrow> escapes \<Rightarrow> escapes" where
  "ir_method_escapes_setVariableAsEscaped varID e =
     e\<lparr>bitmap := map_option (\<lambda>b. b[trigger_of varID := b ! trigger_of varID OR mask_of varID]) (bitmap e)\<rparr>"

definition mark_the_escapes_variables :: "ir_method \<Rightarrow> escapes \<Rightarrow> escapes" where
  "mark_the_escapes_variables m e =
     fold (\<lambda>inst e. if inst_type inst = IRGETADDRESS
             then ir_method_escapes_setVariableAsEscaped (unat (ucast (val (param_1 inst)) :: 32 word)) e else e)
       (instructions m) e"

definition escapes_init_def_use :: "(nat \<Rightarrow> 64 word) \<Rightarrow> ir_method \<Rightarrow> escapes \<Rightarrow> escapes" where
  "escapes_init_def_use grown m e = ir_method_escapes_alloc grown (var_max m div 64 + 1) e"

definition escapes_do_job :: "(nat \<Rightarrow> 64 word) \<Rightarrow> ir_method \<Rightarrow> escapes \<Rightarrow> ir_method \<times> escapes" where
  "escapes_do_job grown m e =
     (let m = ir_method_update_max_variable m;
          e = ir_method_escapes_alloc grown 0 e
      in if var_max m = 0 then (m, e)
         else (m, mark_the_escapes_variables m (escapes_init_def_use grown m e)))"

section \<open>The number of variables bounds them\<close>

definition call_list :: "ir_instruction \<Rightarrow> ir_item list" where
  "call_list inst = (case callParameters inst of None \<Rightarrow> [] | Some l \<Rightarrow> l)"

definition scanned_items :: "ir_instruction \<Rightarrow> ir_item list" where
  "scanned_items inst = ir_instr_pars inst @ [result inst] @ call_list inst"

text \<open>Variables are numbered below the greatest \<open>int\<close>.\<close>

definition variable_limit :: nat where
  "variable_limit = 2 ^ 31 - 1"

definition raise_nat :: "ir_item \<Rightarrow> nat \<Rightarrow> nat" where
  "raise_nat item n = (if item_type item = IROFFSET then max n (unat (val item)) else n)"

definition small_variable :: "ir_item \<Rightarrow> bool" where
  "small_variable item \<longleftrightarrow> (item_type item = IROFFSET \<longrightarrow> unat (val item) < variable_limit)"

lemma ucast_small: "unat (v :: 64 word) < variable_limit \<Longrightarrow> unat (ucast v :: 32 word) = unat v"
  by (simp add: unsigned_ucast_eq take_bit_nat_eq_self variable_limit_def)

lemma scast_small:
  assumes "unat (m :: 32 word) < 2 ^ 31"
  shows "unat (scast m :: 64 word) = unat m"
proof -
  have u: "uint m = int (unat m)" by simp
  have "int (unat m) < int (2 ^ 31)" using assms by (simp only: of_nat_less_iff)
  then have b: "- 2147483648 \<le> uint m" "uint m < 2147483648" using uint_ge_0 [of m] by (simp_all, linarith)
  have "sint m = uint m" unfolding sint_uint using b by (intro signed_take_bit_int_eq_self) simp_all
  then have "(scast m :: 64 word) = word_of_nat (unat m)" by (simp only: scast_eq u of_int_of_nat_eq)
  then have "unat (scast m :: 64 word) = take_bit 64 (unat m)" by (simp only: unsigned_of_nat) simp
  also have "\<dots> = unat m" using assms by (intro take_bit_nat_eq_self) simp
  finally show ?thesis .
qed

lemma raise_max_eq:
  assumes "unat m < variable_limit" and "small_variable item"
  shows "unat (raise_max item m) = raise_nat item (unat m)"
  using assms scast_small [of m] ucast_small [of "val item"]
  by (auto simp: variable_limit_def raise_max_def raise_nat_def small_variable_def word_less_nat_alt max_def)

lemma raise_nat_small: "small_variable item \<Longrightarrow> n < variable_limit \<Longrightarrow> raise_nat item n < variable_limit"
  by (simp add: raise_nat_def small_variable_def)

lemma fold_raise_max:
  "unat m < variable_limit \<Longrightarrow> list_all small_variable items \<Longrightarrow>
   unat (fold raise_max items m) = fold raise_nat items (unat m) \<and> fold raise_nat items (unat m) < variable_limit"
proof (induction items arbitrary: m)
  case (Cons item items)
  then show ?case using Cons.IH [of "raise_max item m"] by (simp add: raise_max_eq raise_nat_small)
qed simp

lemma raise_max_call_eq:
  assumes "unat m < variable_limit" and "list_all small_variable (call_list inst)" and "n < length (call_list inst)"
  shows "unat (raise_max_call inst n m) = raise_nat (call_list inst ! n) (unat m)"
proof -
  obtain l where l: "callParameters inst = Some l" "call_list inst = l"
    using assms(3) by (auto simp: call_list_def split: option.splits)
  have "small_variable (l ! n)" using assms(2,3) l by (simp add: list_all_length)
  then show ?thesis
    using l assms(3) ucast_small [of "val (l ! n)"]
    by (auto simp: raise_max_call_def raise_nat_def small_variable_def ir_instrcall_par_type_get_def
        ir_instrcall_par_value_get_def ir_instrcall_par_get_by_pos_def word_less_nat_alt max_def)
qed

lemma fold_raise_call:
  assumes "list_all small_variable (call_list inst)" and "unat m < variable_limit"
  shows "k \<le> length (call_list inst) \<Longrightarrow>
    unat (fold (raise_max_call inst) [0..<k] m) = fold raise_nat (take k (call_list inst)) (unat m) \<and>
    fold raise_nat (take k (call_list inst)) (unat m) < variable_limit"
proof (induction k)
  case (Suc k)
  then have "unat (fold (raise_max_call inst) [0..<k] m) = fold raise_nat (take k (call_list inst)) (unat m)"
    "fold raise_nat (take k (call_list inst)) (unat m) < variable_limit" by simp_all
  moreover have "small_variable (call_list inst ! k)" using assms(1) Suc.prems by (simp add: list_all_length)
  ultimately show ?case
    using raise_max_call_eq [OF _ assms(1), of _ k] Suc.prems
    by (simp add: take_Suc_conv_app_nth raise_nat_small)
qed (use assms in simp)

lemma max_of_instruction_eq:
  assumes "unat m < variable_limit" and "list_all small_variable (scanned_items inst)"
  shows "unat (max_of_instruction inst m) = fold raise_nat (scanned_items inst) (unat m) \<and>
    fold raise_nat (scanned_items inst) (unat m) < variable_limit"
proof -
  have s: "list_all small_variable (ir_instr_pars inst @ [result inst])" "list_all small_variable (call_list inst)"
    using assms(2) by (simp_all add: scanned_items_def)
  have n: "ir_instrcall_pars_count_get inst = length (call_list inst)"
    by (simp add: ir_instrcall_pars_count_get_def call_list_def split: option.split)
  from fold_raise_max [OF assms(1) s(1)]
  have "unat (raise_max (result inst) (fold raise_max (ir_instr_pars inst) m)) =
      fold raise_nat (ir_instr_pars inst @ [result inst]) (unat m)"
    "fold raise_nat (ir_instr_pars inst @ [result inst]) (unat m) < variable_limit" by simp_all
  from fold_raise_call [OF s(2), of "raise_max (result inst) (fold raise_max (ir_instr_pars inst) m)", of "length (call_list inst)"] this
  show ?thesis by (simp add: max_of_instruction_def scanned_items_def n)
qed

lemma fold_max_of_instruction:
  assumes "list_all (\<lambda>inst. list_all small_variable (scanned_items inst)) insts" and "unat m < variable_limit"
  shows "unat (fold max_of_instruction insts m) = fold raise_nat (concat (map scanned_items insts)) (unat m) \<and>
    fold raise_nat (concat (map scanned_items insts)) (unat m) < variable_limit"
  using assms
proof (induction insts arbitrary: m)
  case (Cons inst insts)
  then show ?case using max_of_instruction_eq [of m inst] Cons.IH [of "max_of_instruction inst m"] by simp
qed simp

lemma fold_raise_ge: "n \<le> fold raise_nat items n"
proof (induction items arbitrary: n)
  case (Cons item items)
  have "n \<le> raise_nat item n" by (simp add: raise_nat_def)
  also have "\<dots> \<le> fold raise_nat items (raise_nat item n)" by (rule Cons.IH)
  finally show ?case by simp
qed simp

lemma fold_raise_member:
  "item \<in> set items \<Longrightarrow> item_type item = IROFFSET \<Longrightarrow> unat (val item) \<le> fold raise_nat items n"
proof (induction items arbitrary: n)
  case (Cons item' items)
  show ?case
  proof (cases "item = item'")
    case True
    then have "unat (val item) \<le> raise_nat item' n" using Cons.prems(2) by (simp add: raise_nat_def)
    also have "\<dots> \<le> fold raise_nat items (raise_nat item' n)" by (rule fold_raise_ge)
    finally show ?thesis by simp
  qed (use Cons in auto)
qed simp

lemma in_vars_of_iff: "v \<in> vars_of items \<longleftrightarrow> (\<exists>item\<in>set items. item_type item = IROFFSET \<and> unat (val item) = v)"
  by (induction items) auto

definition variables_scanned :: "ir_instruction \<Rightarrow> bool" where
  "variables_scanned inst \<longleftrightarrow> vars_of [param_1 inst, param_2 inst, param_3 inst] \<subseteq> vars_of (ir_instr_pars inst)"

lemma scanned_vars:
  "variables_scanned inst \<Longrightarrow> vars_of (items_of inst) \<subseteq> vars_of (scanned_items inst)"
  by (auto simp: variables_scanned_def items_of_def scanned_items_def call_list_def split: option.splits if_splits)

lemma scanned_small:
  assumes "vars_of (items_of inst) \<subseteq> {..<variable_limit}"
  shows "list_all small_variable (scanned_items inst)"
proof -
  have "set (ir_instr_pars inst) \<subseteq> {param_1 inst, param_2 inst, param_3 inst}"
    by (auto simp: ir_instr_pars_def dest: in_set_takeD)
  then have "set (scanned_items inst) \<subseteq> set (items_of inst)"
    by (auto simp: scanned_items_def items_of_def call_list_def)
  with assms show ?thesis
    by (fastforce simp: list_all_iff small_variable_def in_vars_of_iff subset_iff)
qed

lemma update_max_variable_eq:
  assumes "parametersNumber m + length (locals m) < variable_limit"
    and "list_all (\<lambda>inst. vars_of (items_of inst) \<subseteq> {..<variable_limit}) (instructions m)"
  defines "n \<equiv> fold raise_nat (concat (map scanned_items (instructions m))) (parametersNumber m + length (locals m))"
  shows "var_max (ir_method_update_max_variable m) = (if IRMETHOD_hasMethodInstructions m then n + 1 else n) \<and>
    n < variable_limit"
proof -
  let ?w = "word_of_nat (parametersNumber m + length (locals m)) :: 32 word"
  have w: "unat ?w = parametersNumber m + length (locals m)"
    using assms(1) by (simp add: unat_of_nat take_bit_nat_eq_self variable_limit_def del: of_nat_add)
  have "list_all (\<lambda>inst. list_all small_variable (scanned_items inst)) (instructions m)"
    using assms(2) scanned_small by (auto simp: list_all_iff)
  from fold_max_of_instruction [OF this, of ?w] w assms(1)
  have f: "unat (fold max_of_instruction (instructions m) ?w) = n" "n < variable_limit" by (simp_all add: n_def)
  then have "unat (fold max_of_instruction (instructions m) ?w + 1) = n + 1"
    by (simp add: unat_word_ariths variable_limit_def)
  with f show ?thesis
    by (simp add: ir_method_update_max_variable_def ir_method_pars_count_get_def ir_method_var_local_count_get_def
        ir_method_var_max_set_def Let_def variable_limit_def)
qed

lemma update_max_variable_other [simp]:
  "instructions (ir_method_update_max_variable m) = instructions m"
  "parametersNumber (ir_method_update_max_variable m) = parametersNumber m"
  "locals (ir_method_update_max_variable m) = locals m"
  by (simp_all add: ir_method_update_max_variable_def ir_method_var_max_set_def Let_def)

section \<open>Renamed variables\<close>

definition renamed :: "64 word \<Rightarrow> 64 word \<Rightarrow> nat \<Rightarrow> nat" where
  "renamed v w n = (if n = unat v then unat w else n)"

lemma vars_of_subst: "vars_of (map (subst_variable v w) items) = renamed v w ` vars_of items"
  by (induction items) (auto simp: subst_variable_def renamed_def image_Un word_unat_eq_iff)

lemma pars_of_change:
  assumes "\<And>item. item_type (f item) = item_type item"
  shows "ir_instr_pars (change_pars f inst) = map f (ir_instr_pars inst)"
  using assms by (simp add: ir_instr_pars_def change_pars_def ir_instr_pars_count_get_def Let_def)

lemma subst_variable_type [simp]: "item_type (subst_variable v w item) = item_type item"
  by (simp add: subst_variable_def)

lemma change_simps [simp]:
  "result (change_pars f inst) = result inst" "callParameters (change_pars f inst) = callParameters inst"
  "inst_type (change_pars f inst) = inst_type inst"
  "ir_instr_pars (change_result f inst) = ir_instr_pars inst" "callParameters (change_result f inst) = callParameters inst"
  "result (change_result f inst) = f (result inst)" "inst_type (change_result f inst) = inst_type inst"
  "ir_instr_pars (change_call_pars f inst) = ir_instr_pars inst" "result (change_call_pars f inst) = result inst"
  "callParameters (change_call_pars f inst) = map_option (map f) (callParameters inst)"
  "inst_type (change_call_pars f inst) = inst_type inst"
  by (simp_all add: change_pars_def change_result_def change_call_pars_def ir_instr_pars_def
      ir_instr_pars_count_get_def Let_def)

lemma used_vars_eq: "used_vars inst = vars_of (ir_instr_pars inst) \<union> vars_of (call_list inst)"
proof -
  have "set (IRMETHOD_getVariablesUsedByInstruction inst) =
      {item \<in> set (ir_instr_pars inst) \<union> set (call_list inst). item_type item = IROFFSET}"
    by (auto simp: IRMETHOD_getVariablesUsedByInstruction_def call_list_def split: option.split)
  then show ?thesis by (auto simp: used_vars_def in_vars_of_iff)
qed

lemma call_list_change [simp]:
  "call_list (change_call_pars f inst) = map f (call_list inst)"
  "call_list (change_pars f inst) = call_list inst" "call_list (change_result f inst) = call_list inst"
  by (simp_all add: call_list_def split: option.split)

lemma subst_back:
  assumes "item_type item = IROFFSET \<longrightarrow> val item \<noteq> w"
  shows "subst_variable w v (subst_variable v w item) = item"
  using assms by (auto simp: subst_variable_def)

lemma change_pars_back:
  assumes "\<And>item. item_type (f item) = item_type item"
    and "\<And>item. item \<in> {param_1 inst, param_2 inst, param_3 inst} \<Longrightarrow> g (f item) = item"
  shows "change_pars g (change_pars f inst) = inst"
  using assms by (simp add: change_pars_def ir_instr_pars_count_get_def Let_def)

lemma items_of_member:
  "param_1 inst \<in> set (items_of inst)" "param_2 inst \<in> set (items_of inst)" "param_3 inst \<in> set (items_of inst)"
  "result inst \<in> set (items_of inst)" "item \<in> set (call_list inst) \<Longrightarrow> item \<in> set (items_of inst)"
  by (simp_all add: items_of_def call_list_def)

lemma change_commute:
  "change_pars f (change_call_pars g inst) = change_call_pars g (change_pars f inst)"
  "change_pars f (change_result g inst) = change_result g (change_pars f inst)"
  "change_result f (change_call_pars g inst) = change_call_pars g (change_result f inst)"
  by (simp_all add: change_pars_def change_call_pars_def change_result_def ir_instr_pars_count_get_def Let_def)

lemma change_all_back:
  assumes "\<And>item. item_type (f item) = item_type item"
    and "\<And>item. item \<in> set (items_of inst) \<Longrightarrow> g (f item) = item"
  shows "change_call_pars g (change_result g (change_pars g (change_call_pars f (change_result f (change_pars f inst))))) = inst"
proof -
  have "change_call_pars g (change_result g (change_pars g (change_call_pars f (change_result f (change_pars f inst))))) =
      change_call_pars g (change_call_pars f (change_result g (change_result f (change_pars g (change_pars f inst)))))"
    by (simp add: change_commute)
  also have "change_pars g (change_pars f inst) = inst"
    using assms items_of_member(1-3) [of inst] by (intro change_pars_back) auto
  also have "change_result g (change_result f inst) = inst"
    using assms(2) items_of_member(4) [of inst] by (simp add: change_result_def)
  also have "change_call_pars g (change_call_pars f inst) = inst"
  proof (cases "callParameters inst")
    case (Some l)
    then have "map g (map f l) = l"
      using assms(2) items_of_member(5) [of _ inst] by (simp add: call_list_def map_idI)
    then show ?thesis using Some by (simp add: change_call_pars_def)
  qed (simp add: change_call_pars_def)
  finally show ?thesis .
qed

lemma substitute_back:
  assumes "unat w \<notin> vars_of (items_of inst)"
  shows "IRMETHOD_substituteVariableInsideInstruction (IRMETHOD_substituteVariableInsideInstruction inst v w) w v = inst"
  unfolding IRMETHOD_substituteVariableInsideInstruction_def
  using assms by (intro change_all_back subst_back) (auto simp: in_vars_of_iff)

lemma shift_back:
  assumes "k \<noteq> (2 ^ 31 :: 32 word)"
  shows "shift_item (- k) (shift_item k item) = item"
proof -
  have "sint k \<noteq> - (2 ^ 31)"
  proof
    assume "sint k = - (2 ^ 31)"
    moreover have "k = word_of_int (sint k)" by simp
    ultimately have "k = word_of_int (- (2 ^ 31))" by (simp only:)
    then show False using assms by simp
  qed
  then have "- (2 ^ 31) < sint k" "sint k < 2 ^ 31" using sint_ge [of k] sint_lt [of k] by simp_all
  then have "sint (word_of_int (- sint k) :: 32 word) = - sint k"
    unfolding sint_sbintrunc' by (intro signed_take_bit_int_eq_self) simp_all
  moreover have "sint (- k) = sint (word_of_int (- sint k) :: 32 word)" by (simp only: of_int_minus of_int_sint scast_id)
  ultimately have "sint (- k) = - sint k" by (rule trans [rotated])
  then have "(scast (- k) :: 64 word) = - scast k" by (simp only: scast_eq of_int_minus)
  then show ?thesis by (simp add: shift_item_def)
qed

section \<open>Escapes\<close>

lemma set_escaped_blk:
  "bitmap e = Some b \<Longrightarrow> ir_method_escapes_setVariableAsEscaped v e = e\<lparr>bitmap := Some (blk_add v b)\<rparr>"
  by (simp add: ir_method_escapes_setVariableAsEscaped_def blk_add_def)

definition address_taken :: "ir_method \<Rightarrow> nat set" where
  "address_taken m = (\<lambda>inst. unat (val (param_1 inst))) `
     {inst \<in> set (instructions m). inst_type inst = IRGETADDRESS}"

lemma mark_blk:
  assumes "bitmap e = Some b" and "\<And>inst. inst \<in> set insts \<Longrightarrow> inst_type inst = IRGETADDRESS \<Longrightarrow>
      unat (val (param_1 inst)) < variable_limit \<and> unat (val (param_1 inst)) div 64 < length b"
  shows "\<exists>b'. bitmap (fold (\<lambda>inst e. if inst_type inst = IRGETADDRESS
             then ir_method_escapes_setVariableAsEscaped (unat (ucast (val (param_1 inst)) :: 32 word)) e else e) insts e) = Some b' \<and>
      length b' = length b \<and> blk_set b' = blk_set b \<union>
        (\<lambda>inst. unat (val (param_1 inst))) ` {inst \<in> set insts. inst_type inst = IRGETADDRESS}"
  using assms
proof (induction insts arbitrary: e b)
  case (Cons inst insts)
  show ?case
  proof (cases "inst_type inst = IRGETADDRESS")
    case True
    let ?v = "unat (val (param_1 inst))"
    have v: "unat (ucast (val (param_1 inst)) :: 32 word) = ?v" "?v div 64 < length b"
      using Cons.prems(2) [of inst] True ucast_small by auto
    let ?e = "e\<lparr>bitmap := Some (blk_add ?v b)\<rparr>"
    have "blk_set (blk_add ?v b) = insert ?v (blk_set b)" using v(2) by (simp add: blk_set_add trigger_of_def)
    moreover have "ir_method_escapes_setVariableAsEscaped ?v e = ?e" by (rule set_escaped_blk) (rule Cons.prems(1))
    ultimately show ?thesis
      using Cons.IH [of ?e "blk_add ?v b"] Cons.prems(2) True v(1) by auto
  next
    case False
    then have "{x \<in> set (inst # insts). inst_type x = IRGETADDRESS} = {x \<in> set insts. inst_type x = IRGETADDRESS}" by auto
    with False show ?thesis using Cons.IH [OF Cons.prems(1)] Cons.prems(2) by simp
  qed
qed auto

section \<open>Labels\<close>

lemma raise_label_ge: "n \<le> raise_label item n"
  by (auto simp: raise_label_def)

lemma raise_label_member: "item_type item = IRLABELITEM \<Longrightarrow> val item \<le> raise_label item n"
  by (auto simp: raise_label_def)

lemma label_max_fold:
  "ir_method_label_max_get m = fold raise_label (concat (map (\<lambda>inst. [param_1 inst, param_2 inst, param_3 inst]) (instructions m))) 0"
proof -
  have "fold (\<lambda>inst n. raise_label (param_3 inst) (raise_label (param_2 inst) (raise_label (param_1 inst) n))) insts n =
      fold raise_label (concat (map (\<lambda>inst. [param_1 inst, param_2 inst, param_3 inst]) insts)) n" for insts n
    by (induction insts arbitrary: n) simp_all
  then show ?thesis by (simp add: ir_method_label_max_get_def)
qed

lemma fold_label_ge: "n \<le> fold raise_label items n"
proof (induction items arbitrary: n)
  case (Cons item items)
  have "n \<le> raise_label item n" by (rule raise_label_ge)
  also have "\<dots> \<le> fold raise_label items (raise_label item n)" by (rule Cons.IH)
  finally show ?case by simp
qed simp

lemma fold_label_member:
  "item \<in> set items \<Longrightarrow> item_type item = IRLABELITEM \<Longrightarrow> val item \<le> fold raise_label items n"
proof (induction items arbitrary: n)
  case (Cons item' items)
  show ?case
  proof (cases "item = item'")
    case True
    then have "val item \<le> raise_label item' n" using Cons.prems(2) by (simp add: raise_label_member)
    also have "\<dots> \<le> fold raise_label items (raise_label item' n)" by (rule fold_label_ge)
    finally show ?thesis by simp
  qed (use Cons in auto)
qed simp

lemma next_label: "(w :: 64 word) + 1 \<le> w \<Longrightarrow> w = -1"
proof -
  assume "w + 1 \<le> w"
  then have "uint w = 2 ^ 64 - 1" by uint_arith simp
  also have "\<dots> = uint (-1 :: 64 word)" by (simp add: unsigned_minus_1_eq_mask mask_eq_exp_minus_1)
  finally show "w = -1" by (rule word_uint_eqI)
qed

lemma update_max_ok:
  assumes "parametersNumber m \<le> ir_instr_count m"
    and "parametersNumber m + length (locals m) < variable_limit"
    and "list_all (\<lambda>inst. vars_of (items_of inst) \<subseteq> {..<variable_limit} \<and> variables_scanned inst \<and>
           (inst_type inst = IRNOP \<longrightarrow> vars_of (items_of inst) = {})) (instructions m)"
  shows "variables_ok (ir_method_update_max_variable m)"
proof -
  let ?n = "fold raise_nat (concat (map scanned_items (instructions m))) (parametersNumber m + length (locals m))"
  have v: "var_max (ir_method_update_max_variable m) = (if IRMETHOD_hasMethodInstructions m then ?n + 1 else ?n)"
    "?n < variable_limit"
    using update_max_variable_eq [OF assms(2)] assms(3) by (auto simp: list_all_iff)
  have "vars_of (items_of inst) \<subseteq> {..<var_max (ir_method_update_max_variable m)}" if i: "inst \<in> set (instructions m)" for inst
  proof
    fix x assume x: "x \<in> vars_of (items_of inst)"
    then have "inst_type inst \<noteq> IRNOP" using assms(3) i by (auto simp: list_all_iff)
    then have h: "IRMETHOD_hasMethodInstructions m" using i by (auto simp: IRMETHOD_hasMethodInstructions_def list_ex_iff)
    obtain item where "item \<in> set (scanned_items inst)" "item_type item = IROFFSET" "unat (val item) = x"
      using x scanned_vars [of inst] assms(3) i unfolding in_vars_of_iff [symmetric] list_all_iff
      by (metis in_vars_of_iff subsetD)
    then have "x \<le> ?n" using fold_raise_member [of item "concat (map scanned_items (instructions m))"] i by auto
    then show "x \<in> {..<var_max (ir_method_update_max_variable m)}" using v h by simp
  qed
  moreover have "parametersNumber m \<le> var_max (ir_method_update_max_variable m)"
    using v fold_raise_ge [of "parametersNumber m + length (locals m)" "concat (map scanned_items (instructions m))"] by auto
  ultimately show ?thesis
    using assms(1) v by (auto simp: variables_ok_def list_all_iff ir_instr_count_def variable_limit_def)
qed

section \<open>Properties\<close>

text \<open>
  C19: After the update of the number of variables every variable the method mentions is below it: what the
  data-flow analyses assume of a method holds whenever the dummy instructions of the parameters are there,
  variables are numbered below the greatest \<open>int\<close>, and no variable hides behind an empty parameter or in
  an \<open>IRNOP\<close>.
\<close>

theorem update_establishes_variables_ok:
  assumes "parametersNumber m \<le> ir_instr_count m"
    and "parametersNumber m + length (locals m) < variable_limit"
    and "list_all (\<lambda>inst. vars_of (items_of inst) \<subseteq> {..<variable_limit} \<and> variables_scanned inst \<and>
           (inst_type inst = IRNOP \<longrightarrow> vars_of (items_of inst) = {})) (instructions m)"
  shows "variables_ok (ir_method_update_max_variable m)"
  using assms by (rule update_max_ok)

theorem update_establishes_variables_ok_witness:
  "variables_ok (ir_method_update_max_variable demo)"
  by (rule update_establishes_variables_ok)
    (simp_all add: demo_simps variable_limit_def items_of_def variables_scanned_def ir_instr_pars_def ir_instr_pars_count_get_def)

text \<open>
  C27: Numbers handed out are new: no instruction mentions the new variable, the method stays in range, and no
  parameter mentions the new label unless the greatest label is the greatest 64-bit number.
\<close>

theorem new_numbers_are_new:
  assumes "variables_ok m" and "var_max m + 1 < 2 ^ 32" and "inst \<in> set (instructions m)"
    and "ir_instr_new_variable_ID m = (m', v)"
  shows "unat v \<notin> vars_of (items_of inst) \<and> variables_ok m' \<and> unat v < var_max m' \<and>
    (ir_method_label_max_get m \<noteq> -1 \<longrightarrow>
      (\<forall>item\<in>{param_1 inst, param_2 inst, param_3 inst}.
         item_type item = IRLABELITEM \<longrightarrow> val item \<noteq> ir_instr_new_label_ID m))"
proof (intro conjI impI ballI)
  have m': "m' = m\<lparr>var_max := var_max m + 1\<rparr>" "unat v = var_max m"
    using assms(2,4) by (auto simp: ir_instr_new_variable_ID_def ir_method_var_max_set_def unat_of_nat take_bit_nat_eq_self)
  have s: "vars_of (items_of i) \<subseteq> {..<var_max m}" if "i \<in> set (instructions m)" for i
    using assms(1) that by (auto simp: variables_ok_def list_all_iff)
  show "unat v \<notin> vars_of (items_of inst)" using s [OF assms(3)] m' by auto
  show "unat v < var_max m'" using m' by simp
  show "variables_ok m'" using assms(1,2) s m' by (fastforce simp: variables_ok_def list_all_iff ir_instr_count_def)
  fix item assume "ir_method_label_max_get m \<noteq> -1" "item \<in> {param_1 inst, param_2 inst, param_3 inst}" "item_type item = IRLABELITEM"
  moreover from this(2,3) have "val item \<le> ir_method_label_max_get m"
    unfolding label_max_fold using assms(3) by (intro fold_label_member) auto
  ultimately show "val item \<noteq> ir_instr_new_label_ID m"
    using next_label by (auto simp: ir_instr_new_label_ID_def)
qed

theorem new_numbers_are_new_witness:
  "(\<exists>m' v. ir_instr_new_variable_ID demo = (m', v) \<and> unat v \<notin> vars_of (items_of (instructions demo ! 3)) \<and>
     variables_ok m') \<and> ir_method_label_max_get demo \<noteq> -1"
proof
  obtain m' v where r: "ir_instr_new_variable_ID demo = (m', v)" by fastforce
  have "instructions demo ! 3 \<in> set (instructions demo)" "var_max demo + 1 < 2 ^ 32" by (simp_all add: demo_simps)
  from new_numbers_are_new [OF demo_variables this(2,1) r] r
  show "\<exists>m' v. ir_instr_new_variable_ID demo = (m', v) \<and> unat v \<notin> vars_of (items_of (instructions demo ! 3)) \<and> variables_ok m'"
    by blast
  show "ir_method_label_max_get demo \<noteq> -1"
    by (simp add: ir_method_label_max_get_def demo_simps raise_label_def)
qed

text \<open>
  C28: Substituting a variable renames it in what the instruction defines and uses; substituting its uses
  keeps the definition.
\<close>

theorem substitution_renames:
  "used_vars (IRMETHOD_substituteVariableInsideInstruction inst v w) = renamed v w ` used_vars inst \<and>
   defined_vars (IRMETHOD_substituteVariableInsideInstruction inst v w) = renamed v w ` defined_vars inst \<and>
   used_vars (IRMETHOD_substituteUsesOfVariableInsideInstruction inst v w) = renamed v w ` used_vars inst \<and>
   defined_vars (IRMETHOD_substituteUsesOfVariableInsideInstruction inst v w) = defined_vars inst"
  by (auto simp: IRMETHOD_substituteVariableInsideInstruction_def IRMETHOD_substituteUsesOfVariableInsideInstruction_def
      used_vars_eq pars_of_change vars_of_subst image_Un defined_vars_def subst_variable_def renamed_def word_unat_eq_iff)

text \<open>
  C21: Renaming a variable to an unused one can be undone by renaming it back.
\<close>

theorem substitution_undone:
  assumes "\<forall>inst\<in>set (instructions m). unat w \<notin> vars_of (items_of inst)"
  shows "IRMETHOD_substituteVariable (IRMETHOD_substituteVariable m v w) w v = m"
  using assms by (simp add: IRMETHOD_substituteVariable_def substitute_back map_idI comp_def)

theorem substitution_undone_witness:
  "IRMETHOD_substituteVariable (IRMETHOD_substituteVariable demo 1 40) 40 1 = demo"
  by (rule substitution_undone) (simp add: demo_simps items_of_def)

text \<open>
  C24: Shifting all variables by an offset and back gives the instructions back, wrap-around included; the only
  offset for which it does not is the least \<open>int\<close>, whose negation is itself.
\<close>

theorem shift_undone:
  assumes "k \<noteq> 2 ^ 31"
  shows "instructions (IRMETHOD_shiftVariableIDs (IRMETHOD_shiftVariableIDs m k) (- k)) = instructions m"
proof -
  have s: "shift_item (- k) \<circ> shift_item k = id" using shift_back [OF assms] by (simp add: fun_eq_iff)
  have "shift_instruction (- k) (shift_instruction k inst) = inst" for inst
    using s shift_back [OF assms]
    by (cases "callParameters inst") (simp_all add: shift_instruction_def change_call_pars_def)
  then show ?thesis by (simp add: IRMETHOD_shiftVariableIDs_def map_idI)
qed

theorem shift_undone_witness:
  "instructions (IRMETHOD_shiftVariableIDs (IRMETHOD_shiftVariableIDs demo 5) (- 5)) = instructions demo"
  by (rule shift_undone) simp

text \<open>
  C36: After the escapes plugin the bitmap answers for the variables whose position in their word is below 31
  exactly whether an \<open>IRGETADDRESS\<close> takes their address; for every other variable the query shifts the
  \<open>int\<close> 1 out of its range, although the bit was set with a 64-bit mask.
\<close>

theorem escapes_exact_below_31:
  assumes "variables_ok (ir_method_update_max_variable m)" and "escapes_do_job grown m e = (m', e')"
    and "\<forall>inst\<in>set (instructions m). inst_type inst = IRGETADDRESS \<longrightarrow>
           item_type (param_1 inst) = IROFFSET \<and> unat (val (param_1 inst)) < variable_limit"
    and "v < var_max m'"
  shows "ir_method_escapes_isVariableEscaped e' v =
    (if v mod 64 < 31 then Some (v \<in> address_taken m) else None)"
proof -
  let ?m = "ir_method_update_max_variable m"
  have m: "m' = ?m" and n: "var_max ?m \<noteq> 0" using assms(2,4) by (auto simp: escapes_do_job_def Let_def split: if_splits)
  let ?e = "\<lparr>bitmap = Some (replicate (var_max ?m div 64 + 1) 0), blocksNumber = var_max ?m div 64 + 1\<rparr>"
  have e: "e' = mark_the_escapes_variables ?m ?e"
    using assms(2) n by (auto simp: escapes_do_job_def escapes_init_def_use_def ir_method_escapes_alloc_def Let_def)
  have "unat (val (param_1 inst)) div 64 < var_max ?m div 64 + 1"
    if "inst \<in> set (instructions m)" "inst_type inst = IRGETADDRESS" for inst
  proof -
    have "unat (val (param_1 inst)) \<in> vars_of (items_of inst)" using assms(3) that by (simp add: items_of_def)
    then have "unat (val (param_1 inst)) < var_max ?m"
      using assms(1) that by (auto simp: variables_ok_def list_all_iff subset_iff)
    then show ?thesis using div_le_mono [of "unat (val (param_1 inst))" "var_max ?m" 64] by simp
  qed
  then obtain b where b: "bitmap e' = Some b" "length b = var_max ?m div 64 + 1" "blk_set b = address_taken m"
    using mark_blk [of ?e "replicate (var_max ?m div 64 + 1) 0" "instructions m"] assms(3)
      blk_set_replicate_0 [of "Suc (var_max ?m div 64)"]
    by (auto simp: e mark_the_escapes_variables_def address_taken_def blk_set_replicate_0)
  have "v div 64 < length b" using assms(4) m b(2) div_le_mono [of v "var_max ?m" 64] by simp
  then have "b ! trigger_of v AND mask_of v = mask_of v \<longleftrightarrow> v \<in> address_taken m"
    unfolding b(3) [symmetric] mem_blk_set and_mask_of_eq by (simp add: trigger_of_def)
  then show ?thesis using b(1) by (simp add: ir_method_escapes_isVariableEscaped_def int_mask_of_def)
qed

definition address_demo :: ir_method where
  "address_demo = mk_method 0 0 [mk_inst IRGETADDRESS (var_item 0) (var_item 35) nopar_item]"

theorem escapes_exact_below_31_witness:
  "\<exists>m' e'. escapes_do_job (\<lambda>_. 0) address_demo \<lparr>bitmap = None, blocksNumber = 0\<rparr> = (m', e') \<and>
     ir_method_escapes_isVariableEscaped e' 3 = Some (3 \<in> address_taken address_demo) \<and>
     ir_method_escapes_isVariableEscaped e' 35 = None \<and> 35 \<in> address_taken address_demo"
proof -
  obtain m' e' where r: "escapes_do_job (\<lambda>_. 0) address_demo \<lparr>bitmap = None, blocksNumber = 0\<rparr> = (m', e')" by fastforce
  have s: "vars_of (items_of (instructions address_demo ! 0)) = {0, 35}"
    by (auto simp: address_demo_def demo_simps items_of_def)
  have v: "variables_ok (ir_method_update_max_variable address_demo)"
    by (rule update_max_ok) (auto simp: address_demo_def demo_simps variable_limit_def items_of_def variables_scanned_def
        ir_instr_pars_def ir_instr_pars_count_get_def)
  have "36 = var_max (ir_method_update_max_variable address_demo)"
    using update_max_variable_eq [of address_demo]
    by (simp add: address_demo_def demo_simps variable_limit_def items_of_def IRMETHOD_hasMethodInstructions_def
        scanned_items_def call_list_def raise_nat_def ir_instr_pars_def ir_instr_pars_count_get_def)
  then have n: "var_max m' = 36" using r by (auto simp: escapes_do_job_def Let_def split: if_splits)
  have a: "\<forall>inst\<in>set (instructions address_demo). inst_type inst = IRGETADDRESS \<longrightarrow>
      item_type (param_1 inst) = IROFFSET \<and> unat (val (param_1 inst)) < variable_limit"
    by (simp add: address_demo_def demo_simps variable_limit_def)
  have "35 \<in> address_taken address_demo"
    unfolding address_taken_def
    by (rule image_eqI [of _ _ "instructions address_demo ! 0"]) (simp_all add: address_demo_def demo_simps)
  with r n escapes_exact_below_31 [OF v r a, of 3] escapes_exact_below_31 [OF v r a, of 35] show ?thesis by auto
qed

end
