(* ===== verification/BitSet.thy ===== *)
theory BitSet
  imports Prelude
begin

text \<open>
  The bit sets of \<open>libdominance/src/bitset.c\<close>: arrays of \<open>size_t\<close> words, with the number of bits they
  were allocated for. \<open>None\<close> is the \<open>abort\<close> of an access beyond that number. The lemmas state each operation on the
  set of numbers a bit set stands for.
\<close>

unbundle bit_operations_syntax

section \<open>Bit sets\<close>

record bitset =
  data :: blocks
  bits :: nat

definition words_necessary :: "nat \<Rightarrow> nat" where
  "words_necessary n = (n + 63) div 64"

definition bitset_alloc :: "nat \<Rightarrow> bitset" where
  "bitset_alloc n = \<lparr>data = replicate (words_necessary n) 0, bits = n\<rparr>"

definition bitset_intersect :: "bitset \<Rightarrow> bitset \<Rightarrow> bitset" where
  "bitset_intersect dest source = dest\<lparr>data :=
     fold (\<lambda>i d. d[i := d ! i AND data source ! i]) [0..<words_necessary (bits source)] (data dest)\<rparr>"

definition bitset_union :: "bitset \<Rightarrow> bitset \<Rightarrow> bitset" where
  "bitset_union dest source = dest\<lparr>data :=
     fold (\<lambda>i d. d[i := d ! i OR data source ! i]) [0..<words_necessary (bits source)] (data dest)\<rparr>"

definition bitset_equal :: "bitset \<Rightarrow> bitset \<Rightarrow> bool" where
  "bitset_equal bs1 bs2 \<longleftrightarrow> bits bs1 = bits bs2 \<and>
     list_all (\<lambda>i. data bs1 ! i = data bs2 ! i) [0..<words_necessary (bits bs1)]"

definition bitset_clone :: "bitset \<Rightarrow> bitset \<Rightarrow> bitset" where
  "bitset_clone dest source = dest\<lparr>data :=
     take (words_necessary (bits source)) (data source) @ drop (words_necessary (bits source)) (data dest)\<rparr>"

definition bitset_clear_all :: "bitset \<Rightarrow> bitset" where
  "bitset_clear_all s = s\<lparr>data := replicate (words_necessary (bits s)) 0 @ drop (words_necessary (bits s)) (data s)\<rparr>"

definition bitset_set_all :: "bitset \<Rightarrow> bitset" where
  "bitset_set_all s = s\<lparr>data := replicate (words_necessary (bits s)) (- 1) @ drop (words_necessary (bits s)) (data s)\<rparr>"

definition bitset_clear_bit :: "bitset \<Rightarrow> nat \<Rightarrow> bitset option" where
  "bitset_clear_bit s pos = (if pos \<ge> bits s then None
     else Some (s\<lparr>data := (data s)[trigger_of pos := data s ! trigger_of pos AND NOT (mask_of pos)]\<rparr>))"

definition bitset_set_bit :: "bitset \<Rightarrow> nat \<Rightarrow> bitset option" where
  "bitset_set_bit s pos = (if pos \<ge> bits s then None
     else Some (s\<lparr>data := (data s)[trigger_of pos := data s ! trigger_of pos OR mask_of pos]\<rparr>))"

definition bitset_test_bit :: "bitset \<Rightarrow> nat \<Rightarrow> bool option" where
  "bitset_test_bit s pos = (if pos \<ge> bits s then None
     else Some (data s ! trigger_of pos AND mask_of pos \<noteq> 0))"

definition countSet :: "bitset \<Rightarrow> nat" where
  "countSet b = length (filter (\<lambda>i. bitset_test_bit b i = Some True) [0..<bits b])"

section \<open>Lemmas on bit sets\<close>

definition wf_bitset :: "nat \<Rightarrow> bitset \<Rightarrow> bool" where
  "wf_bitset n b \<longleftrightarrow> bits b = n \<and> length (data b) = words_necessary n"

abbreviation members :: "bitset \<Rightarrow> nat set" where
  "members b \<equiv> blk_set (data b)"

lemma words_enough: "v < n \<Longrightarrow> trigger_of v < words_necessary n"
  by (auto simp: trigger_of_def words_necessary_def)

lemma fold_pointwise:
  "n \<le> length s \<Longrightarrow> fold (\<lambda>i s. s[i := g (s ! i) (r ! i)]) [0..<n] s = map (\<lambda>i. g (s ! i) (r ! i)) [0..<n] @ drop n s"
proof (induction n)
  case (Suc n)
  have "drop n s = s ! n # drop (Suc n) s" using Suc.prems by (simp add: Cons_nth_drop_Suc)
  with Suc show ?case by (simp add: list_update_append nth_append)
qed simp

lemma wf_intersect:
  assumes "wf_bitset n a" and "wf_bitset n b"
  shows "wf_bitset n (bitset_intersect a b) \<and> members (bitset_intersect a b) = members a \<inter> members b"
  using assms
  by (auto simp: bitset_intersect_def wf_bitset_def fold_pointwise mem_blk_set bit_and_iff)

lemma wf_set_bit:
  assumes "wf_bitset n a" and "v < n"
  shows "\<exists>b. bitset_set_bit a v = Some b \<and> wf_bitset n b \<and> members b = insert v (members a)"
  using assms words_enough [OF assms(2)] blk_set_add [of v "data a"]
  by (auto simp: bitset_set_bit_def wf_bitset_def blk_add_def)

lemma wf_clear_bit:
  assumes "wf_bitset n a" and "v < n"
  shows "\<exists>b. bitset_clear_bit a v = Some b \<and> wf_bitset n b \<and> members b = members a - {v}"
proof -
  have "members (a\<lparr>data := (data a)[trigger_of v := data a ! trigger_of v AND NOT (mask_of v)]\<rparr>) = members a - {v}"
    using assms words_enough [OF assms(2)]
    by (auto simp: wf_bitset_def mem_blk_set nth_list_update bit_and_iff bit_not_iff bit_mask_of
        split: if_splits intro: trigger_mod_eq [OF sym])
  with assms show ?thesis by (simp add: bitset_clear_bit_def wf_bitset_def)
qed

lemma wf_test_bit:
  assumes "wf_bitset n a" and "v < n"
  shows "bitset_test_bit a v = Some (v \<in> members a)"
  using assms words_enough [OF assms(2)]
  by (simp add: bitset_test_bit_def wf_bitset_def and_mask_of_neq_0 mem_blk_set)

lemma wf_clone:
  assumes "wf_bitset n a" and "wf_bitset n b"
  shows "bitset_clone a b = b"
  using assms by (simp add: bitset_clone_def wf_bitset_def)

lemma wf_equal:
  assumes "wf_bitset n a" and "wf_bitset n b"
  shows "bitset_equal a b \<longleftrightarrow> a = b"
proof -
  have "bitset_equal a b \<longleftrightarrow> data a = data b"
    using assms by (auto simp: bitset_equal_def wf_bitset_def list_all_iff list_eq_iff_nth_eq)
  with assms show ?thesis by (cases a; cases b) (auto simp: wf_bitset_def)
qed

lemma wf_members_eq: "wf_bitset n a \<Longrightarrow> wf_bitset n b \<Longrightarrow> members a = members b \<Longrightarrow> a = b"
  using blk_set_eq_iff [of "data a" "data b"] by (cases a; cases b) (auto simp: wf_bitset_def)

lemma wf_start [simp]:
  "wf_bitset n (bitset_alloc n)" "wf_bitset n a \<Longrightarrow> wf_bitset n (bitset_clear_all a)"
  "wf_bitset n (bitset_set_all (bitset_alloc n))" "wf_bitset n a \<Longrightarrow> members (bitset_clear_all a) = {}"
  by (auto simp: wf_bitset_def bitset_alloc_def bitset_clear_all_def bitset_set_all_def blk_set_replicate_0 max_def)

lemma members_start: "members (bitset_set_all (bitset_alloc n)) = {..<64 * words_necessary n}"
  by (auto simp: mem_blk_set bitset_set_all_def bitset_alloc_def trigger_of_less_iff)

lemma wf_count: "wf_bitset n b \<Longrightarrow> countSet b = card (members b \<inter> {..<n})"
proof -
  assume b: "wf_bitset n b"
  then have "filter (\<lambda>i. bitset_test_bit b i = Some True) [0..<bits b] = filter (\<lambda>i. i \<in> members b) [0..<n]"
    by (intro filter_cong) (auto simp: wf_test_bit wf_bitset_def)
  moreover have "set (filter (\<lambda>i. i \<in> members b) [0..<n]) = members b \<inter> {..<n}" by auto
  ultimately show ?thesis by (metis countSet_def distinct_card distinct_filter distinct_upt)
qed

end
