(* ===== verification/Dominators.thy ===== *)
theory Dominators
  imports BitSet "HOL-Library.Monad_Syntax"
begin

text \<open>
  The dominator sets of a directed graph, after \<open>calculateDominanceTree\<close> of \<open>libdominance/src/dominance.c\<close>:
  the traversals of the graph from the head that are repeated until no set changes. The graph is given by two
  functions that enumerate the predecessors and the successors of an element. \<open>None\<close> is an abort, or an
  element that is not in the array. The lemmas show that the iteration ends, with the dominators of
  every element that the head reaches.
\<close>

definition indexOf :: "'a \<Rightarrow> 'a list \<Rightarrow> nat option" where
  "indexOf el nodes = find_from (\<lambda>i. nodes ! i = el) [0..<length nodes]"

section \<open>The iteration\<close>

record 'a dom_state =
  dominators :: "bitset list"
  visited :: bitset
  temp :: bitset
  worklist :: "'a list"
  changed :: bool

text \<open>The two functions of the graph: the answer after a given one.\<close>

type_synonym 'a neighbours = "'a \<Rightarrow> 'a option \<Rightarrow> 'a option"

text \<open>\<open>while (prev != NULL) \<lbrace> bitset_intersect(...); prev = getPredecessors(curr, prev); \<rbrace>\<close>\<close>

partial_function (option) intersect_predecessors ::
  "'a neighbours \<Rightarrow> 'a list \<Rightarrow> bitset list \<Rightarrow> 'a \<Rightarrow> 'a option \<Rightarrow> bitset \<Rightarrow> bitset option" where
  "intersect_predecessors getPredecessors elems doms cur prev t =
     (case prev of
        None \<Rightarrow> Some t
      | Some p \<Rightarrow> do {
          k \<leftarrow> indexOf p elems;
          intersect_predecessors getPredecessors elems doms cur (getPredecessors cur prev) (bitset_intersect t (doms ! k))
        })"

text \<open>\<open>while (next != NULL)\<close>: the successors that are neither waiting nor visited are appended.\<close>

partial_function (option) append_successors ::
  "'a neighbours \<Rightarrow> 'a list \<Rightarrow> bitset \<Rightarrow> 'a \<Rightarrow> 'a option \<Rightarrow> 'a list \<Rightarrow> 'a list option" where
  "append_successors getSuccessors elems vis cur nxt wl =
     (case nxt of
        None \<Rightarrow> Some wl
      | Some s \<Rightarrow> do {
          wl \<leftarrow> (if s \<in> set wl then Some wl
                 else do {
                   k \<leftarrow> indexOf s elems;
                   v \<leftarrow> bitset_test_bit vis k;
                   Some (if v then wl else wl @ [s])
                 });
          append_successors getSuccessors elems vis cur (getSuccessors cur nxt) wl
        })"

definition update_dominators :: "'a neighbours \<Rightarrow> 'a list \<Rightarrow> nat \<Rightarrow> 'a \<Rightarrow> nat \<Rightarrow> 'a dom_state \<Rightarrow> 'a dom_state option" where
  "update_dominators getPredecessors elems headNodePos cur curr_pos st =
     (if curr_pos = headNodePos then do {
        b \<leftarrow> bitset_set_bit (bitset_clear_all (dominators st ! curr_pos)) curr_pos;
        Some (st\<lparr>dominators := (dominators st)[curr_pos := b]\<rparr>)
      } else do {
        t \<leftarrow> (case getPredecessors cur None of
               None \<Rightarrow> Some (temp st)
             | Some p \<Rightarrow> do {
                 k \<leftarrow> indexOf p elems;
                 intersect_predecessors getPredecessors elems (dominators st) cur (getPredecessors cur (Some p))
                   (bitset_clone (temp st) (dominators st ! k))
               });
        t \<leftarrow> bitset_set_bit t curr_pos;
        Some (if bitset_equal t (dominators st ! curr_pos) then st\<lparr>temp := t\<rparr>
              else st\<lparr>temp := t, changed := True,
                dominators := (dominators st)[curr_pos := bitset_clone (dominators st ! curr_pos) t]\<rparr>)
      })"

definition visit_element :: "'a neighbours \<Rightarrow> 'a neighbours \<Rightarrow> 'a list \<Rightarrow> nat \<Rightarrow> 'a dom_state \<Rightarrow> 'a dom_state option" where
  "visit_element getPredecessors getSuccessors elems headNodePos st =
     (case worklist st of
        [] \<Rightarrow> None
      | cur # _ \<Rightarrow> do {
          curr_pos \<leftarrow> indexOf cur elems;
          v \<leftarrow> bitset_set_bit (visited st) curr_pos;
          st \<leftarrow> update_dominators getPredecessors elems headNodePos cur curr_pos (st\<lparr>visited := v\<rparr>);
          wl \<leftarrow> append_successors getSuccessors elems (visited st) cur (getSuccessors cur None) (worklist st);
          Some (st\<lparr>worklist := remove1 cur wl\<rparr>)
        })"

text \<open>\<open>do \<lbrace> ... \<rbrace> while (xanList_length(worklist) > 0)\<close> and \<open>while (changed)\<close>.\<close>

partial_function (option) traverse :: "('s \<Rightarrow> 's option) \<Rightarrow> ('s \<Rightarrow> bool) \<Rightarrow> 's \<Rightarrow> 's option" where
  "traverse visit again st = do { st \<leftarrow> visit st; if again st then traverse visit again st else Some st }"

definition dominance_round :: "'a neighbours \<Rightarrow> 'a neighbours \<Rightarrow> 'a list \<Rightarrow> nat \<Rightarrow> 'a dom_state \<Rightarrow> 'a dom_state option" where
  "dominance_round getPredecessors getSuccessors elems headNodePos st =
     (if headNodePos < length elems then
        traverse (visit_element getPredecessors getSuccessors elems headNodePos) (\<lambda>st. worklist st \<noteq> [])
          (st\<lparr>changed := False, worklist := worklist st @ [elems ! headNodePos], visited := bitset_clear_all (visited st)\<rparr>)
      else None)"

partial_function (option) dominance_rounds ::
  "'a neighbours \<Rightarrow> 'a neighbours \<Rightarrow> 'a list \<Rightarrow> nat \<Rightarrow> 'a dom_state \<Rightarrow> 'a dom_state option" where
  "dominance_rounds getPredecessors getSuccessors elems headNodePos st =
     (if changed st then do {
        st \<leftarrow> dominance_round getPredecessors getSuccessors elems headNodePos st;
        dominance_rounds getPredecessors getSuccessors elems headNodePos st
      } else Some st)"

definition start_dominators :: "'a list \<Rightarrow> 'a dom_state" where
  "start_dominators elems =
     \<lparr>dominators = replicate (length elems) (bitset_set_all (bitset_alloc (length elems))),
      visited = bitset_clear_all (bitset_alloc (length elems)), temp = bitset_alloc (length elems),
      worklist = [], changed = True\<rparr>"

definition calculate_dominators :: "'a list \<Rightarrow> nat \<Rightarrow> 'a neighbours \<Rightarrow> 'a neighbours \<Rightarrow> bitset list option" where
  "calculate_dominators elems headNodePos getPredecessors getSuccessors =
     map_option dominators (dominance_rounds getPredecessors getSuccessors elems headNodePos (start_dominators elems))"

section \<open>Walks and dominators\<close>

text \<open>
  The specification. \<open>walk P h i p\<close>: \<open>p\<close> lists, from \<open>i\<close> back to \<open>h\<close>, the positions of a walk from \<open>h\<close> to \<open>i\<close>, where
  \<open>P i\<close> are the predecessors of \<open>i\<close>.
\<close>

inductive walk :: "(nat \<Rightarrow> nat list) \<Rightarrow> nat \<Rightarrow> nat \<Rightarrow> nat list \<Rightarrow> bool" for P h where
  walk_head: "walk P h h [h]"
| walk_edge: "walk P h k p \<Longrightarrow> k \<in> set (P i) \<Longrightarrow> walk P h i (i # p)"

inductive_cases walk_ConsE: "walk P h i (j # p)"

definition reach :: "(nat \<Rightarrow> nat list) \<Rightarrow> nat \<Rightarrow> nat \<Rightarrow> bool" where
  "reach P h i \<longleftrightarrow> (\<exists>p. walk P h i p)"

definition dominates :: "(nat \<Rightarrow> nat list) \<Rightarrow> nat \<Rightarrow> nat \<Rightarrow> nat \<Rightarrow> bool" where
  "dominates P h d i \<longleftrightarrow> (\<forall>p. walk P h i p \<longrightarrow> d \<in> set p)"

text \<open>
  What the callers promise of the functions that enumerate the neighbours. The elements are distinct; at the elements
  that the head reaches over the predecessors \<open>P\<close>, the functions enumerate positions of the array; every edge from such an
  element is also an edge of the successors \<open>Q\<close>, and \<open>Q\<close> leads to no other elements.
\<close>

definition neighbour_functions ::
  "'a list \<Rightarrow> nat \<Rightarrow> 'a neighbours \<Rightarrow> 'a neighbours \<Rightarrow> (nat \<Rightarrow> nat list) \<Rightarrow> (nat \<Rightarrow> nat list) \<Rightarrow> bool" where
  "neighbour_functions elems headNodePos getPredecessors getSuccessors P Q \<longleftrightarrow> distinct elems \<and>
     (\<forall>i<length elems. \<forall>k\<in>set (P i). k < length elems) \<and>
     (\<forall>i<length elems. \<forall>k\<in>set (P i). reach P headNodePos k \<longrightarrow> i \<in> set (Q k)) \<and>
     (\<forall>i<length elems. reach P headNodePos i \<longrightarrow>
        enumerates (getPredecessors (elems ! i)) None (map ((!) elems) (P i)) \<and>
        enumerates (getSuccessors (elems ! i)) None (map ((!) elems) (Q i)) \<and>
        (\<forall>k\<in>set (Q i). k < length elems \<and> reach P headNodePos k))"

lemma neighbour_functionsD:
  assumes "neighbour_functions elems h getPredecessors getSuccessors P Q"
  shows "distinct elems" "i < length elems \<Longrightarrow> k \<in> set (P i) \<Longrightarrow> k < length elems"
    "i < length elems \<Longrightarrow> k \<in> set (P i) \<Longrightarrow> reach P h k \<Longrightarrow> i \<in> set (Q k)"
    "i < length elems \<Longrightarrow> reach P h i \<Longrightarrow> enumerates (getPredecessors (elems ! i)) None (map ((!) elems) (P i))"
    "i < length elems \<Longrightarrow> reach P h i \<Longrightarrow> enumerates (getSuccessors (elems ! i)) None (map ((!) elems) (Q i))"
    "i < length elems \<Longrightarrow> reach P h i \<Longrightarrow> k \<in> set (Q i) \<Longrightarrow> k < length elems"
    "i < length elems \<Longrightarrow> reach P h i \<Longrightarrow> k \<in> set (Q i) \<Longrightarrow> reach P h k"
  using assms unfolding neighbour_functions_def by blast+

lemma walk_hd: "walk P h i p \<Longrightarrow> \<exists>q. p = i # q"
  by (erule walk.cases) auto

lemma walk_bound: "walk P h i p \<Longrightarrow> h < n \<Longrightarrow> (\<And>i k. i < n \<Longrightarrow> k \<in> set (P i) \<Longrightarrow> k < n) \<Longrightarrow> i < n \<Longrightarrow> set p \<subseteq> {..<n}"
  by (induction rule: walk.induct) auto

lemma walk_suffix: "walk P h i (b @ d # a) \<Longrightarrow> walk P h d (d # a)"
proof (induction b arbitrary: i)
  case Nil
  then show ?case using walk_hd [OF Nil] by simp
next
  case (Cons x b)
  then obtain k where "walk P h k (b @ d # a)" by (auto elim: walk_ConsE)
  then show ?case by (rule Cons.IH)
qed

lemma walk_replace: "walk P h i (b @ d # a) \<Longrightarrow> walk P h d (d # a') \<Longrightarrow> walk P h i (b @ d # a')"
proof (induction b arbitrary: i)
  case Nil
  then show ?case using walk_hd [of P h i "d # a"] by simp
next
  case (Cons x b)
  from Cons.prems(1) obtain k where k: "x = i" "walk P h k (b @ d # a)" "k \<in> set (P i)"
    by (auto elim: walk_ConsE)
  from walk_edge [OF Cons.IH [OF k(2) Cons.prems(2)] k(3)] k(1) show ?case by simp
qed

lemma dominates_refl: "dominates P h i i"
  by (auto simp: dominates_def dest: walk_hd)

lemma dominates_head: "dominates P h d h \<longleftrightarrow> d = h"
  using walk_head [of P h] by (auto simp: dominates_def dest: walk_hd)

lemma head_dominates: "dominates P h h i"
proof -
  have "walk P h i p \<Longrightarrow> h \<in> set p" for p by (induction rule: walk.induct) auto
  then show ?thesis by (simp add: dominates_def)
qed

lemma dominates_reach: "reach P h i \<Longrightarrow> dominates P h d i \<Longrightarrow> reach P h d"
  unfolding reach_def dominates_def by (metis split_list walk_suffix)

lemma dominates_pred: "dominates P h d i \<Longrightarrow> d \<noteq> i \<Longrightarrow> k \<in> set (P i) \<Longrightarrow> dominates P h d k"
  unfolding dominates_def by (metis set_ConsD walk_edge)

lemma dominates_step:
  assumes "i \<noteq> h" and "\<And>k. k \<in> set (P i) \<Longrightarrow> reach P h k \<Longrightarrow> dominates P h d k"
  shows "dominates P h d i"
  unfolding dominates_def
proof (intro allI impI)
  fix p assume "walk P h i p"
  then show "d \<in> set p"
    by cases (use assms in \<open>auto simp: dominates_def reach_def\<close>)
qed

lemma dominates_trans: "dominates P h d e \<Longrightarrow> dominates P h e i \<Longrightarrow> dominates P h d i"
  unfolding dominates_def
  by (metis in_set_conv_decomp_first Un_iff set_append walk_suffix)

text \<open>On a walk that leaves \<open>e\<close> for the last time after \<open>d\<close>, nothing but \<open>e\<close> stands between.\<close>

lemma dominates_between:
  assumes "walk P h i (b @ e # a)" and "d \<notin> set b" and "dominates P h d i" and "d \<noteq> e"
  shows "dominates P h d e"
  unfolding dominates_def
proof (intro allI impI)
  fix p assume p: "walk P h e p"
  then obtain q where "p = e # q" using walk_hd by blast
  with p assms have "walk P h i (b @ p)" using walk_replace by fastforce
  with assms show "d \<in> set p" by (auto simp: dominates_def)
qed

lemma dominates_chain:
  assumes "reach P h i" and "dominates P h d i" and "dominates P h e i"
  shows "dominates P h d e \<or> dominates P h e d"
proof (cases "d = e")
  case True
  then show ?thesis using dominates_refl by simp
next
  case False
  obtain p where p: "walk P h i p" using assms by (auto simp: reach_def)
  then have "\<exists>x\<in>set p. x = d \<or> x = e" using assms by (auto simp: dominates_def)
  from split_list_first_prop [OF this] obtain b x a
    where x: "p = b @ x # a" "x = d \<or> x = e" "\<forall>y\<in>set b. \<not> (y = d \<or> y = e)" by blast
  with p False assms show ?thesis
    using dominates_between [of P h i b x a d] dominates_between [of P h i b x a e] by auto
qed

lemma dominates_antisym:
  assumes "reach P h i" and "dominates P h d i" and "dominates P h i d"
  shows "d = i"
proof (rule ccontr)
  assume "d \<noteq> i"
  have "reach P h d" using dominates_reach assms by metis
  then obtain p where "walk P h d p" by (auto simp: reach_def)
  moreover have "walk P h d p \<Longrightarrow> False" for p
  proof (induction "length p" arbitrary: p rule: less_induct)
    case less
    then obtain b a where p: "p = b @ i # a" using assms by (meson dominates_def split_list)
    then have "walk P h i (i # a)" using less.prems walk_suffix by metis
    then obtain b' a' where a: "i # a = b' @ d # a'" using assms by (meson dominates_def split_list)
    with \<open>d \<noteq> i\<close> have "walk P h d (d # a')" using \<open>walk P h i (i # a)\<close> walk_suffix by metis
    moreover have "length (d # a') < length p" using a p \<open>d \<noteq> i\<close> by (cases b') auto
    ultimately show ?case using less.hyps by blast
  qed
  ultimately show False by blast
qed

section \<open>One visit\<close>

lemma indexOf_nth: "distinct nodes \<Longrightarrow> i < length nodes \<Longrightarrow> indexOf (nodes ! i) nodes = Some i"
  by (auto simp: indexOf_def find_from_upt nth_eq_iff_index_eq)



text \<open>The state holds bit sets for all elements; the sets of dominators as sets of positions.\<close>

definition dom_ok :: "nat \<Rightarrow> 'a dom_state \<Rightarrow> bool" where
  "dom_ok n st \<longleftrightarrow> length (dominators st) = n \<and> (\<forall>i<n. wf_bitset n (dominators st ! i)) \<and>
     wf_bitset n (visited st) \<and> wf_bitset n (temp st)"

abbreviation dom_set :: "'a dom_state \<Rightarrow> nat \<Rightarrow> nat set" where
  "dom_set st i \<equiv> members (dominators st ! i)"

definition equation :: "(nat \<Rightarrow> nat list) \<Rightarrow> nat \<Rightarrow> (nat \<Rightarrow> nat set) \<Rightarrow> nat \<Rightarrow> nat set" where
  "equation P h S i = (if i = h then {i} else insert i (\<Inter>k\<in>set (P i). S k))"

lemma intersect_predecessors_eval:
  assumes "distinct elems" and "\<forall>i<length elems. wf_bitset (length elems) (doms ! i)"
  shows "enumerates (gp cur) prev (map ((!) elems) ks) \<Longrightarrow> \<forall>k\<in>set ks. k < length elems \<Longrightarrow>
    wf_bitset (length elems) t \<Longrightarrow>
    \<exists>t'. intersect_predecessors gp elems doms cur (gp cur prev) t = Some t' \<and> wf_bitset (length elems) t' \<and>
      members t' = members t \<inter> (\<Inter>k\<in>set ks. members (doms ! k))"
proof (induction ks arbitrary: prev t)
  case Nil
  then show ?case by (simp add: intersect_predecessors.simps)
next
  case (Cons k ks)
  have "wf_bitset (length elems) (bitset_intersect t (doms ! k)) \<and>
      members (bitset_intersect t (doms ! k)) = members t \<inter> members (doms ! k)"
    using Cons.prems assms by (intro wf_intersect) auto
  with Cons.IH [of "Some (elems ! k)" "bitset_intersect t (doms ! k)"] Cons.prems assms show ?case
    by (subst intersect_predecessors.simps) (auto simp: indexOf_nth)
qed

definition append_new :: "nat set \<Rightarrow> nat list \<Rightarrow> nat list \<Rightarrow> nat list" where
  "append_new V ks W = fold (\<lambda>k W. if k \<in> set W \<or> k \<in> V then W else W @ [k]) ks W"

lemma append_new_props:
  "\<exists>X. append_new V ks W = W @ X \<and> set (W @ X) = set W \<union> (set ks - V) \<and> (distinct W \<longrightarrow> distinct (W @ X))"
proof (induction ks arbitrary: W)
  case (Cons k ks)
  show ?case
  proof (cases "k \<in> set W \<or> k \<in> V")
    case True
    with Cons.IH [of W] show ?thesis by (auto simp: append_new_def)
  next
    case False
    with Cons.IH [of "W @ [k]"] show ?thesis by (auto simp: append_new_def)
  qed
qed (simp add: append_new_def)

lemma append_successors_eval:
  assumes "distinct elems" and "wf_bitset (length elems) vis"
  shows "enumerates (gs cur) prev (map ((!) elems) ks) \<Longrightarrow> \<forall>k\<in>set ks. k < length elems \<Longrightarrow>
    set W \<subseteq> {..<length elems} \<Longrightarrow>
    append_successors gs elems vis cur (gs cur prev) (map ((!) elems) W) =
      Some (map ((!) elems) (append_new (members vis) ks W))"
proof (induction ks arbitrary: prev W)
  case Nil
  then show ?case by (simp add: append_successors.simps append_new_def)
next
  case (Cons k ks)
  have "elems ! k \<in> (!) elems ` set W \<longleftrightarrow> k \<in> set W"
    using Cons.prems assms(1) by (auto simp: nth_eq_iff_index_eq subset_eq)
  with Cons.IH [of "Some (elems ! k)" W] Cons.IH [of "Some (elems ! k)" "W @ [k]"] Cons.prems assms show ?case
    by (subst append_successors.simps) (auto simp: indexOf_nth wf_test_bit append_new_def)
qed

lemma update_dominators_eval:
  assumes g: "neighbour_functions elems h gp gs P Q" and ok: "dom_ok (length elems) st"
    and c: "c < length elems" "c \<noteq> h \<Longrightarrow> P c \<noteq> []" "reach P h c"
  shows "\<exists>st'. update_dominators gp elems h (elems ! c) c st = Some st' \<and> dom_ok (length elems) st' \<and>
    visited st' = visited st \<and> worklist st' = worklist st \<and>
    dom_set st' = (dom_set st)(c := equation P h (dom_set st) c) \<and>
    (changed st' \<longleftrightarrow> changed st \<or> c \<noteq> h \<and> dom_set st' c \<noteq> dom_set st c)"
proof (cases "c = h")
  case True
  obtain b where b: "bitset_set_bit (bitset_clear_all (dominators st ! c)) c = Some b"
      "wf_bitset (length elems) b" "members b = {c}"
    using wf_set_bit [of "length elems" "bitset_clear_all (dominators st ! c)" c] ok c(1) by (auto simp: dom_ok_def)
  define st' where "st' = st\<lparr>dominators := (dominators st)[c := b]\<rparr>"
  have "update_dominators gp elems h (elems ! c) c st = Some st'"
    using True b by (simp add: update_dominators_def st'_def)
  moreover have "dom_ok (length elems) st'" using ok b(2) c(1) by (auto simp: dom_ok_def st'_def nth_list_update)
  moreover have "dom_set st' = (dom_set st)(c := {c})"
    using ok c(1) b(3) by (intro ext) (auto simp: st'_def dom_ok_def nth_list_update)
  moreover have "visited st' = visited st" "worklist st' = worklist st" "changed st' = changed st"
    by (simp_all add: st'_def)
  ultimately show ?thesis using True by (simp add: equation_def)
next
  case False
  define n where "n = length elems"
  obtain k ks where P: "P c = k # ks" using c(2) False by (cases "P c") auto
  have en: "gp (elems ! c) None = Some (elems ! k)" "enumerates (gp (elems ! c)) (Some (elems ! k)) (map ((!) elems) ks)"
    and kn: "k < n" "\<forall>k\<in>set ks. k < n" and d: "distinct elems"
    using neighbour_functionsD(1,2,4) [OF g] c(1,3) P n_def by fastforce+
  have wf: "\<forall>i<n. wf_bitset n (dominators st ! i)" using ok by (simp add: dom_ok_def n_def)
  have wt: "wf_bitset n (temp st)" using ok by (simp add: dom_ok_def n_def)
  have cl: "bitset_clone (temp st) (dominators st ! k) = dominators st ! k"
    by (rule wf_clone [OF wt]) (use wf kn in simp)
  obtain t where t: "intersect_predecessors gp elems (dominators st) (elems ! c)
        (gp (elems ! c) (Some (elems ! k))) (dominators st ! k) = Some t"
      "wf_bitset n t" "members t = dom_set st k \<inter> (\<Inter>k\<in>set ks. dom_set st k)"
    using intersect_predecessors_eval [where gp = gp and cur = "elems ! c" and prev = "Some (elems ! k)" and
        t = "dominators st ! k", OF d wf [unfolded n_def] en(2) kn(2) [unfolded n_def]] wf kn(1)
    unfolding n_def by blast
  obtain t' where t': "bitset_set_bit t c = Some t'" "wf_bitset n t'" "members t' = equation P h (dom_set st) c"
    using wf_set_bit [OF t(2), of c] c(1) t(3) False P by (auto simp: n_def equation_def)
  have wc: "wf_bitset n (dominators st ! c)" using wf c(1) n_def by simp
  have eq: "bitset_equal t' (dominators st ! c) \<longleftrightarrow> members t' = dom_set st c"
    using wf_equal [OF t'(2) wc] wf_members_eq [OF t'(2) wc] by metis
  have cl': "bitset_clone (dominators st ! c) t' = t'" by (rule wf_clone [OF wc t'(2)])
  have ix: "indexOf (elems ! k) elems = Some k" using indexOf_nth d kn n_def by blast
  define st' where "st' = (if members t' = dom_set st c then st\<lparr>temp := t'\<rparr>
    else st\<lparr>temp := t', changed := True, dominators := (dominators st)[c := t']\<rparr>)"
  have "update_dominators gp elems h (elems ! c) c st = Some st'"
    using False en(1) t(1) t'(1) by (simp add: update_dominators_def cl ix eq cl' st'_def)
  moreover have "dom_ok n st'" using ok t'(2) c(1) by (simp add: dom_ok_def st'_def nth_list_update n_def)
  moreover have "dom_set st' = (dom_set st)(c := members t')"
    using ok c(1) by (intro ext) (simp add: st'_def dom_ok_def nth_list_update)
  moreover have "changed st' \<longleftrightarrow> changed st \<or> members t' \<noteq> dom_set st c"
    by (simp add: st'_def)
  moreover have "visited st' = visited st" "worklist st' = worklist st" by (simp_all add: st'_def)
  moreover have "dom_set st' c = members t'" using ok c(1) by (simp add: st'_def dom_ok_def)
  ultimately show ?thesis using t'(3) False unfolding n_def by simp
qed

lemma visit_element_eval:
  assumes g: "neighbour_functions elems h gp gs P Q" and ok: "dom_ok (length elems) st"
    and c: "c < length elems" "c \<noteq> h \<Longrightarrow> P c \<noteq> []" "reach P h c"
    and W: "worklist st = map ((!) elems) (c # W)" "distinct (c # W)" "set W \<subseteq> {..<length elems}"
  shows "\<exists>st' W'. visit_element gp gs elems h st = Some st' \<and> dom_ok (length elems) st' \<and>
    members (visited st') = insert c (members (visited st)) \<and>
    worklist st' = map ((!) elems) W' \<and> distinct W' \<and>
    set W' = set W \<union> (set (Q c) - insert c (members (visited st))) \<and>
    dom_set st' = (dom_set st)(c := equation P h (dom_set st) c) \<and>
    (changed st' \<longleftrightarrow> changed st \<or> c \<noteq> h \<and> dom_set st' c \<noteq> dom_set st c)"
proof -
  define n where "n = length elems"
  have d: "distinct elems" and Q: "enumerates (gs (elems ! c)) None (map ((!) elems) (Q c))" "\<forall>k\<in>set (Q c). k < length elems"
    using neighbour_functionsD(1,5,6) [OF g] c(1,3) by blast+
  obtain v where v: "bitset_set_bit (visited st) c = Some v" "wf_bitset n v" "members v = insert c (members (visited st))"
    using wf_set_bit [of n "visited st" c] ok c(1) by (auto simp: dom_ok_def n_def)
  have "dom_ok (length elems) (st\<lparr>visited := v\<rparr>)" using ok v by (simp add: dom_ok_def n_def)
  from update_dominators_eval [OF g this c] obtain st' where
    st': "update_dominators gp elems h (elems ! c) c (st\<lparr>visited := v\<rparr>) = Some st'" "dom_ok n st'"
      "visited st' = v" "worklist st' = worklist st" "dom_set st' = (dom_set st)(c := equation P h (dom_set st) c)"
      "changed st' \<longleftrightarrow> changed st \<or> c \<noteq> h \<and> dom_set st' c \<noteq> dom_set st c"
    unfolding n_def by auto
  obtain X where X: "append_new (members v) (Q c) (c # W) = c # W @ X"
      "set (c # W @ X) = set (c # W) \<union> (set (Q c) - members v)" "distinct (c # W @ X)"
    using append_new_props [of "members v" "Q c" "c # W"] W(2) by auto
  have "append_successors gs elems v (elems ! c) (gs (elems ! c) None) (map ((!) elems) (c # W)) =
      Some (map ((!) elems) (append_new (members v) (Q c) (c # W)))"
    using append_successors_eval [where gs = gs and cur = "elems ! c" and prev = None and W = "c # W", OF d v(2) [unfolded n_def] Q] c(1) W(3) by simp
  then have "visit_element gp gs elems h st = Some (st'\<lparr>worklist := map ((!) elems) (W @ X)\<rparr>)"
    using W(1) v(1) st'(1,3,4) X(1) indexOf_nth [OF d c(1)] by (simp add: visit_element_def)
  moreover have "set (W @ X) = set W \<union> (set (Q c) - insert c (members (visited st)))"
    using X(2,3) v(3) by auto
  moreover have "dom_ok n (st'\<lparr>worklist := map ((!) elems) (W @ X)\<rparr>)" using st'(2) by (simp add: dom_ok_def)
  moreover have "distinct (W @ X)" using X(3) by simp
  ultimately show ?thesis
    using st'(3,5,6) v(3) unfolding n_def
    by (intro exI [of _ "st'\<lparr>worklist := map ((!) elems) (W @ X)\<rparr>"] exI [of _ "W @ X"]) simp
qed

section \<open>The iteration ends with the dominators\<close>

text \<open>
  What every step keeps: the sets hold all dominators, and no equation of the dominators adds to them.
\<close>

definition between :: "(nat \<Rightarrow> nat list) \<Rightarrow> nat \<Rightarrow> nat \<Rightarrow> (nat \<Rightarrow> nat set) \<Rightarrow> bool" where
  "between P h n S \<longleftrightarrow> (\<forall>i<n. \<forall>d<n. dominates P h d i \<longrightarrow> d \<in> S i) \<and>
     (\<forall>i<n. i = h \<or> P i \<noteq> [] \<longrightarrow> equation P h S i \<subseteq> S i)"

lemma equation_mono: "(\<And>k. S k \<subseteq> S' k) \<Longrightarrow> equation P h S i \<subseteq> equation P h S' i"
  by (auto simp: equation_def)

lemma between_update:
  assumes b: "between P h n S" and c: "c < n" "c = h \<or> P c \<noteq> []" and P: "\<forall>k\<in>set (P c). k < n"
  shows "between P h n (S(c := equation P h S c))"
proof -
  have dec: "equation P h S c \<subseteq> S c" using b c unfolding between_def by blast
  have "d \<in> equation P h S c" if "dominates P h d c" "d < n" for d
    using that P b dominates_pred [OF that(1)] dominates_head
    by (cases "d = c") (auto simp: equation_def between_def)
  moreover have "equation P h (S(c := equation P h S c)) i \<subseteq> equation P h S i" for i
    by (rule equation_mono) (use dec in auto)
  ultimately show ?thesis
    using b unfolding between_def by (auto simp: subset_iff)
qed

definition dom_weight :: "nat \<Rightarrow> 'a dom_state \<Rightarrow> nat" where
  "dom_weight n st = (\<Sum>i<n. card (dom_set st i))"

lemma dom_weight_update:
  assumes "dom_set st' = (dom_set st)(c := X)" and "X \<subseteq> dom_set st c" and "c < n"
  shows "dom_weight n st' + (if X = dom_set st c then 0 else 1) \<le> dom_weight n st"
proof -
  have split: "(\<Sum>i<n. card (S i)) = card (S c) + (\<Sum>i\<in>{..<n} - {c}. card (S i))" for S :: "nat \<Rightarrow> nat set"
    using assms(3) by (simp add: sum.remove)
  have "(\<Sum>i\<in>{..<n} - {c}. card (dom_set st' i)) = (\<Sum>i\<in>{..<n} - {c}. card (dom_set st i))"
    using fun_cong [OF assms(1)] by (intro sum.cong) auto
  moreover have "dom_set st' c = X" using fun_cong [OF assms(1), of c] by simp
  moreover have "card X \<le> card (dom_set st c)" "X \<noteq> dom_set st c \<Longrightarrow> card X < card (dom_set st c)"
    using assms(2) by (auto intro: card_mono psubset_card_mono)
  ultimately show ?thesis
    unfolding dom_weight_def split [of "dom_set st'"] split [of "dom_set st"] by (auto simp: Suc_le_eq)
qed

lemma traverse_rule:
  assumes "I st"
    and step: "\<And>st. I st \<Longrightarrow> \<exists>st'. visit st = Some st' \<and> (again st' \<longrightarrow> I st' \<and> m st' < (m st :: nat)) \<and> (\<not> again st' \<longrightarrow> G st')"
  shows "\<exists>t. traverse visit again st = Some t \<and> G t"
  using assms(1)
proof (induction "m st" arbitrary: st rule: less_induct)
  case less
  from step [OF less.prems] obtain st' where st': "visit st = Some st'"
    "again st' \<longrightarrow> I st' \<and> m st' < m st" "\<not> again st' \<longrightarrow> G st'" by blast
  show ?case
  proof (cases "again st'")
    case True
    with less.hyps [of st'] st' show ?thesis by (subst traverse.simps) auto
  next
    case False
    with st' show ?thesis by (subst traverse.simps) auto
  qed
qed

lemma reach_pred: "reach P h c \<Longrightarrow> c \<noteq> h \<Longrightarrow> P c \<noteq> []"
  unfolding reach_def by (auto elim: walk.cases)

lemma reach_edge: "reach P h k \<Longrightarrow> k \<in> set (P i) \<Longrightarrow> reach P h i"
  unfolding reach_def by (blast intro: walk_edge)

lemma reach_closed:
  assumes "reach P h i" and "i < n" and "h \<in> V"
    and "\<And>i k. i < n \<Longrightarrow> k \<in> set (P i) \<Longrightarrow> k < n" and "\<And>k i. k \<in> V \<Longrightarrow> i < n \<Longrightarrow> k \<in> set (P i) \<Longrightarrow> i \<in> V"
  shows "i \<in> V"
proof -
  have "walk P h i p \<Longrightarrow> i < n \<Longrightarrow> i \<in> V" for p
    by (induction rule: walk.induct) (use assms(3-) in blast)+
  with assms(1,2) show ?thesis by (auto simp: reach_def)
qed

text \<open>The invariant of a traversal, with the positions \<open>W\<close> that wait and the weight \<open>w\<close> at its start.\<close>

definition round_inv :: "'a list \<Rightarrow> (nat \<Rightarrow> nat list) \<Rightarrow> (nat \<Rightarrow> nat list) \<Rightarrow> nat \<Rightarrow> nat \<Rightarrow> 'a dom_state \<Rightarrow> nat list \<Rightarrow> bool" where
  "round_inv elems P Q h w st W \<longleftrightarrow> (let n = length elems; V = members (visited st) in
     dom_ok n st \<and> between P h n (dom_set st) \<and> worklist st = map ((!) elems) W \<and> distinct W \<and>
     set W \<inter> V = {} \<and> (\<forall>v\<in>V \<union> set W. v < n \<and> reach P h v) \<and> (\<forall>v\<in>V. set (Q v) \<subseteq> V \<union> set W) \<and>
     (V = {} \<and> W = [h] \<or> h \<in> V) \<and> dom_weight n st + (if changed st then 1 else 0) \<le> w \<and>
     (\<not> changed st \<longrightarrow> (\<forall>v\<in>V. dom_set st v = equation P h (dom_set st) v)))"

lemma visit_round_inv:
  assumes g: "neighbour_functions elems h gp gs P Q" and inv: "round_inv elems P Q h w st (c # W)"
  shows "\<exists>st' W'. visit_element gp gs elems h st = Some st' \<and> round_inv elems P Q h w st' W' \<and>
    length elems - card (members (visited st')) < length elems - card (members (visited st))"
proof -
  define n V where "n = length elems" and "V = members (visited st)"
  have i: "dom_ok n st" "between P h n (dom_set st)" "worklist st = map ((!) elems) (c # W)" "distinct (c # W)"
      "c \<notin> V" "set W \<inter> V = {}" "c < n" "reach P h c" "\<forall>v\<in>V \<union> set W. v < n \<and> reach P h v"
      "\<forall>v\<in>V. set (Q v) \<subseteq> V \<union> insert c (set W)" "V = {} \<and> c = h \<and> W = [] \<or> h \<in> V"
      "dom_weight n st + (if changed st then 1 else 0) \<le> w"
      "\<not> changed st \<Longrightarrow> \<forall>v\<in>V. dom_set st v = equation P h (dom_set st) v"
    using inv by (auto simp: round_inv_def Let_def n_def V_def)
  have cp: "c \<noteq> h \<Longrightarrow> P c \<noteq> []" using reach_pred i(8) by metis
  have Wn: "set W \<subseteq> {..<length elems}" using i(9) by (auto simp: n_def)
  obtain st' W' where
    st': "visit_element gp gs elems h st = Some st'" "dom_ok n st'" "members (visited st') = insert c V"
      "worklist st' = map ((!) elems) W'" "distinct W'" "set W' = set W \<union> (set (Q c) - insert c V)"
      "dom_set st' = (dom_set st)(c := equation P h (dom_set st) c)"
      "changed st' \<longleftrightarrow> changed st \<or> c \<noteq> h \<and> dom_set st' c \<noteq> dom_set st c"
    using visit_element_eval [OF g i(1) [unfolded n_def] i(7) [unfolded n_def] cp i(8) i(3,4) Wn]
    unfolding n_def V_def by blast
  note nb = neighbour_functionsD(2,6,7) [OF g, of c, folded n_def, OF i(7)]
  have c: "dom_set st' c = equation P h (dom_set st) c" using fun_cong [OF st'(7), of c] by simp
  have dec: "equation P h (dom_set st) c \<subseteq> dom_set st c" using i(2,7) cp unfolding between_def by blast
  have 1: "between P h n (dom_set st')"
    unfolding st'(7) by (rule between_update) (use i(2,7) cp nb(1) in auto)
  have 2: "dom_weight n st' + (if changed st' then 1 else 0) \<le> w"
    using dom_weight_update [OF st'(7) dec i(7)] i(12) st'(8) c by (auto split: if_splits)
  have 3: "v < n \<and> reach P h v" if v: "v \<in> insert c V \<union> set W'" for v
  proof (cases "v \<in> set (Q c)")
    case True
    then show ?thesis using nb(2,3) [OF i(8)] by blast
  next
    case False
    with v st'(6) i(7-9) show ?thesis by blast
  qed
  have 4: "dom_set st' v = equation P h (dom_set st') v" if v: "\<not> changed st'" "v \<in> insert c V" for v
  proof (cases "c = h")
    case True
    then have "V = {}" using i(5,11) by auto
    with v True c show ?thesis by (simp add: equation_def)
  next
    case False
    then have same: "dom_set st' = dom_set st" using v(1) st'(7,8) c by (metis fun_upd_idem)
    have "equation P h (dom_set st) v = dom_set st v"
      using v st'(8) i(13) c fun_cong [OF same, of c] by (cases "v = c") auto
    then show ?thesis using fun_cong [OF same, of v] by (simp only: same)
  qed
  have 5: "set W' \<inter> insert c V = {}" using st'(6) i(4,6) by auto
  have 6: "\<forall>v\<in>insert c V. set (Q v) \<subseteq> insert c V \<union> set W'" using st'(6) i(10) by auto
  have 7: "h \<in> insert c V" using i(11) by auto
  have "round_inv elems P Q h w st' W'"
    unfolding round_inv_def Let_def n_def [symmetric] st'(3)
    using 1 2 3 4 5 6 7 st'(2,4,5) by blast
  moreover have "n - card (insert c V) < n - card V"
  proof -
    have "V \<subset> {..<n}" using i(5,7,9) by auto
    then have "card V < n" using psubset_card_mono [of "{..<n}" V] by simp
    with i(5) show ?thesis by (simp add: V_def)
  qed
  ultimately show ?thesis using st'(1,3) unfolding n_def V_def by metis
qed

lemma round_end:
  assumes g: "neighbour_functions elems h gp gs P Q" and inv: "round_inv elems P Q h w st []"
    and "i < length elems" and "reach P h i"
  shows "i \<in> members (visited st)"
proof (rule reach_closed [OF assms(4,3)])
  note inv' = inv [unfolded round_inv_def Let_def]
  show "h \<in> members (visited st)" using inv' by auto
  show "k < length elems" if "i < length elems" "k \<in> set (P i)" for i k
    using neighbour_functionsD(2) [OF g that] .
  show "i \<in> members (visited st)" if "k \<in> members (visited st)" "i < length elems" "k \<in> set (P i)" for k i
    using neighbour_functionsD(3) [OF g that(2,3)] that(1) inv' by auto
qed

lemma dominance_round_eval:
  assumes g: "neighbour_functions elems h gp gs P Q" and h: "h < length elems"
    and st: "dom_ok (length elems) st" "between P h (length elems) (dom_set st)" "worklist st = []"
  shows "\<exists>st'. dominance_round gp gs elems h st = Some st' \<and>
    round_inv elems P Q h (dom_weight (length elems) st) st' []"
proof -
  define w where "w = dom_weight (length elems) st"
  define st0 where "st0 = st\<lparr>changed := False, worklist := worklist st @ [elems ! h], visited := bitset_clear_all (visited st)\<rparr>"
  have "reach P h h" unfolding reach_def by (blast intro: walk_head)
  moreover have "members (bitset_clear_all (visited st)) = {}" using st(1) by (auto simp: dom_ok_def)
  ultimately have "round_inv elems P Q h w st0 [h]"
    using st h by (simp add: round_inv_def Let_def st0_def dom_ok_def dom_weight_def w_def)
  then have "\<exists>W. W \<noteq> [] \<and> round_inv elems P Q h w st0 W" by blast
  then have "\<exists>t. traverse (visit_element gp gs elems h) (\<lambda>st. worklist st \<noteq> []) st0 = Some t \<and> round_inv elems P Q h w t []"
  proof (rule traverse_rule [where I = "\<lambda>st. \<exists>W. W \<noteq> [] \<and> round_inv elems P Q h w st W"
        and m = "\<lambda>st. length elems - card (members (visited st))" and G = "\<lambda>st. round_inv elems P Q h w st []"])
    fix st assume "\<exists>W. W \<noteq> [] \<and> round_inv elems P Q h w st W"
    then obtain c W where "round_inv elems P Q h w st (c # W)" by (metis neq_Nil_conv)
    from visit_round_inv [OF g this] obtain st' W' where st': "visit_element gp gs elems h st = Some st'"
        "round_inv elems P Q h w st' W'"
        "length elems - card (members (visited st')) < length elems - card (members (visited st))" by blast
    then have "worklist st' = [] \<longleftrightarrow> W' = []" by (simp add: round_inv_def Let_def)
    with st' show "\<exists>st'. visit_element gp gs elems h st = Some st' \<and>
        (worklist st' \<noteq> [] \<longrightarrow> (\<exists>W. W \<noteq> [] \<and> round_inv elems P Q h w st' W) \<and>
          length elems - card (members (visited st')) < length elems - card (members (visited st))) \<and>
        (\<not> worklist st' \<noteq> [] \<longrightarrow> round_inv elems P Q h w st' [])"
      by metis
  qed
  then show ?thesis using h by (simp add: dominance_round_def st0_def w_def)
qed

lemma dominance_rounds_eval:
  assumes g: "neighbour_functions elems h gp gs P Q" and h: "h < length elems"
  shows "dom_ok (length elems) st \<Longrightarrow> between P h (length elems) (dom_set st) \<Longrightarrow> worklist st = [] \<Longrightarrow> changed st \<Longrightarrow>
    \<exists>st'. dominance_rounds gp gs elems h st = Some st' \<and> dom_ok (length elems) st' \<and>
      between P h (length elems) (dom_set st') \<and>
      (\<forall>i<length elems. reach P h i \<longrightarrow> dom_set st' i = equation P h (dom_set st') i)"
proof (induction "dom_weight (length elems) st" arbitrary: st rule: less_induct)
  case less
  from dominance_round_eval [OF g h less.prems(1-3)] obtain st' where
    r: "dominance_round gp gs elems h st = Some st'" and
    i: "round_inv elems P Q h (dom_weight (length elems) st) st' []" by blast
  note i' = i [unfolded round_inv_def Let_def]
  show ?case
  proof (cases "changed st'")
    case True
    with less.hyps [of st'] i' r less.prems(4) show ?thesis by (subst dominance_rounds.simps) auto
  next
    case False
    then have "dominance_rounds gp gs elems h st = Some st'"
      using r less.prems(4) by (simp add: dominance_rounds.simps)
    with False i' round_end [OF g i] show ?thesis by blast
  qed
qed

lemma start_ok:
  assumes P: "\<forall>i<length elems. \<forall>k\<in>set (P i). k < length elems"
  shows
  "dom_ok (length elems) (start_dominators elems)"
  "between P h (length elems) (dom_set (start_dominators elems))"
  "worklist (start_dominators elems) = []" "changed (start_dominators elems)"
proof -
  define n where "n = length elems"
  have s: "i < n \<Longrightarrow> dom_set (start_dominators elems) i = {..<64 * words_necessary n}" for i
    using members_start [of n] by (simp add: start_dominators_def n_def)
  have le: "n \<le> 64 * words_necessary n" using words_enough [of "n - 1" n] by (cases n) (auto simp: trigger_of_less_iff)
  show "dom_ok (length elems) (start_dominators elems)" by (simp add: dom_ok_def start_dominators_def)
  have "equation P h (dom_set (start_dominators elems)) i \<subseteq> {..<64 * words_necessary n}"
    if i: "i < n" "i = h \<or> P i \<noteq> []" for i
  proof (cases "i = h")
    case True
    with i(1) le show ?thesis by (simp add: equation_def)
  next
    case False
    then obtain k where k: "k \<in> set (P i)" using i(2) by (meson last_in_set)
    then have "k < n" using P i(1) n_def by blast
    with k False i(1) le s [of k] show ?thesis by (auto simp: equation_def)
  qed
  then show "between P h (length elems) (dom_set (start_dominators elems))"
    using s le P unfolding between_def n_def [symmetric] by auto
qed (simp_all add: start_dominators_def)

lemma equation_solution:
  assumes eq: "\<And>i. i < n \<Longrightarrow> reach P h i \<Longrightarrow> S i = equation P h S i"
    and P: "\<And>i k. i < n \<Longrightarrow> k \<in> set (P i) \<Longrightarrow> k < n"
    and i: "i < n" and d: "d \<in> S i"
  shows "dominates P h d i"
proof -
  have "walk P h i p \<Longrightarrow> i < n \<Longrightarrow> d \<in> S i \<Longrightarrow> d \<in> set p" for p i
  proof (induction rule: walk.induct)
    case walk_head
    then show ?case using eq [of h] by (auto simp: equation_def reach_def intro: walk.walk_head)
  next
    case (walk_edge k p i)
    then have "d \<in> equation P h S i" using eq [of i] by (metis reach_def walk.walk_edge)
    then have "d = i \<or> d = h \<or> d \<in> S k" using walk_edge(2) by (auto simp: equation_def split: if_splits)
    moreover have "h \<in> set p" using walk_edge(1) head_dominates dominates_def by metis
    ultimately show ?case using walk_edge P by auto
  qed
  then show ?thesis using i d by (simp add: dominates_def)
qed

lemma calculate_dominators_eval:
  assumes g: "neighbour_functions elems headNodePos getPredecessors getSuccessors P Q" and h: "headNodePos < length elems"
  shows "\<exists>doms. calculate_dominators elems headNodePos getPredecessors getSuccessors = Some doms \<and>
    length doms = length elems \<and> (\<forall>i<length elems. wf_bitset (length elems) (doms ! i)) \<and>
    (\<forall>i<length elems. reach P headNodePos i \<longrightarrow> members (doms ! i) = {d. dominates P headNodePos d i})"
proof -
  define n where "n = length elems"
  have P: "\<forall>i<n. \<forall>k\<in>set (P i). k < n" using neighbour_functionsD(2) [OF g] n_def by blast
  obtain st where st: "dominance_rounds getPredecessors getSuccessors elems headNodePos (start_dominators elems) = Some st"
      "dom_ok n st" "between P headNodePos n (dom_set st)"
      "\<forall>i<n. reach P headNodePos i \<longrightarrow> dom_set st i = equation P headNodePos (dom_set st) i"
    using dominance_rounds_eval [OF g h start_ok [OF P [unfolded n_def]]] n_def by blast
  have "dom_set st i = {d. dominates P headNodePos d i}" if i: "i < n" "reach P headNodePos i" for i
  proof
    show "dom_set st i \<subseteq> {d. dominates P headNodePos d i}"
      using equation_solution [of n P headNodePos "dom_set st" i] st(4) P i(1) by blast
    obtain p where p: "walk P headNodePos i p" using i(2) by (auto simp: reach_def)
    then have "set p \<subseteq> {..<n}" using walk_bound [OF p, of n] h P i(1) n_def by blast
    then have "dominates P headNodePos d i \<Longrightarrow> d < n" for d using p by (auto simp: dominates_def)
    then show "{d. dominates P headNodePos d i} \<subseteq> dom_set st i" using st(3) i(1) by (auto simp: between_def)
  qed
  then show ?thesis using st(1,2) by (simp add: calculate_dominators_def dom_ok_def n_def)
qed

section \<open>Properties\<close>

text \<open>
  C11: The repeated traversals of \<open>calculateDominanceTree\<close> end, whatever the graph and the head, and no access is outside a
  bit set or for an element that is not in the array. The set of an element that the head reaches then holds
  exactly the elements that stand on every walk from the head to it.
\<close>

theorem dominators_exact:
  assumes "neighbour_functions elems headNodePos getPredecessors getSuccessors P Q" and "headNodePos < length elems"
  shows "\<exists>doms. calculate_dominators elems headNodePos getPredecessors getSuccessors = Some doms \<and>
    length doms = length elems \<and>
    (\<forall>i<length elems. reach P headNodePos i \<longrightarrow>
       (\<forall>d<length elems. bitset_test_bit (doms ! i) d = Some (dominates P headNodePos d i)))"
  using calculate_dominators_eval [OF assms] by (auto simp: wf_test_bit [where n = "length elems"])

text \<open>A graph with a branch, a join and a loop: \<open>0 \<rightarrow> 1, 2; 1 \<rightarrow> 3; 2 \<rightarrow> 3; 3 \<rightarrow> 1\<close>; nothing leads to \<open>4 \<rightarrow> 3\<close>.\<close>

definition demo_preds :: "nat \<Rightarrow> nat list" where
  "demo_preds i = (if i = 1 then [0, 3] else if i = 2 then [0] else if i = 3 then [1, 2, 4] else [])"

definition demo_succs :: "nat \<Rightarrow> nat list" where
  "demo_succs i = (if i = 0 then [1, 2] else if i = 1 \<or> i = 2 \<or> i = 4 then [3] else if i = 3 then [1] else [])"

definition demo_elems :: "nat list" where
  "demo_elems = [70, 71, 72, 73, 74]"

fun answer_after :: "'a list \<Rightarrow> 'a option \<Rightarrow> 'a option" where
  "answer_after xs None = (case xs of [] \<Rightarrow> None | x # _ \<Rightarrow> Some x)"
| "answer_after xs (Some y) = (case dropWhile ((\<noteq>) y) xs of x # x' # _ \<Rightarrow> Some x' | _ \<Rightarrow> None)"

definition demo_get :: "(nat \<Rightarrow> nat list) \<Rightarrow> nat neighbours" where
  "demo_get N e = answer_after (map ((+) 70) (N (e - 70)))"

lemma demo_graph: "neighbour_functions demo_elems 0 (demo_get demo_preds) (demo_get demo_succs) demo_preds demo_succs"
proof -
  have five: "i < 5 \<longleftrightarrow> i = 0 \<or> i = 1 \<or> i = 2 \<or> i = 3 \<or> i = (4::nat)" for i by auto
  have "\<not> reach demo_preds 0 4"
    by (auto simp: reach_def demo_preds_def elim: walk.cases)
  moreover have "reach demo_preds 0 i" if "i \<in> {0, 1, 2, 3}" for i
  proof -
    have w: "walk demo_preds 0 0 [0]" by (rule walk_head)
    have w1: "walk demo_preds 0 1 [1, 0]" by (rule walk_edge [OF w]) (simp add: demo_preds_def)
    have w2: "walk demo_preds 0 2 [2, 0]" by (rule walk_edge [OF w]) (simp add: demo_preds_def)
    have w3: "walk demo_preds 0 3 [3, 1, 0]" by (rule walk_edge [OF w1]) (simp add: demo_preds_def)
    from w w1 w2 w3 that show ?thesis unfolding reach_def by blast
  qed
  moreover have "length demo_elems = 5" by (simp add: demo_elems_def)
  ultimately show ?thesis
    unfolding neighbour_functions_def
    by (simp add: five) (simp add: demo_elems_def demo_get_def demo_preds_def demo_succs_def)
qed

lemma demo_reach: "reach demo_preds 0 3"
  unfolding reach_def
  by (rule exI, rule walk_edge [where k = 1], rule walk_edge [where k = 0], rule walk_head) (simp_all add: demo_preds_def)

theorem dominators_exact_witness:
  "\<exists>doms. calculate_dominators demo_elems 0 (demo_get demo_preds) (demo_get demo_succs) = Some doms \<and>
    bitset_test_bit (doms ! 3) 0 = Some True \<and> bitset_test_bit (doms ! 3) 1 = Some False"
proof -
  have n: "length demo_elems = 5" by (simp add: demo_elems_def)
  obtain doms where d: "calculate_dominators demo_elems 0 (demo_get demo_preds) (demo_get demo_succs) = Some doms"
      "\<forall>i<5. reach demo_preds 0 i \<longrightarrow> (\<forall>d<5. bitset_test_bit (doms ! i) d = Some (dominates demo_preds 0 d i))"
    using dominators_exact [OF demo_graph] n by auto
  have "walk demo_preds 0 3 [3, 2, 0]"
    by (rule walk_edge [where k = 2], rule walk_edge [where k = 0], rule walk_head) (simp_all add: demo_preds_def)
  then have "\<not> dominates demo_preds 0 1 3" unfolding dominates_def by force
  with d demo_reach head_dominates show ?thesis by auto
qed

end
