(* ===== verification/DominanceTree.thy ===== *)
theory DominanceTree
  imports Dominators "HOL-Library.Multiset"
begin

text \<open>
  The second half of \<open>calculateDominanceTree\<close> of \<open>libdominance/src/dominance.c\<close>, which turns the sets of
  dominators into the tree of immediate dominators, and the two queries on that tree. The nodes of the tree
  belong to a library that is not part of the repository: the tree is the list of the pairs of a parent and a child
  that \<open>addChildren\<close> received, as positions in the array of elements.
\<close>

section \<open>The tree\<close>

text \<open>\<open>bitset_clear_bit(dominators[i], i)\<close> for every element.\<close>

fun clear_self :: "nat list \<Rightarrow> bitset list \<Rightarrow> bitset list option" where
  "clear_self [] doms = Some doms"
| "clear_self (i # is) doms = do { b \<leftarrow> bitset_clear_bit (doms ! i) i; clear_self is (doms[i := b]) }"

text \<open>
  The list of elements ordered by the number of dominators: an element is appended, or inserted before the
  first one with more dominators, or, when there is none, left out.
\<close>

fun insert_before_greater :: "(nat \<Rightarrow> nat) \<Rightarrow> nat \<Rightarrow> nat list \<Rightarrow> nat list" where
  "insert_before_greater bitsSet i [] = []"
| "insert_before_greater bitsSet i (it # its) =
     (if bitsSet it > bitsSet i then i # it # its else it # insert_before_greater bitsSet i its)"

fun order_elements :: "(nat \<Rightarrow> nat) \<Rightarrow> nat list \<Rightarrow> nat list \<times> nat \<Rightarrow> nat list \<times> nat" where
  "order_elements bitsSet [] s = s"
| "order_elements bitsSet (i # is) (inst_ordered, maximum) =
     order_elements bitsSet is
       (if i = 1 \<or> bitsSet i \<ge> maximum then (inst_ordered @ [i], bitsSet i)
        else (insert_before_greater bitsSet i inst_ordered, maximum))"

text \<open>The dominator at the greatest level, the last one of them.\<close>

fun deepest :: "(nat \<Rightarrow> bool) \<Rightarrow> (nat \<Rightarrow> int) \<Rightarrow> nat list \<Rightarrow> int \<times> nat \<Rightarrow> int \<times> nat" where
  "deepest tst level [] best = best"
| "deepest tst level (j # js) (m, k) =
     deepest tst level js (if tst j \<and> level j \<ge> m then (level j, j) else (m, k))"

text \<open>The calls of \<open>addChildren\<close>, as pairs of a parent and a child, and the levels.\<close>

fun link_elements :: "bitset list \<Rightarrow> nat \<Rightarrow> nat list \<Rightarrow> (nat \<times> nat) list \<times> int list \<Rightarrow> (nat \<times> nat) list \<times> int list" where
  "link_elements doms n [] s = s"
| "link_elements doms n (instrID # rest) (links, level) =
     (let (m, parent) = deepest (\<lambda>j. bitset_test_bit (doms ! instrID) j = Some True) (\<lambda>j. level ! j) [0..<n] (0, 0)
      in link_elements doms n rest (links @ [(parent, instrID)], level[instrID := m + 1]))"

definition calculateDominanceTree :: "'a list \<Rightarrow> nat \<Rightarrow> 'a neighbours \<Rightarrow> 'a neighbours \<Rightarrow> (nat \<times> nat) list option" where
  "calculateDominanceTree elems headNodePos getPredecessors getSuccessors = do {
     doms \<leftarrow> calculate_dominators elems headNodePos getPredecessors getSuccessors;
     doms \<leftarrow> clear_self [0..<length elems] doms;
     let bitsSet = (\<lambda>i. countSet (doms ! i));
     let (inst_ordered, _) = order_elements bitsSet [1..<length elems] ([], 0);
     let level = (replicate (length elems) (- 1))[0 := 0];
     Some (fst (link_elements doms (length elems) inst_ordered ([], level)))
   }"


section \<open>The order of the elements\<close>

lemma insert_before_greater_props:
  "sorted (map c its) \<Longrightarrow> its \<noteq> [] \<Longrightarrow> c i < c (last its) \<Longrightarrow>
    mset (insert_before_greater c i its) = add_mset i (mset its) \<and> sorted (map c (insert_before_greater c i its)) \<and>
    insert_before_greater c i its \<noteq> [] \<and> last (insert_before_greater c i its) = last its"
proof (induction its)
  case (Cons it its)
  show ?case
  proof (cases "c it > c i")
    case True
    with Cons.prems show ?thesis by auto
  next
    case False
    with Cons have ih: "mset (insert_before_greater c i its) = add_mset i (mset its)"
        "sorted (map c (insert_before_greater c i its))" "insert_before_greater c i its \<noteq> []"
        "last (insert_before_greater c i its) = last its" and "its \<noteq> []"
      by (auto split: if_splits)
    have "set (insert_before_greater c i its) = insert i (set its)"
      using arg_cong [OF ih(1), of set_mset] by simp
    with False Cons.prems ih \<open>its \<noteq> []\<close> show ?thesis by auto
  qed
qed simp

lemma order_elements_props:
  "1 \<notin> set is \<Longrightarrow> xs \<noteq> [] \<Longrightarrow> sorted (map c xs) \<Longrightarrow> m = c (last xs) \<Longrightarrow>
    mset (fst (order_elements c is (xs, m))) = mset xs + mset is \<and> sorted (map c (fst (order_elements c is (xs, m))))"
proof (induction "is" arbitrary: xs m)
  case (Cons i "is")
  show ?case
  proof (cases "c i \<ge> m")
    case True
    have "c x \<le> c (last xs)" if "x \<in> set xs" for x
    proof -
      obtain ys y where xs: "xs = ys @ [y]" using Cons.prems(2) by (metis rev_exhaust)
      with that Cons.prems(3) show ?thesis by (auto simp: sorted_append)
    qed
    then have "c x \<le> c i" if "x \<in> set xs" for x using that Cons.prems(4) True le_trans by blast
    then have s: "sorted (map c (xs @ [i]))" using Cons.prems(3) by (simp add: sorted_append)
    have "1 \<notin> set is" using Cons.prems(1) by simp
    from Cons.IH [OF this _ s] True show ?thesis by simp
  next
    case False
    then have ib: "mset (insert_before_greater c i xs) = add_mset i (mset xs)" "sorted (map c (insert_before_greater c i xs))"
        "insert_before_greater c i xs \<noteq> []" "last (insert_before_greater c i xs) = last xs"
      using insert_before_greater_props [OF Cons.prems(3,2), of i] Cons.prems(4) by simp_all
    have "1 \<notin> set is" "i \<noteq> 1" using Cons.prems(1) by auto
    with Cons.IH [OF _ ib(3,2)] ib(1,4) False Cons.prems(4) show ?thesis by simp
  qed
qed simp

lemma order_elements_all:
  "mset (fst (order_elements c [1..<n] ([], 0))) = mset [1..<n] \<and> sorted (map c (fst (order_elements c [1..<n] ([], 0))))"
proof (cases "n \<le> 1")
  case False
  then have "[1..<n] = 1 # [2..<n]" by (simp add: upt_conv_Cons numeral_2_eq_2)
  with order_elements_props [of "[2..<n]" "[1]" c "c 1"] show ?thesis by simp
qed simp

section \<open>Immediate dominators\<close>

definition strict_dominators :: "(nat \<Rightarrow> nat list) \<Rightarrow> nat \<Rightarrow> nat \<Rightarrow> nat set" where
  "strict_dominators P h i = {d. dominates P h d i \<and> d \<noteq> i}"

definition immediate :: "(nat \<Rightarrow> nat list) \<Rightarrow> nat \<Rightarrow> nat \<Rightarrow> nat \<Rightarrow> bool" where
  "immediate P h p i \<longleftrightarrow> p \<in> strict_dominators P h i \<and> (\<forall>d\<in>strict_dominators P h i. dominates P h d p)"

lemma finite_dominators: "reach P h i \<Longrightarrow> finite (strict_dominators P h i)"
proof -
  assume "reach P h i"
  then obtain p where "walk P h i p" by (auto simp: reach_def)
  then have "strict_dominators P h i \<subseteq> set p" by (auto simp: strict_dominators_def dominates_def)
  then show ?thesis by (rule finite_subset) simp
qed

lemma strict_dominators_less:
  assumes "reach P h i" and "d \<in> strict_dominators P h i"
  shows "insert d (strict_dominators P h d) \<subseteq> strict_dominators P h i" "d \<notin> strict_dominators P h d"
    "card (strict_dominators P h d) < card (strict_dominators P h i)"
proof -
  show s: "insert d (strict_dominators P h d) \<subseteq> strict_dominators P h i"
    using assms dominates_trans [of P h _ d i] dominates_antisym [of P h i d]
    by (auto simp: strict_dominators_def)
  show "d \<notin> strict_dominators P h d" by (simp add: strict_dominators_def)
  with s have "strict_dominators P h d \<subset> strict_dominators P h i" by blast
  then show "card (strict_dominators P h d) < card (strict_dominators P h i)"
    by (rule psubset_card_mono [OF finite_dominators [OF assms(1)]])
qed

lemma deepest_immediate:
  assumes i: "reach P h i" and k: "k \<in> strict_dominators P h i"
    and max: "\<And>d. d \<in> strict_dominators P h i \<Longrightarrow> card (strict_dominators P h d) \<le> card (strict_dominators P h k)"
  shows "immediate P h k i" "card (strict_dominators P h i) = card (strict_dominators P h k) + 1"
proof -
  have dk: "dominates P h d k" if d: "d \<in> strict_dominators P h i" for d
  proof (rule ccontr)
    assume n: "\<not> dominates P h d k"
    then have "d \<noteq> k" using dominates_refl by metis
    moreover have "dominates P h k d" using dominates_chain [OF i, of d k] d k n by (simp add: strict_dominators_def)
    moreover have "reach P h d" using d i dominates_reach by (auto simp: strict_dominators_def)
    ultimately have "card (strict_dominators P h k) < card (strict_dominators P h d)"
      using strict_dominators_less(3) [of P h d k] by (simp add: strict_dominators_def)
    with max [OF d] show False by simp
  qed
  with k show "immediate P h k i" by (simp add: immediate_def)
  have "strict_dominators P h i = insert k (strict_dominators P h k)"
    using strict_dominators_less(1) [OF i k] dk by (auto simp: strict_dominators_def)
  moreover have "finite (strict_dominators P h k)"
    using finite_dominators dominates_reach i k by (auto simp: strict_dominators_def)
  ultimately show "card (strict_dominators P h i) = card (strict_dominators P h k) + 1"
    using strict_dominators_less(2) [OF i k] by simp
qed

lemma immediate_unique:
  assumes "reach P h i" and "immediate P h p i" and "immediate P h q i"
  shows "p = q"
proof -
  have "reach P h q" using assms dominates_reach by (auto simp: immediate_def strict_dominators_def)
  with assms show ?thesis using dominates_antisym [of P h q p] by (auto simp: immediate_def)
qed

section \<open>The tree is the one of the immediate dominators\<close>

lemma deepest_props:
  "deepest tst level js (m0, k0) = (m, k) \<Longrightarrow>
    m0 \<le> m \<and> (\<forall>j\<in>set js. tst j \<longrightarrow> level j \<le> m) \<and>
    ((m, k) = (m0, k0) \<or> k \<in> set js \<and> tst k \<and> level k = m) \<and>
    ((\<exists>j\<in>set js. tst j \<and> m0 \<le> level j) \<longrightarrow> k \<in> set js \<and> tst k \<and> level k = m)"
proof (induction js arbitrary: m0 k0)
  case (Cons j js)
  show ?case
  proof (cases "tst j \<and> level j \<ge> m0")
    case True
    with Cons.IH [of "level j" j] Cons.prems show ?thesis by auto
  next
    case False
    with Cons.IH [of m0 k0] Cons.prems show ?thesis by auto
  qed
qed simp

lemma clear_self_eval:
  "distinct is \<Longrightarrow> \<forall>i\<in>set is. i < n \<Longrightarrow> length doms = n \<Longrightarrow> \<forall>i<n. wf_bitset n (doms ! i) \<Longrightarrow>
    \<exists>doms'. clear_self is doms = Some doms' \<and> length doms' = n \<and> (\<forall>i<n. wf_bitset n (doms' ! i)) \<and>
      (\<forall>i<n. members (doms' ! i) = (if i \<in> set is then members (doms ! i) - {i} else members (doms ! i)))"
proof (induction "is" arbitrary: doms)
  case (Cons i "is")
  obtain b where b: "bitset_clear_bit (doms ! i) i = Some b" "wf_bitset n b" "members b = members (doms ! i) - {i}"
    using wf_clear_bit [of n "doms ! i" i] Cons.prems by auto
  have "\<forall>j<n. wf_bitset n (doms[i := b] ! j)" using Cons.prems b(2) by (simp add: nth_list_update)
  with Cons.IH [of "doms[i := b]"] Cons.prems obtain doms' where
    d: "clear_self is (doms[i := b]) = Some doms'" "length doms' = n" "\<forall>i<n. wf_bitset n (doms' ! i)"
      "\<forall>j<n. members (doms' ! j) = (if j \<in> set is then members (doms[i := b] ! j) - {j} else members (doms[i := b] ! j))"
    by auto
  have "clear_self (i # is) doms = Some doms'" using b(1) d(1) by simp
  moreover have "\<forall>j<n. members (doms' ! j) = (if j \<in> set (i # is) then members (doms ! j) - {j} else members (doms ! j))"
    using d(4) b(3) Cons.prems by (auto simp: nth_list_update)
  ultimately show ?case using d(2,3) by blast
qed simp

lemma link_elements_props:
  assumes T: "\<And>i. i < n \<Longrightarrow> reach P 0 i \<Longrightarrow> {j. j < n \<and> bitset_test_bit (doms ! i) j = Some True} = strict_dominators P 0 i"
    and sorted: "\<And>i d. i < n \<Longrightarrow> reach P 0 i \<Longrightarrow> d \<in> strict_dominators P 0 i \<Longrightarrow> cnt d < (cnt i :: nat)"
  shows "sorted (map cnt (done @ rest)) \<Longrightarrow> distinct (done @ rest) \<Longrightarrow> set (done @ rest) = {1..<n} \<Longrightarrow> length level = n \<Longrightarrow>
    level ! 0 = 0 \<Longrightarrow> (\<And>i. i \<in> set done \<Longrightarrow> reach P 0 i \<Longrightarrow> level ! i = int (card (strict_dominators P 0 i))) \<Longrightarrow>
    map snd links = done \<Longrightarrow> (\<And>p i. (p, i) \<in> set links \<Longrightarrow> reach P 0 i \<Longrightarrow> immediate P 0 p i) \<Longrightarrow>
    map snd (fst (link_elements doms n rest (links, level))) = done @ rest \<and>
    (\<forall>(p, i)\<in>set (fst (link_elements doms n rest (links, level))). reach P 0 i \<longrightarrow> immediate P 0 p i)"
proof (induction rest arbitrary: "done" links level)
  case Nil
  show ?case using Nil(7,8) by simp blast
next
  case (Cons i rest)
  obtain m k where mk: "deepest (\<lambda>j. bitset_test_bit (doms ! i) j = Some True) (\<lambda>j. level ! j) [0..<n] (0, 0) = (m, k)"
    by fastforce
  note dp = deepest_props [OF mk]
  have "i \<in> set (done @ i # rest)" by simp
  then have "i \<in> {1..<n}" by (simp only: Cons.prems(3))
  then have i: "i < n" "i \<noteq> 0" "i \<notin> set done" using Cons.prems(2) by simp_all
  have imm: "immediate P 0 k i \<and> m + 1 = int (card (strict_dominators P 0 i))" if r: "reach P 0 i"
  proof -
    have lev: "level ! d = int (card (strict_dominators P 0 d)) \<and> d < n" if d: "d \<in> strict_dominators P 0 i" for d
    proof -
      have dn: "d < n" using T [OF i(1) r] d by blast
      have rd: "reach P 0 d" using d r dominates_reach by (auto simp: strict_dominators_def)
      have "d = 0 \<or> d \<in> set done"
      proof (rule ccontr)
        assume "\<not> (d = 0 \<or> d \<in> set done)"
        moreover have "d \<noteq> i" using d by (simp add: strict_dominators_def)
        moreover have "d \<in> {1..<n}" using \<open>\<not> (d = 0 \<or> d \<in> set done)\<close> dn by simp
        then have "d \<in> set (done @ i # rest)" by (simp only: Cons.prems(3))
        ultimately have "d \<in> set rest" by simp
        then have "cnt i \<le> cnt d" using Cons.prems(1) by (auto simp: sorted_append)
        with sorted [OF i(1) r d] show False by simp
      qed
      moreover have "strict_dominators P 0 0 = {}" by (auto simp: strict_dominators_def dominates_head)
      ultimately have "level ! d = int (card (strict_dominators P 0 d))"
        using Cons.prems(5) Cons.prems(6) [OF _ rd] by (elim disjE) simp_all
      with dn show ?thesis by simp
    qed
    have mem: "j < n \<and> bitset_test_bit (doms ! i) j = Some True \<longleftrightarrow> j \<in> strict_dominators P 0 i" for j
      using T [OF i(1) r] by blast
    have "0 \<in> strict_dominators P 0 i" using i(2) head_dominates by (auto simp: strict_dominators_def)
    then have "0 \<in> set [0..<n] \<and> bitset_test_bit (doms ! i) 0 = Some True \<and> 0 \<le> level ! 0"
      using mem [of 0] Cons.prems(5) by simp
    then have "k \<in> set [0..<n] \<and> bitset_test_bit (doms ! i) k = Some True \<and> level ! k = m" using dp by blast
    then have k: "k \<in> strict_dominators P 0 i" "level ! k = m" using mem [of k] by simp_all
    have "level ! d \<le> m" if d: "d \<in> strict_dominators P 0 i" for d
    proof -
      have "d \<in> set [0..<n]" "bitset_test_bit (doms ! i) d = Some True" using mem [of d] d by simp_all
      with dp show ?thesis by blast
    qed
    with lev k have "card (strict_dominators P 0 d) \<le> card (strict_dominators P 0 k)" if "d \<in> strict_dominators P 0 i" for d
      using that by (metis of_nat_le_iff)
    note di = deepest_immediate [OF r k(1) this]
    have "m = int (card (strict_dominators P 0 k))" using lev [OF k(1)] k(2) by simp
    with di show ?thesis by simp
  qed
  have "map snd (fst (link_elements doms n rest (links @ [(k, i)], level[i := m + 1]))) = (done @ [i]) @ rest \<and>
    (\<forall>(p, i)\<in>set (fst (link_elements doms n rest (links @ [(k, i)], level[i := m + 1]))). reach P 0 i \<longrightarrow> immediate P 0 p i)"
  proof (rule Cons.IH)
    show "level[i := m + 1] ! 0 = 0" using i Cons.prems(5) by simp
    show "level[i := m + 1] ! j = int (card (strict_dominators P 0 j))" if "j \<in> set (done @ [i])" "reach P 0 j" for j
    proof (cases "j = i")
      case True
      then show ?thesis using imm that(2) i(1) Cons.prems(4) by simp
    next
      case False
      then show ?thesis using Cons.prems(6) [OF _ that(2)] that(1) by simp
    qed
    show "immediate P 0 p j" if "(p, j) \<in> set (links @ [(k, i)])" "reach P 0 j" for p j
      using that(1) imm that(2) Cons.prems(8) [OF _ that(2)] by auto
    show "sorted (map cnt ((done @ [i]) @ rest))" "distinct ((done @ [i]) @ rest)" "set ((done @ [i]) @ rest) = {1..<n}"
      using Cons.prems(1-3) by (simp_all only: append_Cons append_Nil append_assoc)
  qed (simp_all add: Cons.prems(4,7))
  then show ?case by (simp add: mk)
qed

text \<open>
  The calls of \<open>addChildren\<close> build the tree from the root downwards: the parent is the root or was a child before.
\<close>

definition built_downwards :: "(nat \<times> nat) list \<Rightarrow> bool" where
  "built_downwards links \<longleftrightarrow> (\<forall>xs p c ys. links = xs @ (p, c) # ys \<longrightarrow> p = 0 \<or> p \<in> snd ` set xs)"

lemma built_downwards_snoc:
  "built_downwards links \<Longrightarrow> p = 0 \<or> p \<in> snd ` set links \<Longrightarrow> built_downwards (links @ [(p, c)])"
  unfolding built_downwards_def
proof (intro allI impI)
  fix xs p' c' ys
  assume b: "\<forall>xs p c ys. links = xs @ (p, c) # ys \<longrightarrow> p = 0 \<or> p \<in> snd ` set xs"
    and p: "p = 0 \<or> p \<in> snd ` set links" and e: "links @ [(p, c)] = xs @ (p', c') # ys"
  show "p' = 0 \<or> p' \<in> snd ` set xs"
  proof (cases ys rule: rev_cases)
    case Nil
    with e p show ?thesis by simp
  next
    case (snoc zs z)
    with e have "links = xs @ (p', c') # zs" by simp
    with b show ?thesis by blast
  qed
qed

lemma link_elements_downwards:
  "(\<forall>j<n. 0 \<le> level ! j \<longleftrightarrow> j = 0 \<or> j \<in> snd ` set links) \<Longrightarrow> length level = n \<Longrightarrow> 0 < n \<Longrightarrow> set rest \<subseteq> {..<n} \<Longrightarrow>
    built_downwards links \<Longrightarrow> built_downwards (fst (link_elements doms n rest (links, level)))"
proof (induction rest arbitrary: links level)
  case (Cons i rest)
  obtain m k where mk: "deepest (\<lambda>j. bitset_test_bit (doms ! i) j = Some True) (\<lambda>j. level ! j) [0..<n] (0, 0) = (m, k)"
    by fastforce
  note dp = deepest_props [OF mk]
  have k: "k < n \<and> 0 \<le> level ! k" using dp Cons.prems(1,3) by auto
  have "built_downwards (fst (link_elements doms n rest (links @ [(k, i)], level[i := m + 1])))"
  proof (rule Cons.IH)
    show "\<forall>j<n. 0 \<le> level[i := m + 1] ! j \<longleftrightarrow> j = 0 \<or> j \<in> snd ` set (links @ [(k, i)])"
    proof (intro allI impI)
      fix j assume j: "j < n"
      have "0 \<le> m" "i < length level" using dp Cons.prems(2,4) by auto
      then show "0 \<le> level[i := m + 1] ! j \<longleftrightarrow> j = 0 \<or> j \<in> snd ` set (links @ [(k, i)])"
        using Cons.prems(1) j by (cases "j = i") simp_all
    qed
    show "built_downwards (links @ [(k, i)])"
      using Cons.prems(1) k by (intro built_downwards_snoc [OF Cons.prems(5)]) blast
  qed (use Cons.prems in auto)
  then show ?case by (simp add: mk)
qed simp

text \<open>The two halves together, for a head at the position 0.\<close>

lemma calculateDominanceTree_eval:
  assumes g: "neighbour_functions elems 0 getPredecessors getSuccessors P Q" and ne: "elems \<noteq> []"
  shows "\<exists>links. calculateDominanceTree elems 0 getPredecessors getSuccessors = Some links \<and>
    mset (map snd links) = mset [1..<length elems] \<and> built_downwards links \<and>
    (\<forall>p i. (p, i) \<in> set links \<longrightarrow> reach P 0 i \<longrightarrow> immediate P 0 p i)"
proof -
  define n where "n = length elems"
  have n: "0 < n" using ne by (simp add: n_def)
  obtain doms where doms: "calculate_dominators elems 0 getPredecessors getSuccessors = Some doms" "length doms = n"
      "\<forall>i<n. wf_bitset n (doms ! i)" "\<forall>i<n. reach P 0 i \<longrightarrow> members (doms ! i) = {d. dominates P 0 d i}"
    using calculate_dominators_eval [OF g] n n_def by blast
  obtain ds where ds: "clear_self [0..<n] doms = Some ds" "\<forall>i<n. wf_bitset n (ds ! i)"
      "\<forall>i<n. members (ds ! i) = members (doms ! i) - {i}"
    using clear_self_eval [of "[0..<n]" n doms] doms(2,3) by auto
  have mem: "members (ds ! i) = strict_dominators P 0 i" if "i < n" "reach P 0 i" for i
    using ds(3) doms(4) that by (auto simp: strict_dominators_def)
  have inn: "strict_dominators P 0 i \<subseteq> {..<n}" if i: "i < n" "reach P 0 i" for i
  proof -
    obtain p where p: "walk P 0 i p" using i by (auto simp: reach_def)
    moreover have "set p \<subseteq> {..<n}"
      by (rule walk_bound [OF p n]) (use neighbour_functionsD(2) [OF g] i n_def in blast)+
    ultimately show ?thesis by (auto simp: strict_dominators_def dominates_def)
  qed
  define cnt where "cnt i = countSet (ds ! i)" for i
  have cnt: "cnt i = card (strict_dominators P 0 i)" if "i < n" "reach P 0 i" for i
    using wf_count [of n "ds ! i"] ds(2) mem [OF that] inn [OF that] that(1) by (simp add: cnt_def Int_absorb2)
  define ys where "ys = fst (order_elements cnt [1..<n] ([], 0))"
  have ys: "mset ys = mset [1..<n]" "sorted (map cnt ys)" unfolding ys_def using order_elements_all by blast+
  then have "distinct ys" "set ys = {1..<n}"
    using mset_eq_imp_distinct_iff [of ys "[1..<n]"] mset_eq_setD [OF ys(1)] by auto
  define level where "level = (replicate n (- 1 :: int))[0 := 0]"
  define links where "links = fst (link_elements ds n ys ([], level))"
  have "map snd links = [] @ ys \<and> (\<forall>(p, i)\<in>set links. reach P 0 i \<longrightarrow> immediate P 0 p i)"
    unfolding links_def
  proof (rule link_elements_props [where cnt = cnt])
    show "{j. j < n \<and> bitset_test_bit (ds ! i) j = Some True} = strict_dominators P 0 i" if i: "i < n" "reach P 0 i" for i
      using wf_test_bit [of n "ds ! i"] ds(2) mem [OF i] inn [OF i] i(1) by auto
    show "cnt d < cnt i" if i: "i < n" "reach P 0 i" "d \<in> strict_dominators P 0 i" for i d
    proof -
      have "reach P 0 d" using i dominates_reach by (auto simp: strict_dominators_def)
      moreover have "d < n" using inn [OF i(1,2)] i(3) by blast
      ultimately show ?thesis using cnt i strict_dominators_less(3) [OF i(2,3)] by simp
    qed
    show "length level = n" "level ! 0 = 0" using n by (simp_all add: level_def)
  qed (use ys(2) \<open>distinct ys\<close> \<open>set ys = {1..<n}\<close> in simp_all)
  moreover have "built_downwards links"
    unfolding links_def
  proof (rule link_elements_downwards)
    show "\<forall>j<n. 0 \<le> level ! j \<longleftrightarrow> j = 0 \<or> j \<in> snd ` set []" using n by (auto simp: level_def nth_list_update)
    show "set ys \<subseteq> {..<n}" using \<open>set ys = {1..<n}\<close> by auto
  qed (use n in \<open>simp_all add: level_def built_downwards_def\<close>)
  moreover have "calculateDominanceTree elems 0 getPredecessors getSuccessors = Some links"
    using doms(1) ds(1)
    by (simp add: calculateDominanceTree_def n_def [symmetric] links_def ys_def level_def cnt_def [abs_def] case_prod_beta)
  ultimately show ?thesis using ys(1) n_def by (intro exI [of _ links]) auto
qed

lemma tree_parent:
  assumes "mset (map snd links) = mset [1..<n]" and "0 < i" and "i < n"
    and "\<forall>p i. (p, i) \<in> set links \<longrightarrow> reach P 0 i \<longrightarrow> immediate P 0 p i" and "reach P 0 i"
  shows "\<exists>p. (p, i) \<in> set links \<and> immediate P 0 p i"
proof -
  have "set (map snd links) = {1..<n}" using mset_eq_setD [OF assms(1)] by simp
  then have "i \<in> snd ` set links" using assms(2,3) by auto
  with assms(4,5) show ?thesis by fastforce
qed

text \<open>Edges from the immediate dominators, one at least above every node but the head, order the nodes by dominance.\<close>

lemma parent_paths:
  assumes imm: "\<And>p i. i \<in> N \<Longrightarrow> reach P h i \<Longrightarrow> (p, i) \<in> E \<Longrightarrow> immediate P h p i"
    and above: "\<And>i. i \<in> N \<Longrightarrow> reach P h i \<Longrightarrow> i \<noteq> h \<Longrightarrow> \<exists>p. (p, i) \<in> E"
    and closed: "\<And>d i. i \<in> N \<Longrightarrow> reach P h i \<Longrightarrow> dominates P h d i \<Longrightarrow> d \<in> N"
    and i: "i \<in> N" "reach P h i"
  shows "(d, i) \<in> E\<^sup>* \<longleftrightarrow> dominates P h d i"
proof
  assume "(d, i) \<in> E\<^sup>*"
  then show "dominates P h d i" using i
  proof (induction rule: rtrancl_induct)
    case base
    show ?case by (rule dominates_refl)
  next
    case (step p i)
    from imm [OF step.prems step.hyps(2)] have d: "dominates P h p i" by (simp add: immediate_def strict_dominators_def)
    have "dominates P h d p" using step.IH closed [OF step.prems d] dominates_reach [OF step.prems(2) d] .
    with d show ?case by (rule dominates_trans [rotated])
  qed
next
  show "dominates P h d i \<Longrightarrow> (d, i) \<in> E\<^sup>*" using i
  proof (induction "card (strict_dominators P h i)" arbitrary: i rule: less_induct)
    case less
    show ?case
    proof (cases "d = i")
      case False
      then have "i \<noteq> h" using less.prems(1) dominates_head by metis
      from above [OF less.prems(2,3) this] obtain p where p: "(p, i) \<in> E" by blast
      from imm [OF less.prems(2,3) p] have pi: "dominates P h p i" "p \<in> strict_dominators P h i" "dominates P h d p"
        using less.prems(1) False by (auto simp: immediate_def strict_dominators_def)
      have "(d, p) \<in> E\<^sup>*"
      proof (rule less.hyps)
        show "card (strict_dominators P h p) < card (strict_dominators P h i)"
          by (rule strict_dominators_less(3) [OF less.prems(3) pi(2)])
        show "reach P h p" using dominates_reach [OF less.prems(3) pi(1)] .
        show "p \<in> N" using closed [OF less.prems(2,3) pi(1)] .
      qed (rule pi(3))
      then show ?thesis using p by (rule rtrancl_into_rtrancl)
    qed simp
  qed
qed

lemma tree_paths:
  assumes m: "mset (map snd links) = mset [1..<n]" and n: "0 < n"
    and imm: "\<forall>p i. (p, i) \<in> set links \<longrightarrow> reach P 0 i \<longrightarrow> immediate P 0 p i"
    and i: "reach P 0 i" "i < n" and P: "\<And>d i. reach P 0 i \<Longrightarrow> i < n \<Longrightarrow> dominates P 0 d i \<Longrightarrow> d < n"
  shows "(d, i) \<in> (set links)\<^sup>* \<longleftrightarrow> dominates P 0 d i"
proof (rule parent_paths [where N = "{..<n}"])
  show "\<exists>p. (p, i) \<in> set links" if "i \<in> {..<n}" "reach P 0 i" "i \<noteq> 0" for i
    using tree_parent [OF m _ _ imm that(2)] that by auto
qed (use imm i P in auto)

lemma dominator_bound:
  assumes "neighbour_functions elems h getPredecessors getSuccessors P Q"
    and "reach P h i" "i < length elems" "h < length elems" "dominates P h d i"
  shows "d < length elems"
proof -
  obtain p where p: "walk P h i p" using assms(2) by (auto simp: reach_def)
  moreover have "set p \<subseteq> {..<length elems}"
    by (rule walk_bound [OF p assms(4)]) (use neighbour_functionsD(2) [OF assms(1)] assms(3) in blast)+
  ultimately show ?thesis using assms(5) by (auto simp: dominates_def)
qed

section \<open>The queries\<close>

text \<open>
  The nodes of the tree are reached through the operations of the library: \<open>find\<close>, the \<open>data\<close> and \<open>parent\<close> fields and
  \<open>toPreOrderList\<close>.
\<close>

partial_function (option) append_parents ::
  "('n \<Rightarrow> 'a) \<Rightarrow> ('n \<Rightarrow> 'n option) \<Rightarrow> 'n option \<Rightarrow> 'a list \<Rightarrow> 'a list option" where
  "append_parents node_data node_parent node acc =
     (case node of None \<Rightarrow> Some acc
      | Some nd \<Rightarrow> append_parents node_data node_parent (node_parent nd) (acc @ [node_data nd]))"

definition getElemsDominatingElem ::
  "('a \<Rightarrow> 'n option) \<Rightarrow> ('n \<Rightarrow> 'a) \<Rightarrow> ('n \<Rightarrow> 'n option) \<Rightarrow> 'a \<Rightarrow> 'a list option" where
  "getElemsDominatingElem node_find node_data node_parent dominated =
     append_parents node_data node_parent (node_find dominated) []"

definition isADominator :: "('a \<Rightarrow> 'n option) \<Rightarrow> ('n \<Rightarrow> 'a list) \<Rightarrow> 'a \<Rightarrow> 'a \<Rightarrow> bool option" where
  "isADominator node_find toPreOrderList elem dominated =
     (if elem = dominated then Some True
      else do { node \<leftarrow> node_find elem; Some (dominated \<in> set (toPreOrderList node)) })"

text \<open>
  What the library promises for the tree built by the calls in \<open>links\<close>, where \<open>nd i\<close> is the node made for the position \<open>i\<close>.
\<close>

definition tree_library :: "'a list \<Rightarrow> (nat \<times> nat) list \<Rightarrow> (nat \<Rightarrow> 'n) \<Rightarrow> ('a \<Rightarrow> 'n option) \<Rightarrow> ('n \<Rightarrow> 'a) \<Rightarrow>
    ('n \<Rightarrow> 'n option) \<Rightarrow> ('n \<Rightarrow> 'a list) \<Rightarrow> bool" where
  "tree_library elems links nd node_find node_data node_parent toPreOrderList \<longleftrightarrow>
     (\<forall>i<length elems. node_data (nd i) = elems ! i \<and>
        ((0, i) \<in> (set links)\<^sup>* \<longrightarrow> node_find (elems ! i) = Some (nd i)) \<and>
        (\<forall>p. (p, i) \<in> set links \<longrightarrow> node_parent (nd i) = Some (nd p)) \<and>
        ((\<forall>p. (p, i) \<notin> set links) \<longrightarrow> node_parent (nd i) = None) \<and>
        (\<forall>j<length elems. elems ! j \<in> set (toPreOrderList (nd i)) \<longleftrightarrow> (i, j) \<in> (set links)\<^sup>*))"

lemma tree_libraryD:
  assumes "tree_library elems links nd node_find node_data node_parent toPreOrderList" and "i < length elems"
  shows "node_data (nd i) = elems ! i" "(0, i) \<in> (set links)\<^sup>* \<Longrightarrow> node_find (elems ! i) = Some (nd i)"
    "(p, i) \<in> set links \<Longrightarrow> node_parent (nd i) = Some (nd p)"
    "(\<And>p. (p, i) \<notin> set links) \<Longrightarrow> node_parent (nd i) = None"
    "j < length elems \<Longrightarrow> elems ! j \<in> set (toPreOrderList (nd i)) \<longleftrightarrow> (i, j) \<in> (set links)\<^sup>*"
  using assms unfolding tree_library_def by blast+

lemma append_parents_eval:
  assumes m: "mset (map snd links) = mset [1..<length elems]"
    and imm: "\<forall>p i. (p, i) \<in> set links \<longrightarrow> reach P 0 i \<longrightarrow> immediate P 0 p i"
    and t: "tree_library elems links nd node_find node_data node_parent toPreOrderList"
    and P: "\<And>d i. reach P 0 i \<Longrightarrow> i < length elems \<Longrightarrow> dominates P 0 d i \<Longrightarrow> d < length elems"
  shows "reach P 0 i \<Longrightarrow> i < length elems \<Longrightarrow>
    \<exists>ds. append_parents node_data node_parent (Some (nd i)) acc = Some (acc @ map ((!) elems) ds) \<and>
      set ds = {d. dominates P 0 d i} \<and> distinct ds \<and> sorted_wrt (\<lambda>d e. dominates P 0 e d) ds"
proof (induction "card (strict_dominators P 0 i)" arbitrary: i acc rule: less_induct)
  case less
  have nodes: "set (map snd links) = {1..<length elems}" using mset_eq_setD [OF m] by simp
  note lib = tree_libraryD [OF t less.prems(2)]
  show ?case
  proof (cases "i = 0")
    case True
    have "(p, i) \<notin> set links" for p
    proof
      assume "(p, i) \<in> set links"
      then have "i \<in> set (map snd links)" by (auto intro: image_eqI [of _ snd "(p, i)"])
      with True show False unfolding nodes by simp
    qed
    then have "node_parent (nd i) = None" by (rule lib(4))
    then have "append_parents node_data node_parent (Some (nd i)) acc = Some (acc @ map ((!) elems) [0])"
      using lib(1) True by (simp add: append_parents.simps)
    moreover have "set [0] = {d. dominates P 0 d i}" using True by (auto simp: dominates_head)
    ultimately show ?thesis by (intro exI [of _ "[0]"]) simp
  next
    case False
    then obtain p where p: "(p, i) \<in> set links" "immediate P 0 p i"
      using tree_parent [OF m _ less.prems(2) imm less.prems(1)] by blast
    then have pi: "dominates P 0 p i" "p \<in> strict_dominators P 0 i" by (auto simp: immediate_def strict_dominators_def)
    have "node_parent (nd i) = Some (nd p)" by (rule lib(3) [OF p(1)])
    then have a: "append_parents node_data node_parent (Some (nd i)) acc =
        append_parents node_data node_parent (Some (nd p)) (acc @ [elems ! i])"
      using lib(1) by (subst append_parents.simps) simp
    from less.hyps [OF strict_dominators_less(3) [OF less.prems(1) pi(2)] dominates_reach [OF less.prems(1) pi(1)]
        P [OF less.prems pi(1)], of "acc @ [elems ! i]"]
    obtain ds where ds: "append_parents node_data node_parent (Some (nd p)) (acc @ [elems ! i]) =
          Some ((acc @ [elems ! i]) @ map ((!) elems) ds)"
        "set ds = {d. dominates P 0 d p}" "distinct ds" "sorted_wrt (\<lambda>d e. dominates P 0 e d) ds" by blast
    have "{d. dominates P 0 d i} = insert i {d. dominates P 0 d p}"
      using p(2) dominates_trans [of P 0 _ p i] pi(1) dominates_refl [of P 0 i]
      unfolding immediate_def strict_dominators_def by blast
    moreover have "i \<notin> set ds" using ds(2) pi(2) dominates_antisym [OF less.prems(1) pi(1)] by (simp add: strict_dominators_def) blast
    moreover have "dominates P 0 d i" if "d \<in> set ds" for d using that ds(2) dominates_trans [OF _ pi(1)] by blast
    ultimately show ?thesis using a ds(1-4) by (intro exI [of _ "i # ds"]) (simp del: append_assoc add: append_assoc [symmetric])
  qed
qed

section \<open>Properties\<close>

text \<open>
  C10: With the head at the position 0, the construction always succeeds; every other element receives exactly one parent;
  and above an element that the head reaches stand exactly its dominators, its parent being the closest of them.
\<close>

theorem tree_of_dominators:
  assumes "neighbour_functions elems 0 getPredecessors getSuccessors P Q" and "elems \<noteq> []"
  shows "\<exists>links. calculateDominanceTree elems 0 getPredecessors getSuccessors = Some links \<and>
    mset (map snd links) = mset [1..<length elems] \<and>
    (\<forall>i<length elems. reach P 0 i \<longrightarrow>
       (\<forall>p. (p, i) \<in> set links \<longrightarrow> immediate P 0 p i) \<and> (\<forall>d. (d, i) \<in> (set links)\<^sup>* \<longleftrightarrow> dominates P 0 d i))"
proof -
  obtain links where l: "calculateDominanceTree elems 0 getPredecessors getSuccessors = Some links"
      "mset (map snd links) = mset [1..<length elems]"
      "\<forall>p i. (p, i) \<in> set links \<longrightarrow> reach P 0 i \<longrightarrow> immediate P 0 p i"
    using calculateDominanceTree_eval [OF assms] by blast
  have n: "0 < length elems" using assms(2) by simp
  have "(d, i) \<in> (set links)\<^sup>* \<longleftrightarrow> dominates P 0 d i" if "reach P 0 i" "i < length elems" for d i
    by (rule tree_paths [OF l(2) n l(3) that]) (rule dominator_bound [OF assms(1) _ _ n])
  with l show ?thesis by (intro exI [of _ links]) simp
qed

theorem tree_of_dominators_witness:
  "\<exists>links. calculateDominanceTree demo_elems 0 (demo_get demo_preds) (demo_get demo_succs) = Some links \<and>
    length links = 4 \<and> (0, 3) \<in> (set links)\<^sup>* \<and> (1, 3) \<notin> set links"
proof -
  have n: "length demo_elems = 5" and ne: "demo_elems \<noteq> []" and lt: "(3 :: nat) < 5" by (simp_all add: demo_elems_def)
  obtain links where l: "calculateDominanceTree demo_elems 0 (demo_get demo_preds) (demo_get demo_succs) = Some links"
      "mset (map snd links) = mset [1..<5]"
      "\<forall>p. (p, 3) \<in> set links \<longrightarrow> immediate demo_preds 0 p 3"
      "\<forall>d. (d, 3) \<in> (set links)\<^sup>* \<longleftrightarrow> dominates demo_preds 0 d 3"
    using tree_of_dominators [OF demo_graph ne] demo_reach lt unfolding n by blast
  have "walk demo_preds 0 3 [3, 2, 0]"
    by (rule walk_edge [where k = 2], rule walk_edge [where k = 0], rule walk_head) (simp_all add: demo_preds_def)
  then have "\<not> dominates demo_preds 0 1 3" unfolding dominates_def by force
  then have "(1, 3) \<notin> set links" using l(3) by (auto simp: immediate_def strict_dominators_def)
  moreover have "length links = 4" using mset_eq_length [OF l(2)] by simp
  ultimately show ?thesis using l(1,4) head_dominates by blast
qed

text \<open>
  C18: On the tree, \<open>getElemsDominatingElem\<close> lists the dominators of an element that the head reaches, each once and the closest
  first, and \<open>isADominator\<close> decides dominance between two such elements.
\<close>

theorem queries_answer_dominance:
  assumes "neighbour_functions elems 0 getPredecessors getSuccessors P Q" and "elems \<noteq> []"
    and "calculateDominanceTree elems 0 getPredecessors getSuccessors = Some links"
    and "tree_library elems links nd node_find node_data node_parent toPreOrderList"
    and "i < length elems" and "reach P 0 i"
  shows "(\<exists>ds. getElemsDominatingElem node_find node_data node_parent (elems ! i) = Some (map ((!) elems) ds) \<and>
      set ds = {d. dominates P 0 d i} \<and> distinct ds \<and> sorted_wrt (\<lambda>d e. dominates P 0 e d) ds) \<and>
    (\<forall>d<length elems. reach P 0 d \<longrightarrow>
      isADominator node_find toPreOrderList (elems ! d) (elems ! i) = Some (dominates P 0 d i))"
proof -
  have l: "mset (map snd links) = mset [1..<length elems]"
      "\<forall>p i. (p, i) \<in> set links \<longrightarrow> reach P 0 i \<longrightarrow> immediate P 0 p i"
    using calculateDominanceTree_eval [OF assms(1,2)] assms(3) by auto
  have n: "0 < length elems" using assms(2) by simp
  have paths: "(d, i) \<in> (set links)\<^sup>* \<longleftrightarrow> dominates P 0 d i" if "reach P 0 i" "i < length elems" for d i
    by (rule tree_paths [OF l(1) n l(2) that]) (rule dominator_bound [OF assms(1) _ _ n])
  have bound: "d < length elems" if "reach P 0 i" "i < length elems" "dominates P 0 d i" for d i
    by (rule dominator_bound [OF assms(1) that(1,2) n that(3)])
  have find: "node_find (elems ! d) = Some (nd d)" if "reach P 0 d" "d < length elems" for d
    by (rule tree_libraryD(2) [OF assms(4) that(2)]) (simp add: paths [OF that] head_dominates)
  have "elems ! d = elems ! i \<longleftrightarrow> d = i" if "d < length elems" for d
    using neighbour_functionsD(1) [OF assms(1)] that assms(5) by (simp add: nth_eq_iff_index_eq)
  then have "isADominator node_find toPreOrderList (elems ! d) (elems ! i) = Some (dominates P 0 d i)"
    if "d < length elems" "reach P 0 d" for d
    using that find [OF that(2,1)] tree_libraryD(5) [OF assms(4) that(1) assms(5)] paths [OF assms(6,5)] dominates_refl
    by (simp add: isADominator_def)
  moreover have "\<exists>ds. append_parents node_data node_parent (Some (nd i)) [] = Some ([] @ map ((!) elems) ds) \<and>
      set ds = {d. dominates P 0 d i} \<and> distinct ds \<and> sorted_wrt (\<lambda>d e. dominates P 0 e d) ds"
    by (rule append_parents_eval [OF l assms(4) _ assms(6,5)]) (rule bound)
  ultimately show ?thesis using find [OF assms(6,5)] by (auto simp: getElemsDominatingElem_def)
qed

definition demo_find :: "nat \<Rightarrow> nat option" where
  "demo_find x = (if 70 \<le> x \<and> x < 75 then Some (x - 70) else None)"

lemma demo_library:
  assumes m: "mset (map snd links) = mset [1..<5]"
  shows "tree_library demo_elems links (\<lambda>i. i) demo_find ((+) 70) (map_of (map prod.swap links))
    (\<lambda>i. map ((!) demo_elems) (filter (\<lambda>j. (i, j) \<in> (set links)\<^sup>*) [0..<5]))"
proof -
  have e: "demo_elems ! i = 70 + i" if "i < 5" for i :: nat
  proof -
    have "i = 0 \<or> i = 1 \<or> i = 2 \<or> i = 3 \<or> i = 4" using that by auto
    then show ?thesis by (auto simp: demo_elems_def)
  qed
  have l: "length demo_elems = 5" by (simp add: demo_elems_def)
  have "distinct (map snd links)" using mset_eq_imp_distinct_iff [OF m] by simp
  then have d: "distinct (map fst (map prod.swap links))" by (simp add: comp_def)
  have pm: "map_of (map prod.swap links) i = Some p" if "(p, i) \<in> set links" for p i
    using that by (intro map_of_is_SomeI [OF d]) force
  have pn: "map_of (map prod.swap links) i = None" if "\<forall>p. (p, i) \<notin> set links" for i
    using that by (auto simp: map_of_eq_None_iff)
  show ?thesis
    unfolding tree_library_def l using e pm pn by (auto simp: demo_find_def)
qed

theorem queries_answer_dominance_witness:
  "\<exists>links find_node data_of parent_of preorder.
    calculateDominanceTree demo_elems 0 (demo_get demo_preds) (demo_get demo_succs) = Some links \<and>
    (\<exists>ds. getElemsDominatingElem find_node data_of parent_of (demo_elems ! 3) = Some (map ((!) demo_elems) ds) \<and> 0 \<in> set ds) \<and>
    isADominator find_node (preorder :: nat \<Rightarrow> nat list) (demo_elems ! 0) (demo_elems ! 3) = Some True"
proof -
  have n: "length demo_elems = 5" and ne: "demo_elems \<noteq> []" by (simp_all add: demo_elems_def)
  obtain links where l: "calculateDominanceTree demo_elems 0 (demo_get demo_preds) (demo_get demo_succs) = Some links"
      "mset (map snd links) = mset [1..<5]"
    using calculateDominanceTree_eval [OF demo_graph ne] unfolding n by blast
  have "reach demo_preds 0 0" unfolding reach_def by (blast intro: walk_head)
  moreover note queries_answer_dominance [OF demo_graph ne l(1) demo_library [OF l(2)] _ demo_reach]
  ultimately have "(\<exists>ds. getElemsDominatingElem demo_find ((+) 70) (map_of (map prod.swap links)) (demo_elems ! 3) =
        Some (map ((!) demo_elems) ds) \<and> 0 \<in> set ds) \<and>
      isADominator demo_find (\<lambda>i. map ((!) demo_elems) (filter (\<lambda>j. (i, j) \<in> (set links)\<^sup>*) [0..<5]))
        (demo_elems ! 0) (demo_elems ! 3) = Some True"
    using head_dominates n ne by fastforce
  with l(1) show ?thesis by blast
qed

text \<open>A head at the position 1 with an edge to the position 0.\<close>

definition two_preds :: "nat \<Rightarrow> nat list" where
  "two_preds i = (if i = 0 then [1] else [])"

definition two_succs :: "nat \<Rightarrow> nat list" where
  "two_succs i = (if i = 1 then [0] else [])"

lemma two_graph: "neighbour_functions [70, 71] 1 (demo_get two_preds) (demo_get two_succs) two_preds two_succs"
proof -
  have w: "walk two_preds 1 1 [1]" by (rule walk_head)
  have "walk two_preds 1 0 [0, 1]" by (rule walk_edge [OF w]) (simp add: two_preds_def)
  with w have "reach two_preds 1 i" if "i < 2" for i using that less_2_cases [of i] by (auto simp: reach_def)
  then show ?thesis
    unfolding neighbour_functions_def by (auto simp: demo_get_def two_preds_def two_succs_def less_Suc_eq)
qed

text \<open>
  C37: The parameter \<open>headNodePos\<close> selects the start of the iteration only: the tree is always rooted at the position 0, and
  an element without strict dominators becomes a child of it. With the head at the position 1 of two elements
  and an edge from the head to the other, the tree says the opposite of dominance.
\<close>

theorem head_not_at_the_root:
  "calculateDominanceTree [70, 71] 1 (demo_get two_preds) (demo_get two_succs) = Some [(0, 1)] \<and>
    dominates two_preds 1 1 0 \<and> \<not> dominates two_preds 1 0 1"
proof -
  have l: "length [70, 71 :: nat] = 2" by simp
  have w: "walk two_preds 1 1 [1]" by (rule walk_head)
  then have "reach two_preds 1 1" by (auto simp: reach_def)
  then have r1: "{d. dominates two_preds 1 d 1} = {1}" by (auto simp: dominates_head)
  obtain doms where doms: "calculate_dominators [70, 71] 1 (demo_get two_preds) (demo_get two_succs) = Some doms"
      "length doms = 2" "\<forall>i<2. wf_bitset 2 (doms ! i)" "members (doms ! 1) = {1}"
    using calculate_dominators_eval [OF two_graph] \<open>reach two_preds 1 1\<close> r1 unfolding l by auto
  obtain ds where ds: "clear_self [0..<2] doms = Some ds" "\<forall>i<2. wf_bitset 2 (ds ! i)" "members (ds ! 1) = {}"
    using clear_self_eval [of "[0..<2]" 2 doms] doms(2-4) by auto
  have t: "bitset_test_bit (ds ! 1) j = Some False" if "j < 2" for j
    using wf_test_bit [of 2 "ds ! 1" j] ds(2,3) that by simp
  have u: "[0..<2] = [0, 1 :: nat]" "[Suc 0..<2] = [1 :: nat]" by (simp_all add: upt_rec)
  have "calculateDominanceTree [70, 71] 1 (demo_get two_preds) (demo_get two_succs) = Some [(0, 1)]"
    using doms(1) ds(1) t [of 0] t [of 1] unfolding calculateDominanceTree_def l
    by (simp add: u del: clear_self.simps)
  then show ?thesis using r1 head_dominates [of two_preds 1 0] by auto
qed

end
