(* ===== verification/Chains.thy ===== *)
theory Chains
  imports DominanceTree
begin

text \<open>
  Graphs whose nodes are grouped in chains, in which every node but the first has the node before it as its only
  predecessor: the instructions of a method grouped in basic blocks, from the first instruction of a block to the last for the
  pre-dominators, and from the last to the first for the post-dominators. The dominance relation of the nodes
  follows from the one of the chains, and so does the tree of immediate dominators.
\<close>

definition up_to :: "nat list \<Rightarrow> nat \<Rightarrow> nat set" where
  "up_to xs i = insert i (set (takeWhile (\<lambda>x. x \<noteq> i) xs))"

lemma up_to_nth: "distinct xs \<Longrightarrow> j < length xs \<Longrightarrow> up_to xs (xs ! j) = set (take (Suc j) xs)"
proof -
  assume d: "distinct xs" and j: "j < length xs"
  have "xs ! k \<noteq> xs ! j" if "k < j" for k using d j that by (simp add: nth_eq_iff_index_eq)
  then have "takeWhile (\<lambda>x. x \<noteq> xs ! j) xs = take j xs"
    using j by (intro takeWhile_eq_take_P_nth) auto
  then show ?thesis using j by (simp add: up_to_def take_Suc_conv_app_nth)
qed

lemma up_to_hd: "xs \<noteq> [] \<Longrightarrow> up_to xs (hd xs) = {hd xs}"
  by (cases xs) (auto simp: up_to_def)

lemma up_to_last: "distinct xs \<Longrightarrow> xs \<noteq> [] \<Longrightarrow> up_to xs (last xs) = set xs"
  using up_to_nth [of xs "length xs - 1"] by (simp add: last_conv_nth)

lemma up_to_subset: "i \<in> set xs \<Longrightarrow> up_to xs i \<subseteq> set xs"
  by (auto simp: up_to_def dest: set_takeWhileD)

locale chain_graph =
  fixes P :: "nat \<Rightarrow> nat list" and h :: nat and N :: "nat set"
    and blk :: "nat \<Rightarrow> nat" and nb :: nat and chain :: "nat \<Rightarrow> nat list" and BP :: "nat \<Rightarrow> nat list"
  assumes blk_less: "i \<in> N \<Longrightarrow> blk i < nb"
    and on_chain: "i \<in> N \<Longrightarrow> i \<in> set (chain (blk i))"
    and chain_ne: "b < nb \<Longrightarrow> chain b \<noteq> []"
    and chain_distinct: "b < nb \<Longrightarrow> distinct (chain b)"
    and chain_nodes: "b < nb \<Longrightarrow> i \<in> set (chain b) \<Longrightarrow> i \<in> N \<and> blk i = b"
    and inner: "b < nb \<Longrightarrow> Suc j < length (chain b) \<Longrightarrow> P (chain b ! Suc j) = [chain b ! j]"
    and entry: "b < nb \<Longrightarrow> k \<in> set (P (hd (chain b))) \<Longrightarrow> k \<in> N \<and> last (chain (blk k)) = k"
    and blocks: "b < nb \<Longrightarrow> set (BP b) = blk ` set (P (hd (chain b)))"
    and head: "h \<in> N" "hd (chain (blk h)) = h"
begin

abbreviation before :: "nat \<Rightarrow> nat set" where
  "before i \<equiv> up_to (chain (blk i)) i"

lemma node_cases:
  assumes "i \<in> N"
  obtains (first) "i = hd (chain (blk i))"
    | (later) j where "Suc j < length (chain (blk i))" "i = chain (blk i) ! Suc j" "P i = [chain (blk i) ! j]"
        "chain (blk i) ! j \<in> N" "blk (chain (blk i) ! j) = blk i"
proof -
  obtain j where j: "j < length (chain (blk i))" "i = chain (blk i) ! j" using on_chain [OF assms] by (metis in_set_conv_nth)
  show thesis
  proof (cases j)
    case 0
    then show ?thesis using first j chain_ne [OF blk_less [OF assms]] by (simp add: hd_conv_nth)
  next
    case (Suc l)
    have "chain (blk i) ! l \<in> set (chain (blk i))" using j(1) Suc by simp
    with later [of l] Suc j inner [OF blk_less [OF assms], of l] chain_nodes [OF blk_less [OF assms]] show ?thesis by simp
  qed
qed

lemma pred_in: "i \<in> N \<Longrightarrow> k \<in> set (P i) \<Longrightarrow> k \<in> N"
proof -
  assume i: "i \<in> N" and k: "k \<in> set (P i)"
  from i show "k \<in> N"
  proof (cases rule: node_cases)
    case first
    then show ?thesis using entry [OF blk_less [OF i], of k] k by simp
  qed (use k in simp)
qed

lemma block_pred_less: "b < nb \<Longrightarrow> k \<in> set (BP b) \<Longrightarrow> k < nb"
  using blocks entry blk_less by (metis imageE)

lemma before_last: "k \<in> N \<Longrightarrow> last (chain (blk k)) = k \<Longrightarrow> before k = set (chain (blk k))"
  using up_to_last [OF chain_distinct chain_ne] blk_less by metis

lemma before_later:
  assumes "i \<in> N" and "Suc j < length (chain (blk i))" and "i = chain (blk i) ! Suc j" and "blk (chain (blk i) ! j) = blk i"
  shows "before i = insert i (before (chain (blk i) ! j))"
proof -
  note d = chain_distinct [OF blk_less [OF assms(1)]]
  have "before i = set (take (Suc (Suc j)) (chain (blk i)))" using up_to_nth [OF d assms(2)] assms(3) by simp
  also have "\<dots> = insert i (set (take (Suc j) (chain (blk i))))"
    using assms(2,3) by (subst take_Suc_conv_app_nth) auto
  also have "set (take (Suc j) (chain (blk i))) = before (chain (blk i) ! j)"
    using up_to_nth [OF d, of j] assms(2,4) by simp
  finally show ?thesis .
qed

section \<open>Walks over nodes and walks over chains\<close>

lemma node_walk:
  "walk P h i p \<Longrightarrow> i \<in> N \<Longrightarrow>
    \<exists>bp. walk BP (blk h) (blk i) bp \<and> set p = before i \<union> (\<Union>k\<in>set (tl bp). set (chain k))"
proof (induction rule: walk.induct)
  case walk_head
  have "before h = {h}" using up_to_hd [OF chain_ne [OF blk_less [OF head(1)]]] head(2) by simp
  then show ?case using walk.walk_head by (intro exI [of _ "[blk h]"]) simp
next
  case (walk_edge k p i)
  have k: "k \<in> N" by (rule pred_in [OF walk_edge.prems walk_edge.hyps(2)])
  from walk_edge.IH [OF k] obtain bp where bp: "walk BP (blk h) (blk k) bp"
    "set p = before k \<union> (\<Union>k\<in>set (tl bp). set (chain k))" by blast
  from walk_edge.prems show ?case
  proof (cases rule: node_cases)
    case first
    note bi = blk_less [OF walk_edge.prems]
    have lk: "last (chain (blk k)) = k" using entry [OF bi, of k] walk_edge.hyps(2) first by simp
    have "blk k \<in> set (BP (blk i))" using blocks [OF bi] walk_edge.hyps(2) first by auto
    moreover obtain q where "bp = blk k # q" using walk_hd [OF bp(1)] by blast
    moreover have "before i = {i}" using up_to_hd [OF chain_ne [OF bi]] first by simp
    ultimately show ?thesis
      using bp before_last [OF k lk] walk.walk_edge [OF bp(1)] by (intro exI [of _ "blk i # bp"]) auto
  next
    case (later j)
    then have kj: "k = chain (blk i) ! j" using walk_edge.hyps(2) by simp
    then show ?thesis
      using bp later before_later [OF walk_edge.prems later(1,2,5)] by (intro exI [of _ bp]) auto
  qed
qed

lemma walk_inside:
  assumes "b < nb" and "walk P h (hd (chain b)) p"
  shows "j < length (chain b) \<Longrightarrow> \<exists>p'. walk P h (chain b ! j) p' \<and> set p' = set (take (Suc j) (chain b)) \<union> set p"
proof (induction j)
  case 0
  have "hd (chain b) \<in> set p" using walk_hd [OF assms(2)] by auto
  then show ?case
    using assms(2) 0 by (intro exI [of _ p]) (auto simp: hd_conv_nth take_Suc)
next
  case (Suc j)
  then obtain p' where p': "walk P h (chain b ! j) p'" "set p' = set (take (Suc j) (chain b)) \<union> set p" by auto
  have "walk P h (chain b ! Suc j) (chain b ! Suc j # p')"
    using walk_edge [OF p'(1)] inner [OF assms(1) Suc.prems] by simp
  moreover have "set (take (Suc (Suc j)) (chain b)) = insert (chain b ! Suc j) (set (take (Suc j) (chain b)))"
    using Suc.prems by (subst take_Suc_conv_app_nth) auto
  ultimately show ?case using p'(2) by (intro exI [of _ "chain b ! Suc j # p'"]) auto
qed

lemma chain_walk:
  "walk BP (blk h) b bp \<Longrightarrow> b < nb \<Longrightarrow> i \<in> set (chain b) \<Longrightarrow>
    \<exists>p. walk P h i p \<and> set p = up_to (chain b) i \<union> (\<Union>k\<in>set (tl bp). set (chain k))"
proof (induction arbitrary: i rule: walk.induct)
  case walk_head
  obtain j where j: "j < length (chain (blk h))" "i = chain (blk h) ! j" using walk_head.prems(2) by (metis in_set_conv_nth)
  have hd: "h \<in> set (take (Suc j) (chain (blk h)))"
    using head(2) chain_ne [OF walk_head.prems(1)] by (cases "chain (blk h)") auto
  have "walk P h (hd (chain (blk h))) [h]" using head(2) walk.walk_head by simp
  from walk_inside [OF walk_head.prems(1) this j(1)] hd
    up_to_nth [OF chain_distinct [OF walk_head.prems(1)] j(1)] j(2) show ?case by auto
next
  case (walk_edge c bp b)
  obtain j where j: "j < length (chain b)" "i = chain b ! j" using walk_edge.prems(2) by (metis in_set_conv_nth)
  from walk_edge.hyps(2) blocks [OF walk_edge.prems(1)] obtain q where q: "q \<in> set (P (hd (chain b)))" "c = blk q" by auto
  note qn = entry [OF walk_edge.prems(1) q(1)]
  have c: "c < nb" "q \<in> set (chain c)" using qn blk_less on_chain q(2) by blast+
  have uq: "up_to (chain c) q = set (chain c)" using before_last [of q] qn q(2) by simp
  from walk_edge.IH [OF c] uq obtain p where p: "walk P h q p"
    "set p = set (chain c) \<union> (\<Union>k\<in>set (tl bp). set (chain k))" by auto
  have "walk P h (hd (chain b)) (hd (chain b) # p)" by (rule walk.walk_edge [OF p(1) q(1)])
  from walk_inside [OF walk_edge.prems(1) this j(1)] obtain p' where
    p': "walk P h i p'" "set p' = set (take (Suc j) (chain b)) \<union> set (hd (chain b) # p)" using j(2) by blast
  obtain r where "bp = c # r" using walk_hd [OF walk_edge.hyps(1)] by blast
  moreover have "hd (chain b) \<in> set (take (Suc j) (chain b))" using chain_ne [OF walk_edge.prems(1)] by (cases "chain b") auto
  ultimately show ?case
    using p' p(2) up_to_nth [OF chain_distinct [OF walk_edge.prems(1)] j(1)] j(2) by (intro exI [of _ p']) auto
qed

lemma reach_chain: "i \<in> N \<Longrightarrow> reach P h i \<longleftrightarrow> reach BP (blk h) (blk i)"
  using node_walk chain_walk [OF _ blk_less on_chain] unfolding reach_def by blast

lemma walk_chains: "walk BP (blk h) b bp \<Longrightarrow> b < nb \<Longrightarrow> set bp \<subseteq> {..<nb}"
  using walk_bound [of BP "blk h" b bp nb] blk_less [OF head(1)] block_pred_less by blast

lemma dominator_in:
  assumes "i \<in> N" and "reach P h i" and "dominates P h d i"
  shows "d \<in> N"
proof -
  obtain p where "walk P h i p" using assms by (auto simp: reach_def)
  moreover have "walk P h i p \<Longrightarrow> i \<in> N \<Longrightarrow> set p \<subseteq> N" for i p
    by (induction rule: walk.induct) (use pred_in in auto)
  ultimately show ?thesis using assms by (auto simp: dominates_def)
qed

text \<open>Dominance of nodes in terms of dominance of their chains.\<close>

lemma node_dominance:
  assumes i: "i \<in> N" "reach P h i"
  shows "dominates P h d i \<longleftrightarrow> d \<in> N \<and>
    (blk d = blk i \<and> d \<in> before i \<or> blk d \<noteq> blk i \<and> dominates BP (blk h) (blk d) (blk i))"
    (is "?l \<longleftrightarrow> ?r")
proof -
  note bi = blk_less [OF i(1)]
  have sub: "before i \<subseteq> set (chain (blk i))" by (rule up_to_subset [OF on_chain [OF i(1)]])
  obtain w where w: "walk BP (blk h) (blk i) w" using i reach_chain by (auto simp: reach_def)
  note bw = chain_walk [OF _ bi on_chain [OF i(1)]]
  have other: "d \<in> set (chain k) \<longleftrightarrow> blk d = k" if "d \<in> N" "k < nb" for k
    using chain_nodes [OF that(2)] on_chain [OF that(1)] by blast
  show ?thesis
  proof
    assume l: ?l
    have dn: "d \<in> N" by (rule dominator_in [OF i l])
    show ?r
    proof (cases "blk d = blk i")
      case True
      have "blk i \<in> set w" using walk_hd [OF w] by auto
      then obtain u v where uv: "w = u @ blk i # v" "blk i \<notin> set v" by (meson split_list_last)
      have sv: "walk BP (blk h) (blk i) (blk i # v)" using w uv(1) walk_suffix by metis
      from bw [OF this] obtain p where p: "walk P h i p" "set p = before i \<union> (\<Union>k\<in>set v. set (chain k))" by auto
      have "d \<notin> set (chain k)" if "k \<in> set v" for k
        using other [OF dn] walk_chains [OF sv bi] that True uv(2) by auto
      then have "d \<in> before i" using l p by (auto simp: dominates_def)
      with True dn show ?thesis by simp
    next
      case False
      have "blk d \<in> set bp" if bp: "walk BP (blk h) (blk i) bp" for bp
      proof -
        from bw [OF bp] obtain p where p: "walk P h i p" "set p = before i \<union> (\<Union>k\<in>set (tl bp). set (chain k))" by auto
        have "d \<notin> before i" using sub other [OF dn bi] False by auto
        then obtain k where k: "k \<in> set (tl bp)" "d \<in> set (chain k)" using l p by (auto simp: dominates_def)
        then have "k \<in> set bp" by (cases bp) auto
        then show ?thesis using other [OF dn] walk_chains [OF bp bi] k(2) by auto
      qed
      with False dn show ?thesis by (simp add: dominates_def)
    qed
  next
    assume r: ?r
    show ?l
      unfolding dominates_def
    proof (intro allI impI)
      fix p assume "walk P h i p"
      from node_walk [OF this i(1)] obtain bp where bp: "walk BP (blk h) (blk i) bp"
        "set p = before i \<union> (\<Union>k\<in>set (tl bp). set (chain k))" by blast
      show "d \<in> set p"
      proof (cases "blk d = blk i")
        case False
        obtain q where q: "bp = blk i # q" using walk_hd [OF bp(1)] by blast
        have "blk d \<in> set q" using r False bp(1) q by (auto simp: dominates_def)
        then show ?thesis using r bp(2) q on_chain by auto
      qed (use r bp(2) in blast)
    qed
  qed
qed

section \<open>The tree of the nodes\<close>

text \<open>
  The nodes of a chain one below the other, and the first one below the last node of the parent of the chain.
\<close>

definition unfolded :: "(nat \<times> nat) set \<Rightarrow> (nat \<times> nat) set \<Rightarrow> bool" where
  "unfolded L E \<longleftrightarrow> (\<forall>i\<in>N. reach BP (blk h) (blk i) \<longrightarrow> (\<forall>x. (x, i) \<in> E \<longleftrightarrow>
     (\<exists>j. Suc j < length (chain (blk i)) \<and> i = chain (blk i) ! Suc j \<and> x = chain (blk i) ! j) \<or>
     i = hd (chain (blk i)) \<and> (\<exists>q. (q, blk i) \<in> L \<and> x = last (chain q))))"

lemma immediate_chain:
  assumes k: "b < nb" "reach BP (blk h) b" and q: "immediate BP (blk h) q b"
  shows "q < nb" "immediate P h (last (chain q)) (hd (chain b))"
proof -
  have dq: "dominates BP (blk h) q b" "q \<noteq> b" using q by (auto simp: immediate_def strict_dominators_def)
  obtain bp where bp: "walk BP (blk h) b bp" using k(2) by (auto simp: reach_def)
  then have "q \<in> set bp" using dq(1) by (simp add: dominates_def)
  then show qn: "q < nb" using walk_chains [OF bp k(1)] by blast
  define i where "i = hd (chain b)"
  define l where "l = last (chain q)"
  have i: "i \<in> N" "blk i = b" "reach P h i" "before i = {i}"
    using chain_nodes [OF k(1)] chain_ne [OF k(1)] reach_chain k(2) up_to_hd by (auto simp: i_def)
  have l: "l \<in> N" "blk l = q" "before l = set (chain q)"
    using chain_nodes [OF qn] chain_ne [OF qn] chain_distinct [OF qn] up_to_last by (auto simp: l_def)
  have rl: "reach P h l" using reach_chain [OF l(1)] dominates_reach [OF k(2) dq(1)] l(2) by simp
  have "dominates P h d l" if d: "dominates P h d i" "d \<noteq> i" for d
  proof -
    from d(1) node_dominance [OF i(1,3)] i(2,4) d(2) have db: "d \<in> N" "blk d \<noteq> b" "dominates BP (blk h) (blk d) b" by auto
    then have "dominates BP (blk h) (blk d) q" using q by (auto simp: immediate_def strict_dominators_def)
    moreover have "d \<in> set (chain q)" if "blk d = q" using on_chain [OF db(1)] that by simp
    ultimately show ?thesis using node_dominance [OF l(1) rl] db(1) l(2,3) by auto
  qed
  moreover have "dominates P h l i" using node_dominance [OF i(1,3)] l i(2) dq by simp
  moreover have "l \<noteq> i" using l(2) i(2) dq(2) by auto
  ultimately show "immediate P h (last (chain q)) (hd (chain b))"
    by (auto simp: immediate_def strict_dominators_def i_def l_def)
qed

lemma unfolded_tree:
  assumes L: "\<And>p k. (p, k) \<in> L \<Longrightarrow> reach BP (blk h) k \<Longrightarrow> immediate BP (blk h) p k"
    and above: "\<And>k. k < nb \<Longrightarrow> reach BP (blk h) k \<Longrightarrow> k \<noteq> blk h \<Longrightarrow> \<exists>p. (p, k) \<in> L"
    and E: "unfolded L E" and i: "i \<in> N" "reach P h i"
  shows "(d, i) \<in> E\<^sup>* \<longleftrightarrow> dominates P h d i"
proof (rule parent_paths [OF _ _ dominator_in i])
  fix i assume i: "i \<in> N" "reach P h i"
  then have r: "reach BP (blk h) (blk i)" using reach_chain by blast
  note edge = E [unfolded unfolded_def, rule_format, OF i(1) r]
  note bi = blk_less [OF i(1)]
  show "immediate P h p i" if "(p, i) \<in> E" for p
  proof -
    from that edge consider j where "Suc j < length (chain (blk i))" "i = chain (blk i) ! Suc j" "p = chain (blk i) ! j"
      | q where "i = hd (chain (blk i))" "(q, blk i) \<in> L" "p = last (chain q)" by blast
    then show ?thesis
    proof cases
      case 1
      have P: "P i = [p]" using inner [OF bi 1(1)] 1(2,3) by simp
      have ne: "p \<noteq> i" using nth_eq_iff_index_eq [OF chain_distinct [OF bi], of j "Suc j"] 1 by simp
      have "i \<noteq> h"
      proof
        assume "i = h"
        then have "chain (blk i) ! 0 = chain (blk i) ! Suc j" using head(2) 1(2) chain_ne [OF bi] by (simp add: hd_conv_nth)
        then show False using 1(1) chain_distinct [OF bi] chain_ne [OF bi] by (simp add: nth_eq_iff_index_eq)
      qed
      then have "dominates P h p i" using dominates_step [of i h P p] P dominates_refl by simp
      moreover have "dominates P h d p" if "dominates P h d i" "d \<noteq> i" for d
        using dominates_pred [OF that, of p] P by simp
      ultimately show ?thesis using ne by (auto simp: immediate_def strict_dominators_def)
    next
      case 2
      from immediate_chain(2) [OF bi r L [OF 2(2) r]] 2(1,3) show ?thesis by simp
    qed
  qed
  show "\<exists>p. (p, i) \<in> E" if nh: "i \<noteq> h"
    using i(1)
  proof (cases rule: node_cases)
    case first
    have "blk i \<noteq> blk h" using nh head(2) first by metis
    from above [OF bi r this] show ?thesis using edge first by blast
  next
    case (later j)
    then show ?thesis using edge by blast
  qed
qed

end

end
