(* ===== verification/BasicBlocks.thy ===== *)
theory BasicBlocks
  imports FlowGraph "HOL-Library.Monad_Syntax"
begin

text \<open>
  The basic blocks of a method, after \<open>buildBasicBlock\<close> of
  \<open>optimizer-basicblockidentifier/src/optimizer_basicblockidentifier.c\<close> and the functions of
  \<open>libirmanager/src/ir_method.c\<close> that store and query them. A block is an element of the array
  \<open>method->basicBlocks\<close> and a pointer to it its position; the fields of a block are 32 bits wide. \<open>None\<close> is an access
  outside the map from instructions to blocks. The lemmas show that the blocks partition the method, that they are cut exactly
  where control can leave or enter, and what that means for the edges inside a block.
\<close>

section \<open>Blocks and the information of a method\<close>

record ir_basic_block =
  startInst :: nat
  endInst :: nat
  pos :: nat

record block_info =
  basicBlocks :: "ir_basic_block list"
  instructionsBasicBlocksMap :: "nat list"

definition ir_basicblock_delete_all :: "block_info \<Rightarrow> block_info" where
  "ir_basicblock_delete_all info = \<lparr>basicBlocks = [], instructionsBasicBlocksMap = []\<rparr>"

definition ir_basicblock_count :: "block_info \<Rightarrow> nat" where
  "ir_basicblock_count info = length (basicBlocks info)"

definition ir_basicblock_get :: "block_info \<Rightarrow> nat \<Rightarrow> ir_basic_block option" where
  "ir_basicblock_get info basicBlockNumber =
     (if basicBlockNumber \<ge> length (basicBlocks info) then None else Some (basicBlocks info ! basicBlockNumber))"

text \<open>The first block brings the map from instructions to blocks with it.\<close>

definition ir_basicblock_new :: "ir_method \<Rightarrow> block_info \<Rightarrow> nat \<times> block_info" where
  "ir_basicblock_new m info =
     (if basicBlocks info = []
      then (0, info\<lparr>basicBlocks := [\<lparr>startInst = 0, endInst = 0, pos = 0\<rparr>],
                    instructionsBasicBlocksMap := replicate (ir_instr_count m + 1) 0\<rparr>)
      else (length (basicBlocks info),
            info\<lparr>basicBlocks := basicBlocks info @ [\<lparr>startInst = 0, endInst = 0, pos = length (basicBlocks info)\<rparr>]\<rparr>))"

text \<open>Subtraction of 1 from a \<open>JITUINT32\<close>, and its value \<open>-1\<close>.\<close>

definition minus_1 :: "nat \<Rightarrow> nat" where
  "minus_1 i = (i + (2 ^ 32 - 1)) mod 2 ^ 32"

definition startBasicBlock :: "ir_method \<Rightarrow> nat \<Rightarrow> block_info \<Rightarrow> nat \<times> block_info" where
  "startBasicBlock m startID info =
     (let (b, info) = ir_basicblock_new m info
      in (b, info\<lparr>basicBlocks := (basicBlocks info)[b := (basicBlocks info ! b)\<lparr>startInst := startID, endInst := 2 ^ 32 - 1\<rparr>]\<rparr>))"

definition endBasicBlock :: "nat \<Rightarrow> nat \<Rightarrow> block_info \<Rightarrow> block_info option" where
  "endBasicBlock b endID info =
     (let block = (basicBlocks info ! b)\<lparr>endInst := endID\<rparr>
      in if startInst block \<le> endID \<and> length (instructionsBasicBlocksMap info) \<le> endID then None
         else Some (info\<lparr>basicBlocks := (basicBlocks info)[b := block],
           instructionsBasicBlocksMap :=
             fold (\<lambda>count map. map[count := pos block]) [startInst block..<endID + 1] (instructionsBasicBlocksMap info)\<rparr>))"

section \<open>The scan\<close>

definition closes_before :: "ir_method \<Rightarrow> nat \<Rightarrow> nat \<Rightarrow> bool" where
  "closes_before m start instID \<longleftrightarrow>
     type_at m instID = IRLABEL \<and> start \<noteq> instID \<or>
     type_at m instID \<in> {IRSTARTCATCHER, IRSTARTFILTER, IRSTARTFINALLY, IREXITNODE}"

definition closes_after :: "ir_method \<Rightarrow> nat \<Rightarrow> bool" where
  "closes_after m instID \<longleftrightarrow>
     ir_instr_is_a_jump_instruction (ir_instr_get_by_pos m instID) \<or> type_at m instID = IREXIT"

fun scan_blocks :: "ir_method \<Rightarrow> nat list \<Rightarrow> nat option \<times> block_info \<Rightarrow> (nat option \<times> block_info) option" where
  "scan_blocks m [] s = Some s"
| "scan_blocks m (instID # rest) (None, info) = None"
| "scan_blocks m (instID # rest) (Some b, info) =
     (let start = startInst (basicBlocks info ! b)
      in if closes_before m start instID then
           if minus_1 instID \<ge> start then do {
             info \<leftarrow> endBasicBlock b (minus_1 instID) info;
             let (b, info) = startBasicBlock m instID info;
             scan_blocks m rest (Some b, info)
           }
           else scan_blocks m rest (Some b, info)
         else if closes_after m instID then do {
           info \<leftarrow> endBasicBlock b instID info;
           let (b, info) = (if instID + 1 \<le> ir_instr_count m
             then (let (b, info) = startBasicBlock m (instID + 1) info in (Some b, info)) else (None, info));
           scan_blocks m rest (b, info)
         }
         else scan_blocks m rest (Some b, info))"

definition buildBasicBlock :: "ir_method \<Rightarrow> block_info \<Rightarrow> block_info option" where
  "buildBasicBlock m info =
     (let info = ir_basicblock_delete_all info; instructionsNumber = ir_instr_count m
      in if instructionsNumber = 0 then Some info
         else do {
           let (b, info) = startBasicBlock m 0 info;
           (b, info) \<leftarrow> scan_blocks m [0..<instructionsNumber + 1] (Some b, info);
           case b of None \<Rightarrow> Some info | Some b \<Rightarrow> endBasicBlock b instructionsNumber info
         })"

section \<open>Queries\<close>

definition ir_basicblock_get_basic_block_from_instruction_id :: "block_info \<Rightarrow> nat \<Rightarrow> ir_basic_block option" where
  "ir_basicblock_get_basic_block_from_instruction_id info instID =
     (if instID < length (instructionsBasicBlocksMap info)
      then ir_basicblock_get info (instructionsBasicBlocksMap info ! instID) else None)"

definition IRMETHOD_getNumberOfInstructionsOfTypeWithinBasicBlock :: "ir_method \<Rightarrow> ir_basic_block \<Rightarrow> nat \<Rightarrow> nat" where
  "IRMETHOD_getNumberOfInstructionsOfTypeWithinBasicBlock m bb ty =
     fold (\<lambda>count count2. if type_at m count = ty then count2 + 1 else count2) [startInst bb..<endInst bb + 1] 0"

definition IRMETHOD_getInstructionsOfBasicBlock :: "ir_basic_block \<Rightarrow> nat list" where
  "IRMETHOD_getInstructionsOfBasicBlock bb = fold (\<lambda>count l. l @ [count]) [startInst bb..<endInst bb + 1] []"

definition IRMETHOD_getPrevBasicBlock :: "block_info \<Rightarrow> ir_basic_block \<Rightarrow> ir_basic_block option" where
  "IRMETHOD_getPrevBasicBlock info bb = (if pos bb = 0 then None else ir_basicblock_get info (pos bb - 1))"

definition IRMETHOD_getNextBasicBlock :: "block_info \<Rightarrow> ir_basic_block \<Rightarrow> ir_basic_block option" where
  "IRMETHOD_getNextBasicBlock info bb = ir_basicblock_get info (pos bb + 1)"

definition IRMETHOD_getBasicBlockLength :: "ir_basic_block \<Rightarrow> nat" where
  "IRMETHOD_getBasicBlockLength bb = (endInst bb - startInst bb) + 1"

text \<open>Instructions are positions; the exit node has the position after the last instruction.\<close>

definition IRMETHOD_getPrevInstructionWithinBasicBlock :: "ir_basic_block \<Rightarrow> nat option \<Rightarrow> nat option" where
  "IRMETHOD_getPrevInstructionWithinBasicBlock bb inst =
     (case inst of None \<Rightarrow> Some (endInst bb) | Some i \<Rightarrow> if i > startInst bb then Some (i - 1) else None)"

definition IRMETHOD_getNextInstructionWithinBasicBlock :: "ir_basic_block \<Rightarrow> nat option \<Rightarrow> nat option" where
  "IRMETHOD_getNextInstructionWithinBasicBlock bb inst =
     (case inst of None \<Rightarrow> Some (startInst bb) | Some i \<Rightarrow> if i < endInst bb then Some (i + 1) else None)"

section \<open>Where blocks are cut\<close>

text \<open>
  A cut before the position \<open>i\<close>: control can enter at \<open>i\<close> or leave at \<open>i - 1\<close>, where an instruction that opens a block
  of a handler is not taken to leave.
\<close>

definition opens_block :: "nat \<Rightarrow> bool" where
  "opens_block ty \<longleftrightarrow> ty \<in> {IRSTARTCATCHER, IRSTARTFILTER, IRSTARTFINALLY, IREXITNODE}"

definition block_cut :: "ir_method \<Rightarrow> nat \<Rightarrow> bool" where
  "block_cut m i \<longleftrightarrow> 0 < i \<and>
     (type_at m i = IRLABEL \<or> opens_block (type_at m i) \<or>
      closes_after m (i - 1) \<and> \<not> opens_block (type_at m (i - 1)))"

definition block_range :: "ir_basic_block \<Rightarrow> nat list" where
  "block_range b = [startInst b..<endInst b + 1]"

text \<open>The blocks that are complete: they cover the positions below \<open>s\<close>, in order, cut where \<open>block_cut\<close> says.\<close>

definition covers :: "ir_method \<Rightarrow> ir_basic_block list \<Rightarrow> nat list \<Rightarrow> nat \<Rightarrow> bool" where
  "covers m bs mp s \<longleftrightarrow> concat (map block_range bs) = [0..<s] \<and> length mp = ir_instr_count m + 1 \<and>
     (\<forall>b<length bs. pos (bs ! b) = b \<and> startInst (bs ! b) \<le> endInst (bs ! b) \<and>
        (startInst (bs ! b) = 0 \<or> block_cut m (startInst (bs ! b))) \<and>
        (\<forall>i. startInst (bs ! b) < i \<longrightarrow> i \<le> endInst (bs ! b) \<longrightarrow> \<not> block_cut m i) \<and>
        (\<forall>i. startInst (bs ! b) \<le> i \<longrightarrow> i \<le> endInst (bs ! b) \<longrightarrow> mp ! i = b))"

lemma minus_1: "0 < i \<Longrightarrow> i < 2 ^ 32 \<Longrightarrow> minus_1 i = i - 1"
  unfolding minus_1_def by (cases i) (simp_all add: mod_if)

lemma fold_const_update:
  "b \<le> length xs \<Longrightarrow> a \<le> b \<Longrightarrow> fold (\<lambda>i xs. xs[i := v]) [a..<b] xs ! j = (if a \<le> j \<and> j < b then v else xs ! j) \<and>
    length (fold (\<lambda>i xs. xs[i := v]) [a..<b] xs) = length xs"
proof (induction b)
  case (Suc b)
  then show ?case
    by (cases "a = Suc b") (auto simp: nth_list_update less_Suc_eq not_less_eq_eq)
qed simp

definition in_scan :: "ir_method \<Rightarrow> nat \<Rightarrow> nat \<Rightarrow> block_info \<Rightarrow> bool" where
  "in_scan m k s info \<longleftrightarrow> (\<exists>bs. basicBlocks info = bs @ [\<lparr>startInst = s, endInst = 2 ^ 32 - 1, pos = length bs\<rparr>] \<and>
     covers m bs (instructionsBasicBlocksMap info) s) \<and> s \<le> k \<and> (s = 0 \<or> block_cut m s) \<and>
     (\<forall>i. s < i \<longrightarrow> i < k \<longrightarrow> \<not> block_cut m i) \<and>
     (s < k \<longrightarrow> closes_after m (k - 1) \<longrightarrow> opens_block (type_at m (k - 1)))"

abbreviation current_block :: "block_info \<Rightarrow> nat" where
  "current_block info \<equiv> length (basicBlocks info) - Suc 0"

lemma concat_ranges_nth:
  "concat (map block_range bs) = [0..<s] \<Longrightarrow> b < length bs \<Longrightarrow> startInst (bs ! b) \<le> i \<Longrightarrow> i \<le> endInst (bs ! b) \<Longrightarrow> i < s"
proof -
  assume c: "concat (map block_range bs) = [0..<s]" and b: "b < length bs" "startInst (bs ! b) \<le> i" "i \<le> endInst (bs ! b)"
  then have "i \<in> set (block_range (bs ! b))" by (auto simp: block_range_def)
  moreover have "bs ! b \<in> set bs" using b by simp
  ultimately have "i \<in> set (concat (map block_range bs))" by (auto simp del: set_upt)
  then show "i < s" unfolding c by simp
qed

lemma close_block:
  assumes i: "basicBlocks info = bs @ [\<lparr>startInst = s, endInst = x, pos = length bs\<rparr>]"
    and c: "covers m bs (instructionsBasicBlocksMap info) s" "s = 0 \<or> block_cut m s"
    and e: "s \<le> e" "e \<le> ir_instr_count m" "\<And>i. s < i \<Longrightarrow> i \<le> e \<Longrightarrow> \<not> block_cut m i"
  shows "\<exists>info' bs'. endBasicBlock (current_block info) e info = Some info' \<and> basicBlocks info' = bs' \<and> bs' \<noteq> [] \<and>
    covers m bs' (instructionsBasicBlocksMap info') (e + 1)"
proof -
  define mp where "mp = instructionsBasicBlocksMap info"
  define mp' where "mp' = fold (\<lambda>count map. map[count := length bs]) [s..<e + 1] mp"
  define bs' where "bs' = bs @ [\<lparr>startInst = s, endInst = e, pos = length bs\<rparr>]"
  have l: "length mp = ir_instr_count m + 1" using c(1) by (simp add: covers_def mp_def)
  have mp': "mp' ! j = (if s \<le> j \<and> j < e + 1 then length bs else mp ! j)" "length mp' = ir_instr_count m + 1" for j
    using fold_const_update [of "e + 1" mp s "length bs" j] e l unfolding mp'_def by auto
  have "endBasicBlock (current_block info) e info =
      Some (info\<lparr>basicBlocks := bs', instructionsBasicBlocksMap := mp'\<rparr>)"
    using e l by (simp add: endBasicBlock_def i Let_def mp_def mp'_def bs'_def del: upt_Suc)
  moreover have "covers m bs' mp' (e + 1)"
  proof -
    have cc: "concat (map block_range bs) = [0..<s]" using c(1) by (simp add: covers_def)
    have "concat (map block_range bs') = [0..<s] @ [s..<e + 1]" using cc by (simp add: bs'_def block_range_def del: upt_Suc)
    then have "concat (map block_range bs') = [0..<e + 1]" using e(1) upt_add_eq_append [of 0 s "e + 1 - s"] by simp
    moreover have "mp' ! i = b" if b: "b < length bs" "startInst (bs ! b) \<le> i" "i \<le> endInst (bs ! b)" for b i
      using concat_ranges_nth [OF cc b] mp'(1) [of i] c(1) b by (simp add: covers_def mp_def)
    moreover have "mp' ! i = length bs" if "s \<le> i" "i \<le> e" for i using mp'(1) [of i] that by simp
    moreover have "b < length bs' \<longleftrightarrow> b < length bs \<or> b = length bs" for b by (auto simp: bs'_def)
    ultimately show ?thesis
      using c e mp'(2) unfolding covers_def
      by (simp add: bs'_def nth_append)
  qed
  ultimately show ?thesis by (intro exI [of _ "info\<lparr>basicBlocks := bs', instructionsBasicBlocksMap := mp'\<rparr>"] exI [of _ bs'])
      (simp add: bs'_def)
qed

lemma start_block:
  assumes "basicBlocks info = bs" and "bs \<noteq> []"
  shows "\<exists>info'. startBasicBlock m s info = (length bs, info') \<and>
    basicBlocks info' = bs @ [\<lparr>startInst = s, endInst = 2 ^ 32 - 1, pos = length bs\<rparr>] \<and>
    instructionsBasicBlocksMap info' = instructionsBasicBlocksMap info"
  using assms by (simp add: startBasicBlock_def ir_basicblock_new_def nth_append)

lemma close_and_start:
  assumes s: "in_scan m k s info" and e: "s \<le> e" "e \<le> ir_instr_count m" "\<And>i. s < i \<Longrightarrow> i \<le> e \<Longrightarrow> \<not> block_cut m i"
    and cut: "block_cut m (e + 1)"
  shows "\<exists>info' info''. endBasicBlock (current_block info) e info = Some info' \<and>
    startBasicBlock m (e + 1) info' = (current_block info'', info'') \<and>
    in_scan m (e + 1) (e + 1) info''"
proof -
  obtain bs where bs: "basicBlocks info = bs @ [\<lparr>startInst = s, endInst = 2 ^ 32 - 1, pos = length bs\<rparr>]"
      "covers m bs (instructionsBasicBlocksMap info) s" "s = 0 \<or> block_cut m s"
    using s by (auto simp: in_scan_def)
  from close_block [OF bs e] obtain info' bs' where
    c: "endBasicBlock (current_block info) e info = Some info'" "basicBlocks info' = bs'" "bs' \<noteq> []"
      "covers m bs' (instructionsBasicBlocksMap info') (e + 1)" by blast
  from start_block [OF c(2,3), of m "e + 1"] obtain info'' where
    "startBasicBlock m (e + 1) info' = (length bs', info'')"
    "basicBlocks info'' = bs' @ [\<lparr>startInst = e + 1, endInst = 2 ^ 32 - 1, pos = length bs'\<rparr>]"
    "instructionsBasicBlocksMap info'' = instructionsBasicBlocksMap info'" by blast
  with c cut show ?thesis by (auto simp: in_scan_def)
qed

lemma label_not_closes [simp]: "type_at m i = IRLABEL \<Longrightarrow> \<not> closes_after m i"
  by (simp add: closes_after_def ir_instr_is_a_jump_instruction_def IRMETHOD_isACallInstruction_def
      IRMETHOD_isAJumpInstructionType_def mayInstructionOfTypeThrowException_def)

lemma in_scan_start: "in_scan m k s info \<Longrightarrow> startInst (basicBlocks info ! current_block info) = s"
  by (auto simp: in_scan_def)

text \<open>One instruction of the scan, before the exit node.\<close>

lemma scan_step:
  assumes s: "in_scan m k s info" and k: "k < ir_instr_count m" "ir_instr_count m < 2 ^ 32"
    and first: "\<not> opens_block (type_at m 0)"
  shows "\<exists>info' s'. scan_blocks m (k # rest) (Some (current_block info), info) =
      scan_blocks m rest (Some (current_block info'), info') \<and> in_scan m (k + 1) s' info'"
proof -
  have sk: "s \<le> k" "s = 0 \<or> block_cut m s" "\<forall>i. s < i \<longrightarrow> i < k \<longrightarrow> \<not> block_cut m i"
      "s < k \<Longrightarrow> closes_after m (k - 1) \<Longrightarrow> opens_block (type_at m (k - 1))"
    using s by (auto simp: in_scan_def)
  have nx: "type_at m k \<noteq> IREXITNODE \<or> closes_after m k" by (auto simp: closes_after_def ir_instr_is_a_jump_instruction_def)
  note st = in_scan_start [OF s]
  show ?thesis
  proof (cases "closes_before m s k")
    case True
    then have cut: "0 < k \<Longrightarrow> block_cut m k" by (auto simp: closes_before_def block_cut_def opens_block_def)
    show ?thesis
    proof (cases "s < k")
      case inside: True
      then have e: "s \<le> k - 1" "k - 1 \<le> ir_instr_count m" "\<And>i. s < i \<Longrightarrow> i \<le> k - 1 \<Longrightarrow> \<not> block_cut m i"
          and c: "block_cut m (k - 1 + 1)" and m1: "minus_1 k = k - 1"
        using sk(3) k cut minus_1 [of k] by auto
      from close_and_start [OF s e c] obtain info' info'' where
        i: "endBasicBlock (current_block info) (k - 1) info = Some info'"
          "startBasicBlock m k info' = (current_block info'', info'')" "in_scan m k k info''"
        using inside by auto
      have "scan_blocks m (k # rest) (Some (current_block info), info) =
          scan_blocks m rest (Some (current_block info''), info'')"
        using True e(1) i(1,2) m1 by (simp add: st)
      moreover have "in_scan m (k + 1) k info''"
        using i(3) True inside by (auto simp: in_scan_def closes_before_def opens_block_def)
      ultimately show ?thesis by blast
    next
      case False
      then have "s = k" using sk(1) by simp
      then have t: "opens_block (type_at m k)" using True by (auto simp: closes_before_def opens_block_def)
      then have "k \<noteq> 0" using first by (intro notI) simp
      then have "minus_1 k < s" using minus_1 [of k] k \<open>s = k\<close> by simp
      then have "scan_blocks m (k # rest) (Some (current_block info), info) =
          scan_blocks m rest (Some (current_block info), info)"
        using True by (simp add: st)
      moreover have "in_scan m (k + 1) s info" using s t \<open>s = k\<close> by (auto simp: in_scan_def)
      ultimately show ?thesis by blast
    qed
  next
    case False
    have nc: "\<not> block_cut m i" if "s < i" "i \<le> k" for i
    proof (cases "i < k")
      case True
      with that sk(3) show ?thesis by blast
    next
      case i: False
      then have "i = k" "s < k" using that by auto
      then show ?thesis using False sk(4) by (auto simp: closes_before_def block_cut_def opens_block_def)
    qed
    have no: "\<not> opens_block (type_at m k)" using False by (auto simp: closes_before_def opens_block_def)
    show ?thesis
    proof (cases "closes_after m k")
      case True
      then have cut: "block_cut m (k + 1)" using no by (simp add: block_cut_def)
      from close_and_start [OF s sk(1) _ nc cut] k(1) obtain info' info'' where
        i: "endBasicBlock (current_block info) k info = Some info'"
          "startBasicBlock m (k + 1) info' = (current_block info'', info'')" "in_scan m (k + 1) (k + 1) info''"
        by auto
      then have "scan_blocks m (k # rest) (Some (current_block info), info) =
          scan_blocks m rest (Some (current_block info''), info'')"
        using False True k(1) by (simp add: st)
      with i(3) show ?thesis by blast
    next
      case stay: False
      then have "scan_blocks m (k # rest) (Some (current_block info), info) =
          scan_blocks m rest (Some (current_block info), info)"
        using False by (simp add: st)
      moreover have "in_scan m (k + 1) s info"
        using s stay nc by (auto simp: in_scan_def less_Suc_eq)
      ultimately show ?thesis by blast
    qed
  qed
qed

lemma scan_all:
  assumes n: "ir_instr_count m < 2 ^ 32" and first: "\<not> opens_block (type_at m 0)"
  shows "in_scan m k s info \<Longrightarrow> k \<le> ir_instr_count m \<Longrightarrow>
    \<exists>info' s'. scan_blocks m ([k..<ir_instr_count m] @ rest) (Some (current_block info), info) =
      scan_blocks m rest (Some (current_block info'), info') \<and> in_scan m (ir_instr_count m) s' info'"
proof (induction "ir_instr_count m - k" arbitrary: k s info)
  case 0
  then have "k = ir_instr_count m" by simp
  with 0 show ?case by auto
next
  case (Suc d)
  then have k: "k < ir_instr_count m" by simp
  from scan_step [OF Suc.prems(1) k n first] obtain info' s' where
    i: "scan_blocks m (k # ([k + 1..<ir_instr_count m] @ rest)) (Some (current_block info), info) =
      scan_blocks m ([k + 1..<ir_instr_count m] @ rest) (Some (current_block info'), info')" "in_scan m (k + 1) s' info'"
    by blast
  have "d = ir_instr_count m - (k + 1)" using Suc.hyps(2) by simp
  from Suc.hyps(1) [OF this i(2)] i(1) k show ?case by (simp add: upt_conv_Cons)
qed

lemma buildBasicBlock_covers:
  assumes n: "0 < ir_instr_count m" "ir_instr_count m < 2 ^ 32" and first: "\<not> opens_block (type_at m 0)"
  shows "\<exists>info'. buildBasicBlock m info = Some info' \<and>
    covers m (basicBlocks info') (instructionsBasicBlocksMap info') (ir_instr_count m + 1)"
proof -
  define n' where "n' = ir_instr_count m"
  define info0 where "info0 = \<lparr>basicBlocks = [\<lparr>startInst = 0, endInst = 2 ^ 32 - 1, pos = 0\<rparr>],
    instructionsBasicBlocksMap = replicate (n' + 1) 0\<rparr>"
  have st: "startBasicBlock m 0 (ir_basicblock_delete_all info) = (0, info0)"
    by (simp add: startBasicBlock_def ir_basicblock_new_def ir_basicblock_delete_all_def info0_def n'_def)
  have "in_scan m 0 0 info0" by (simp add: in_scan_def info0_def covers_def n'_def del: replicate_Suc replicate.simps)
  from scan_all [OF n(2) first this, of "[n']"] obtain info1 s where
    i: "scan_blocks m ([0..<n'] @ [n']) (Some 0, info0) = scan_blocks m [n'] (Some (current_block info1), info1)"
      "in_scan m n' s info1" by (auto simp: n'_def info0_def)
  have sn: "s \<le> n'" "\<forall>i. s < i \<longrightarrow> i < n' \<longrightarrow> \<not> block_cut m i" using i(2) by (auto simp: in_scan_def)
  have e: "closes_before m s n'" and cut: "block_cut m n'"
    using n(1) by (auto simp: closes_before_def block_cut_def opens_block_def n'_def)
  have m1: "minus_1 n' = n' - 1" using minus_1 [of n'] n by (simp add: n'_def)
  have "\<exists>info2. scan_blocks m [n'] (Some (current_block info1), info1) = Some (Some (current_block info2), info2) \<and>
      in_scan m n' n' info2"
  proof (cases "s < n'")
    case True
    then have "s \<le> n' - 1" "n' - 1 \<le> ir_instr_count m" "\<And>i. s < i \<Longrightarrow> i \<le> n' - 1 \<Longrightarrow> \<not> block_cut m i" "block_cut m (n' - 1 + 1)"
      using sn cut n'_def by auto
    from close_and_start [OF i(2) this] obtain info' info2 where
      c: "endBasicBlock (current_block info1) (n' - 1) info1 = Some info'"
        "startBasicBlock m n' info' = (current_block info2, info2)" "in_scan m n' n' info2"
      using True by auto
    then show ?thesis using e m1 \<open>s \<le> n' - 1\<close> in_scan_start [OF i(2)] by simp
  next
    case False
    then have "s = n'" using sn by simp
    moreover from this have "\<not> s \<le> n' - 1" using n n'_def by simp
    ultimately show ?thesis using e m1 i(2) in_scan_start [OF i(2)] by auto
  qed
  then obtain info2 where i2: "scan_blocks m ([0..<n'] @ [n']) (Some 0, info0) = Some (Some (current_block info2), info2)"
      "in_scan m n' n' info2" using i(1) by auto
  obtain bs where bs: "basicBlocks info2 = bs @ [\<lparr>startInst = n', endInst = 2 ^ 32 - 1, pos = length bs\<rparr>]"
      "covers m bs (instructionsBasicBlocksMap info2) n'" "n' = 0 \<or> block_cut m n'"
    using i2(2) by (auto simp: in_scan_def)
  from close_block [OF bs, of n'] obtain info3 where
    c: "endBasicBlock (current_block info2) n' info2 = Some info3"
      "covers m (basicBlocks info3) (instructionsBasicBlocksMap info3) (n' + 1)" by (auto simp: n'_def)
  have "buildBasicBlock m info = Some info3"
    using n(1) i2(1) c(1) unfolding buildBasicBlock_def Let_def st by (simp add: n'_def)
  with c(2) show ?thesis by (auto simp: n'_def)
qed

section \<open>The blocks of the instructions\<close>

lemma covers_block_of:
  assumes c: "covers m bs mp (ir_instr_count m + 1)" and i: "i \<le> ir_instr_count m"
  shows "mp ! i < length bs" "startInst (bs ! (mp ! i)) \<le> i" "i \<le> endInst (bs ! (mp ! i))" "pos (bs ! (mp ! i)) = mp ! i"
proof -
  have "i \<in> set (concat (map block_range bs))" using c i by (simp add: covers_def del: upt_Suc set_concat)
  then obtain b where "b < length bs" "startInst (bs ! b) \<le> i" "i \<le> endInst (bs ! b)"
    by (auto simp: in_set_conv_nth block_range_def)
  moreover from this have "mp ! i = b" using c by (simp add: covers_def)
  ultimately show "mp ! i < length bs" "startInst (bs ! (mp ! i)) \<le> i" "i \<le> endInst (bs ! (mp ! i))"
      "pos (bs ! (mp ! i)) = mp ! i"
    using c by (auto simp: covers_def)
qed

lemma covers_range:
  assumes c: "covers m bs mp (ir_instr_count m + 1)" and b: "b < length bs"
  shows "startInst (bs ! b) \<le> endInst (bs ! b)" "endInst (bs ! b) \<le> ir_instr_count m"
    "\<And>i. startInst (bs ! b) \<le> i \<Longrightarrow> i \<le> endInst (bs ! b) \<Longrightarrow> mp ! i = b" "pos (bs ! b) = b"
    "startInst (bs ! b) = 0 \<or> block_cut m (startInst (bs ! b))"
    "\<And>i. startInst (bs ! b) < i \<Longrightarrow> i \<le> endInst (bs ! b) \<Longrightarrow> \<not> block_cut m i"
proof -
  have cc: "concat (map block_range bs) = [0..<ir_instr_count m + 1]" using c by (simp add: covers_def)
  show s: "startInst (bs ! b) \<le> endInst (bs ! b)" using c b by (simp add: covers_def)
  show "endInst (bs ! b) \<le> ir_instr_count m" using concat_ranges_nth [OF cc b s] by simp
qed (use c b in \<open>simp_all add: covers_def\<close>)

lemma same_block_iff:
  assumes c: "covers m bs mp (ir_instr_count m + 1)" and i: "i < ir_instr_count m"
  shows "mp ! i = mp ! (i + 1) \<longleftrightarrow> \<not> block_cut m (i + 1)"
proof -
  define b where "b = mp ! (i + 1)"
  note b = covers_block_of [OF c, of "i + 1", folded b_def]
  have b': "b < length bs" "startInst (bs ! b) \<le> i + 1" "i + 1 \<le> endInst (bs ! b)" using b i by simp_all
  show ?thesis
  proof (cases "startInst (bs ! b) \<le> i")
    case True
    with b' have "mp ! i = b" "\<not> block_cut m (i + 1)" using covers_range(3,6) [OF c b'(1)] by simp_all
    then show ?thesis by (simp add: b_def)
  next
    case False
    then have s: "startInst (bs ! b) = i + 1" using b'(2) by simp
    then have "block_cut m (i + 1)" using covers_range(5) [OF c b'(1)] by simp
    moreover have "mp ! i \<noteq> b" using covers_block_of(2) [OF c, of i] i s by auto
    ultimately show ?thesis by (simp add: b_def)
  qed
qed

lemma fold_snoc: "fold (\<lambda>x l. l @ [x]) xs acc = acc @ xs"
  by (induction xs arbitrary: acc) simp_all

section \<open>Properties\<close>

text \<open>
  C12: On every method with instructions whose first one does not open a block of a handler, the scan ends without an access outside
  the map. The lists of the instructions of the blocks, one after the other, are the instructions of the method and its
  exit node, in order; the map leads from every instruction to the block that contains it; and two consecutive
  instructions are in different blocks exactly when there is a cut between them.
\<close>

theorem blocks_partition:
  assumes "0 < ir_instr_count m" and "ir_instr_count m < 2 ^ 32" and "\<not> opens_block (type_at m 0)"
  shows "\<exists>info'. buildBasicBlock m info = Some info' \<and>
    concat (map IRMETHOD_getInstructionsOfBasicBlock (basicBlocks info')) = [0..<ir_instr_count m + 1] \<and>
    (\<forall>i\<le>ir_instr_count m. \<exists>bb. ir_basicblock_get_basic_block_from_instruction_id info' i = Some bb \<and>
       bb = basicBlocks info' ! pos bb \<and> i \<in> set (IRMETHOD_getInstructionsOfBasicBlock bb)) \<and>
    (\<forall>i<ir_instr_count m. ir_basicblock_get_basic_block_from_instruction_id info' i =
       ir_basicblock_get_basic_block_from_instruction_id info' (i + 1) \<longleftrightarrow> \<not> block_cut m (i + 1))"
proof -
  obtain info' where b: "buildBasicBlock m info = Some info'"
    and c: "covers m (basicBlocks info') (instructionsBasicBlocksMap info') (ir_instr_count m + 1)"
    using buildBasicBlock_covers [OF assms] by blast
  have l: "length (instructionsBasicBlocksMap info') = ir_instr_count m + 1" using c by (simp add: covers_def)
  have g: "ir_basicblock_get_basic_block_from_instruction_id info' i =
      Some (basicBlocks info' ! (instructionsBasicBlocksMap info' ! i))" if "i \<le> ir_instr_count m" for i
    using covers_block_of(1) [OF c that] l that
    by (simp add: ir_basicblock_get_basic_block_from_instruction_id_def ir_basicblock_get_def)
  have e: "IRMETHOD_getInstructionsOfBasicBlock bb = block_range bb" for bb
    by (simp add: IRMETHOD_getInstructionsOfBasicBlock_def fold_snoc block_range_def del: upt_Suc)
  have "concat (map IRMETHOD_getInstructionsOfBasicBlock (basicBlocks info')) = [0..<ir_instr_count m + 1]"
    using c by (simp add: covers_def e [abs_def] del: upt_Suc)
  moreover have "basicBlocks info' ! (instructionsBasicBlocksMap info' ! i) =
      basicBlocks info' ! (instructionsBasicBlocksMap info' ! (i + 1)) \<longleftrightarrow> \<not> block_cut m (i + 1)" if i: "i < ir_instr_count m" for i
  proof -
    have "pos (basicBlocks info' ! (instructionsBasicBlocksMap info' ! j)) = instructionsBasicBlocksMap info' ! j"
      if "j \<le> ir_instr_count m" for j using covers_block_of(4) [OF c that] .
    from this [of i] this [of "i + 1"] same_block_iff [OF c i] i show ?thesis by auto
  qed
  ultimately show ?thesis
    using b covers_block_of [OF c]
    by (intro exI [of _ info']) (auto simp: g e block_range_def less_Suc_eq_le simp del: upt_Suc)
qed

theorem blocks_partition_witness:
  "\<exists>info'. buildBasicBlock demo \<lparr>basicBlocks = [], instructionsBasicBlocksMap = []\<rparr> = Some info' \<and>
    concat (map IRMETHOD_getInstructionsOfBasicBlock (basicBlocks info')) = [0..<9] \<and>
    ir_basicblock_get_basic_block_from_instruction_id info' 0 = ir_basicblock_get_basic_block_from_instruction_id info' 1 \<and>
    ir_basicblock_get_basic_block_from_instruction_id info' 1 \<noteq> ir_basicblock_get_basic_block_from_instruction_id info' 2"
proof -
  define info :: block_info where "info = \<lparr>basicBlocks = [], instructionsBasicBlocksMap = []\<rparr>"
  have n: "ir_instr_count demo = 8" and f: "\<not> opens_block (type_at demo 0)"
    and c: "\<not> block_cut demo 1" "block_cut demo 2"
    by (simp_all add: demo_simps opens_block_def block_cut_def closes_after_def ir_instr_is_a_jump_instruction_def
        IRMETHOD_isACallInstruction_def IRMETHOD_isAJumpInstructionType_def mayInstructionOfTypeThrowException_def)
  have b: "(8 :: nat) < 2 ^ 32" by simp
  obtain info' where "buildBasicBlock demo info = Some info'"
    "concat (map IRMETHOD_getInstructionsOfBasicBlock (basicBlocks info')) = [0..<8 + 1]"
    "\<forall>i<8. ir_basicblock_get_basic_block_from_instruction_id info' i =
       ir_basicblock_get_basic_block_from_instruction_id info' (i + 1) \<longleftrightarrow> \<not> block_cut demo (i + 1)"
    using blocks_partition [of demo info] n f b by auto
  moreover from this(3) [rule_format, of 0] this(3) [rule_format, of 1] c
  have "ir_basicblock_get_basic_block_from_instruction_id info' 0 = ir_basicblock_get_basic_block_from_instruction_id info' 1"
      "ir_basicblock_get_basic_block_from_instruction_id info' 1 \<noteq> ir_basicblock_get_basic_block_from_instruction_id info' 2"
    by (simp_all add: numeral_2_eq_2)
  ultimately show ?thesis unfolding info_def by auto
qed

text \<open>Inside a block control goes straight through.\<close>

lemma straight_line:
  assumes m: "simple_method m" and i: "i < ir_instr_count m" and nc: "\<not> block_cut m (i + 1)"
  shows "successors m i = [i + 1]" "predecessors m (i + 1) = [i]"
proof -
  have h: "type_at m i \<notin> handler_types" using simpleD(2) [OF m i] .
  then have "\<not> opens_block (type_at m i)" by (simp add: handler_types_def opens_block_def)
  then have na: "\<not> closes_after m i" using nc by (auto simp: block_cut_def)
  then show s: "successors m i = [i + 1]" using i by (intro not_a_jump_successors) (auto simp: closes_after_def)
  have lt: "i + 1 < ir_instr_count m"
  proof (rule ccontr)
    assume "\<not> i + 1 < ir_instr_count m"
    then have "i + 1 = ir_instr_count m" using i by simp
    then show False using nc by (simp add: block_cut_def opens_block_def)
  qed
  have nl: "type_at m (i + 1) \<noteq> IRLABEL" using nc by (auto simp: block_cut_def)
  have "i \<in> set (predecessors m (i + 1))" using simple_edges [OF m, of "i + 1" i] s lt by simp
  then show "predecessors m (i + 1) = [i]" using lt nl by (auto simp: predecessors_def split: if_splits)
qed

text \<open>
  C17: In a block of a method without handlers, every instruction but the last has the next one as its only successor, and every
  instruction but the first has the previous one as its only predecessor.
\<close>

theorem blocks_are_straight_line:
  assumes "simple_method m" and "ir_instr_count m < 2 ^ 32" and "buildBasicBlock m info = Some info'"
    and "bb \<in> set (basicBlocks info')" and "startInst bb \<le> i" and "i < endInst bb"
  shows "\<exists>preds succs. IRMETHOD_getInstructionsPredecessors m = Some preds \<and> IRMETHOD_getInstructionsSuccessors m = Some succs \<and>
    succs ! i = [i + 1] \<and> preds ! (i + 1) = [i]"
proof -
  have n: "0 < ir_instr_count m" using simpleD(1) [OF assms(1)] .
  have "\<not> opens_block (type_at m 0)" using simpleD(2) [OF assms(1) n] by (simp add: handler_types_def opens_block_def)
  then have c: "covers m (basicBlocks info') (instructionsBasicBlocksMap info') (ir_instr_count m + 1)"
    using buildBasicBlock_covers [OF n assms(2), of info] assms(3) by auto
  obtain b where b: "b < length (basicBlocks info')" "bb = basicBlocks info' ! b" using assms(4) by (auto simp: in_set_conv_nth)
  have i: "i < ir_instr_count m" and nc: "\<not> block_cut m (i + 1)"
    using covers_range(2) [OF c b(1)] covers_range(6) [OF c b(1), of "i + 1"] assms(5,6) b(2) by auto
  show ?thesis
    using straight_line [OF assms(1) i nc] i
    unfolding getInstructionsPredecessors_eq [OF assms(1)] getInstructionsSuccessors_eq
    by (simp add: nth_table del: upt_Suc)
qed

theorem blocks_are_straight_line_witness:
  "\<exists>preds succs. IRMETHOD_getInstructionsPredecessors demo = Some preds \<and> IRMETHOD_getInstructionsSuccessors demo = Some succs \<and>
    succs ! 0 = [1] \<and> preds ! 1 = [0]"
proof -
  have n: "ir_instr_count demo = 8" and f: "\<not> opens_block (type_at demo 0)"
    and nc: "\<not> block_cut demo 1"
    by (simp_all add: demo_simps opens_block_def block_cut_def closes_after_def ir_instr_is_a_jump_instruction_def
        IRMETHOD_isACallInstruction_def IRMETHOD_isAJumpInstructionType_def mayInstructionOfTypeThrowException_def)
  have b: "ir_instr_count demo < 2 ^ 32" unfolding n by simp
  define info :: block_info where "info = \<lparr>basicBlocks = [], instructionsBasicBlocksMap = []\<rparr>"
  obtain info' where i: "buildBasicBlock demo info = Some info'"
    and c: "covers demo (basicBlocks info') (instructionsBasicBlocksMap info') (ir_instr_count demo + 1)"
    using buildBasicBlock_covers [OF _ b f, of info] n by auto
  define k where "k = instructionsBasicBlocksMap info' ! 1"
  have k: "k < length (basicBlocks info')" "1 \<le> endInst (basicBlocks info' ! k)"
    using covers_block_of [OF c, of 1] n by (simp_all add: k_def)
  have "instructionsBasicBlocksMap info' ! 0 = k" using same_block_iff [OF c, of 0] n nc by (simp add: k_def)
  then have "startInst (basicBlocks info' ! k) \<le> 0" using covers_block_of(2) [OF c, of 0] by simp
  with k blocks_are_straight_line [OF demo_simple b i nth_mem [OF k(1)], of 0] show ?thesis by simp
qed

text \<open>A \<open>finally\<close> block at the start of a method.\<close>

definition finally_first :: ir_method where
  "finally_first = mk_method 0 0
    [mk_inst IRSTARTFINALLY nopar_item (label_item 1) nopar_item, mk_inst IRRET nopar_item nopar_item nopar_item]"

text \<open>
  C38: When the first instruction opens a block of a handler, \<open>instID - 1\<close> wraps around to the greatest \<open>JITUINT32\<close>, the test against the
  start of the current block succeeds, and \<open>endBasicBlock\<close> writes outside the map.
\<close>

theorem first_handler_wraps:
  "minus_1 0 = 2 ^ 32 - 1 \<and> buildBasicBlock finally_first info = None"
proof -
  have n: "ir_instr_count finally_first = 2" and t: "type_at finally_first 0 = IRSTARTFINALLY"
    by (simp_all add: finally_first_def demo_simps)
  have m: "minus_1 0 = 2 ^ 32 - 1" by (simp add: minus_1_def)
  have "[0..<2 + 1] = 0 # [1..<3 :: nat]" by (simp add: upt_conv_Cons)
  then show ?thesis
    using m by (simp add: buildBasicBlock_def n t Let_def startBasicBlock_def ir_basicblock_new_def ir_basicblock_delete_all_def
        closes_before_def endBasicBlock_def del: upt_Suc)
qed

end
