(* ===== verification/BlockGraph.thy ===== *)
theory BlockGraph
  imports BasicBlocks Chains
begin

text \<open>
  The graph of the basic blocks that \<open>optimizer-predominators/src/pre_dominators.c\<close> hands to the dominance library. A
  pointer to a block is the position of the block, and \<open>None\<close> the null pointer, which the plugin puts at the end of
  the array of blocks. The lemmas show that the two functions enumerate the edges of the graph, and that an instruction
  dominates another on the paths of instructions exactly when it precedes it in its block or its block dominates.
\<close>

section \<open>The graph of the blocks\<close>

definition IRMETHOD_getBasicBlockContainingInstruction :: "block_info \<Rightarrow> nat \<Rightarrow> nat option" where
  "IRMETHOD_getBasicBlockContainingInstruction info i =
     map_option pos (ir_basicblock_get_basic_block_from_instruction_id info i)"

definition pre_getPredecessor :: "ir_method \<Rightarrow> block_info \<Rightarrow> nat option neighbours" where
  "pre_getPredecessor m info elem cur =
     (case elem of
        None \<Rightarrow> None
      | Some bb \<Rightarrow>
          let bb_head = startInst (basicBlocks info ! bb);
              curr_bb_tail = (case cur of Some (Some c) \<Rightarrow> Some (endInst (basicBlocks info ! c)) | _ \<Rightarrow> None)
          in case ir_instr_get_predecessor m bb_head curr_bb_tail None of
               Some (Some pred, _) \<Rightarrow> map_option Some (IRMETHOD_getBasicBlockContainingInstruction info pred)
             | _ \<Rightarrow> None)"

definition pre_getSuccessor :: "ir_method \<Rightarrow> block_info \<Rightarrow> nat option neighbours" where
  "pre_getSuccessor m info elem cur =
     (case elem of
        None \<Rightarrow> (if cur = None then map_option Some (IRMETHOD_getBasicBlockContainingInstruction info 0) else None)
      | Some bb \<Rightarrow>
          let bb_tail = endInst (basicBlocks info ! bb);
              curr_bb_head = (case cur of Some (Some c) \<Rightarrow> Some (startInst (basicBlocks info ! c)) | _ \<Rightarrow> None)
          in case fst (ir_instr_get_successor m bb_tail curr_bb_head None) of
               None \<Rightarrow> None
             | Some succ \<Rightarrow> map_option Some (IRMETHOD_getBasicBlockContainingInstruction info succ))"

section \<open>Blocks of a method without handlers\<close>

text \<open>The method and its blocks, as the block identifier leaves them.\<close>

definition blocks_of :: "ir_method \<Rightarrow> block_info \<Rightarrow> bool" where
  "blocks_of m info \<longleftrightarrow> simple_method m \<and>
     covers m (basicBlocks info) (instructionsBasicBlocksMap info) (ir_instr_count m + 1)"

abbreviation blk :: "block_info \<Rightarrow> nat \<Rightarrow> nat" where
  "blk info i \<equiv> instructionsBasicBlocksMap info ! i"

abbreviation head_of :: "block_info \<Rightarrow> nat \<Rightarrow> nat" where
  "head_of info b \<equiv> startInst (basicBlocks info ! b)"

abbreviation tail_of :: "block_info \<Rightarrow> nat \<Rightarrow> nat" where
  "tail_of info b \<equiv> endInst (basicBlocks info ! b)"

lemma blocks_ofD:
  assumes "blocks_of m info"
  shows "simple_method m" "i \<le> ir_instr_count m \<Longrightarrow> blk info i < length (basicBlocks info)"
    "i \<le> ir_instr_count m \<Longrightarrow> head_of info (blk info i) \<le> i" "i \<le> ir_instr_count m \<Longrightarrow> i \<le> tail_of info (blk info i)"
    "b < length (basicBlocks info) \<Longrightarrow> head_of info b \<le> tail_of info b"
    "b < length (basicBlocks info) \<Longrightarrow> tail_of info b \<le> ir_instr_count m"
    "b < length (basicBlocks info) \<Longrightarrow> head_of info b \<le> i \<Longrightarrow> i \<le> tail_of info b \<Longrightarrow> blk info i = b"
    "b < length (basicBlocks info) \<Longrightarrow> pos (basicBlocks info ! b) = b"
    "b < length (basicBlocks info) \<Longrightarrow> head_of info b < i \<Longrightarrow> i \<le> tail_of info b \<Longrightarrow> \<not> block_cut m i"
    "i \<le> ir_instr_count m \<Longrightarrow> IRMETHOD_getBasicBlockContainingInstruction info i = Some (blk info i)"
proof -
  from assms have c: "covers m (basicBlocks info) (instructionsBasicBlocksMap info) (ir_instr_count m + 1)"
    and s: "simple_method m" by (simp_all add: blocks_of_def)
  have l: "length (instructionsBasicBlocksMap info) = ir_instr_count m + 1" using c by (simp add: covers_def)
  show "simple_method m" by (rule s)
  show "i \<le> ir_instr_count m \<Longrightarrow> blk info i < length (basicBlocks info)"
    "i \<le> ir_instr_count m \<Longrightarrow> head_of info (blk info i) \<le> i" "i \<le> ir_instr_count m \<Longrightarrow> i \<le> tail_of info (blk info i)"
    using covers_block_of [OF c] by blast+
  show "b < length (basicBlocks info) \<Longrightarrow> head_of info b \<le> tail_of info b"
    "b < length (basicBlocks info) \<Longrightarrow> tail_of info b \<le> ir_instr_count m"
    "b < length (basicBlocks info) \<Longrightarrow> head_of info b \<le> i \<Longrightarrow> i \<le> tail_of info b \<Longrightarrow> blk info i = b"
    "b < length (basicBlocks info) \<Longrightarrow> pos (basicBlocks info ! b) = b"
    "b < length (basicBlocks info) \<Longrightarrow> head_of info b < i \<Longrightarrow> i \<le> tail_of info b \<Longrightarrow> \<not> block_cut m i"
    using covers_range [OF c] by blast+
  show "i \<le> ir_instr_count m \<Longrightarrow> IRMETHOD_getBasicBlockContainingInstruction info i = Some (blk info i)"
    using covers_block_of [OF c, of i] l
    by (simp add: IRMETHOD_getBasicBlockContainingInstruction_def ir_basicblock_get_basic_block_from_instruction_id_def
        ir_basicblock_get_def)
qed

text \<open>A predecessor of the head of a block is the tail of its block; a successor of a tail is the head of its block.\<close>

lemma pred_of_head:
  assumes b: "blocks_of m info" and k: "k < length (basicBlocks info)" and p: "p \<in> set (predecessors m (head_of info k))"
    and pn: "p \<le> ir_instr_count m"
  shows "tail_of info (blk info p) = p"
proof (rule ccontr)
  note D = blocks_ofD [OF b]
  assume "tail_of info (blk info p) \<noteq> p"
  then have lt: "p < tail_of info (blk info p)" using D(4) [OF pn] by simp
  then have pn': "p < ir_instr_count m" using D(6) [OF D(2) [OF pn]] by simp
  have hk: "head_of info k \<le> ir_instr_count m" using D(5,6) [OF k] by simp
  have nc: "\<not> block_cut m (p + 1)" using D(9) [OF D(2) [OF pn], of "p + 1"] D(3) [OF pn] lt by simp
  have "head_of info k \<in> set (successors m p)" using simple_edges [OF D(1) hk pn] p by simp
  then have hp: "head_of info k = p + 1" using straight_line(1) [OF D(1) pn' nc] by simp
  have "blk info (head_of info k) = k" using D(7) [OF k, of "head_of info k"] D(5) [OF k] by simp
  moreover have "blk info (p + 1) = blk info p" using D(7) [OF D(2) [OF pn], of "p + 1"] D(3) [OF pn] lt by simp
  ultimately have "blk info p = k" using hp by simp
  then show False using D(3) [OF pn] hp by simp
qed

lemma succ_of_tail:
  assumes b: "blocks_of m info" and k: "k < length (basicBlocks info)" and s: "s \<in> set (successors m (tail_of info k))"
  shows "s \<le> ir_instr_count m" "head_of info (blk info s) = s"
proof -
  note D = blocks_ofD [OF b]
  show sn: "s \<le> ir_instr_count m" using successors_le s D(6) [OF k] by blast
  show "head_of info (blk info s) = s"
  proof (rule ccontr)
    assume "head_of info (blk info s) \<noteq> s"
    then have lt: "head_of info (blk info s) < s" using D(3) [OF sn] by simp
    then have s0: "s - 1 < ir_instr_count m" "s - 1 + 1 = s" using sn by simp_all
    have nc: "\<not> block_cut m (s - 1 + 1)" using D(9) [OF D(2) [OF sn] lt D(4) [OF sn]] s0 by simp
    have "tail_of info k \<in> set (predecessors m s)" using simple_edges [OF D(1) sn D(6) [OF k]] s by simp
    then have e: "tail_of info k = s - 1" using straight_line(2) [OF D(1) s0(1) nc] s0(2) by simp
    have "blk info (s - 1) = blk info s" using D(7) [OF D(2) [OF sn], of "s - 1"] lt D(4) [OF sn] by simp
    moreover have "blk info (tail_of info k) = k" using D(7) [OF k, of "tail_of info k"] D(5) [OF k] by simp
    ultimately have "blk info s = k" using e by simp
    then show False using D(4) [OF sn] e s0 by simp
  qed
qed

definition block_preds :: "ir_method \<Rightarrow> block_info \<Rightarrow> nat \<Rightarrow> nat list" where
  "block_preds m info b =
     (if b < length (basicBlocks info) then map (blk info) (predecessors m (head_of info b)) else [])"

definition block_succs :: "ir_method \<Rightarrow> block_info \<Rightarrow> nat \<Rightarrow> nat list" where
  "block_succs m info b =
     (if b < length (basicBlocks info) then map (blk info) (successors m (tail_of info b)) else [0])"

lemma enumerates_image:
  assumes "\<And>q. g q = Option.bind (f (k q)) h'"
  shows "enumerates f (k q) xs \<Longrightarrow> (\<And>x. x \<in> set xs \<Longrightarrow> h' x = Some (h x) \<and> k (Some (h x)) = Some x) \<Longrightarrow>
    enumerates g q (map h xs)"
proof (induction xs arbitrary: q)
  case Nil
  then show ?case by (simp add: assms)
next
  case (Cons x xs)
  have "enumerates g (Some (h x)) (map h xs)" using Cons.prems by (intro Cons.IH) auto
  then show ?case using Cons.prems assms [of q] by simp
qed

lemma predecessors_bound:
  assumes "simple_method m" and "i \<le> ir_instr_count m" and "p \<in> set (predecessors m i)"
  shows "p \<le> ir_instr_count m"
  using assms simpleD(1) [OF assms(1)]
  by (auto simp: predecessors_def exit_predecessors_def label_predecessors_def last_falls_def split: if_splits)

lemma head_bound: "blocks_of m info \<Longrightarrow> b < length (basicBlocks info) \<Longrightarrow> head_of info b \<le> ir_instr_count m"
  using blocks_ofD(5,6) le_trans by metis

lemma enumerates_block_preds:
  assumes b: "blocks_of m info" and k: "k < length (basicBlocks info)"
  shows "enumerates (pre_getPredecessor m info (Some k)) None (map Some (block_preds m info k))"
proof -
  note D = blocks_ofD [OF b]
  have hk: "head_of info k \<le> ir_instr_count m" by (rule head_bound [OF b k])
  define tl_of where "tl_of cur = (case cur of Some (Some c) \<Rightarrow> Some (tail_of info c) | _ \<Rightarrow> None)" for cur :: "nat option option"
  have "enumerates (pre_getPredecessor m info (Some k)) None (map (\<lambda>p. Some (blk info p)) (predecessors m (head_of info k)))"
  proof (rule enumerates_image [where f = "pred_step m (head_of info k)" and k = tl_of])
    show "pre_getPredecessor m info (Some k) q = Option.bind (pred_step m (head_of info k) (tl_of q))
        (\<lambda>p. map_option Some (IRMETHOD_getBasicBlockContainingInstruction info p))" for q
    proof -
      obtain c where c: "ir_instr_get_predecessor m (head_of info k) (tl_of q) None =
          Some (pred_step m (head_of info k) (tl_of q), c)"
        using get_predecessor_cached [OF D(1) cache_ok_None hk] by blast
      have "pre_getPredecessor m info (Some k) q = (case ir_instr_get_predecessor m (head_of info k) (tl_of q) None of
          Some (Some p, _) \<Rightarrow> map_option Some (IRMETHOD_getBasicBlockContainingInstruction info p) | _ \<Rightarrow> None)"
        by (simp add: pre_getPredecessor_def tl_of_def Let_def)
      then show ?thesis unfolding c by (cases "pred_step m (head_of info k) (tl_of q)") simp_all
    qed
    show "enumerates (pred_step m (head_of info k)) (tl_of None) (predecessors m (head_of info k))"
      using enumerates_predecessors [OF D(1) hk] by (simp add: tl_of_def)
    show "map_option Some (IRMETHOD_getBasicBlockContainingInstruction info p) = Some (Some (blk info p)) \<and>
        tl_of (Some (Some (blk info p))) = Some p" if p: "p \<in> set (predecessors m (head_of info k))" for p
      using predecessors_bound [OF D(1) hk p] pred_of_head [OF b k p] D(10) [of p] by (simp add: tl_of_def)
  qed
  then show ?thesis using k by (simp add: block_preds_def comp_def)
qed

lemma enumerates_block_succs:
  assumes b: "blocks_of m info" and k: "k < length (basicBlocks info)"
  shows "enumerates (pre_getSuccessor m info (Some k)) None (map Some (block_succs m info k))"
proof -
  note D = blocks_ofD [OF b]
  define hd_of where "hd_of cur = (case cur of Some (Some c) \<Rightarrow> Some (head_of info c) | _ \<Rightarrow> None)" for cur :: "nat option option"
  have "enumerates (pre_getSuccessor m info (Some k)) None (map (\<lambda>p. Some (blk info p)) (successors m (tail_of info k)))"
  proof (rule enumerates_image [where f = "succ_step m (tail_of info k)" and k = hd_of])
    show "pre_getSuccessor m info (Some k) q = Option.bind (succ_step m (tail_of info k) (hd_of q))
        (\<lambda>p. map_option Some (IRMETHOD_getBasicBlockContainingInstruction info p))" for q
      by (auto simp: pre_getSuccessor_def hd_of_def succ_step_def Let_def split: option.split)
    show "enumerates (succ_step m (tail_of info k)) (hd_of None) (successors m (tail_of info k))"
      using enumerates_successors D(6) [OF k] by (simp add: hd_of_def)
    show "map_option Some (IRMETHOD_getBasicBlockContainingInstruction info s) = Some (Some (blk info s)) \<and>
        hd_of (Some (Some (blk info s))) = Some s" if s: "s \<in> set (successors m (tail_of info k))" for s
      using succ_of_tail [OF b k s] D(10) [of s] by (simp add: hd_of_def)
  qed
  then show ?thesis using k by (simp add: block_succs_def comp_def)
qed

text \<open>The array of the blocks with the null pointer at its end.\<close>

definition block_elems :: "block_info \<Rightarrow> nat option list" where
  "block_elems info = map Some [0..<length (basicBlocks info)] @ [None]"

lemma blocks_graph:
  assumes b: "blocks_of m info"
  shows "neighbour_functions (block_elems info) 0 (pre_getPredecessor m info) (pre_getSuccessor m info)
    (block_preds m info) (block_succs m info)"
proof -
  note D = blocks_ofD [OF b]
  define nb where "nb = length (basicBlocks info)"
  have pb: "j < nb" if "i < nb" "j \<in> set (block_preds m info i)" for i j
    using that predecessors_bound [OF D(1) head_bound [OF b]] D(2) by (auto simp: block_preds_def nb_def)
  have edge: "j \<in> set (block_preds m info i) \<longleftrightarrow> i \<in> set (block_succs m info j)" if ij: "i < nb" "j < nb" for i j
  proof
    note i = ij(1) [unfolded nb_def] and j = ij(2) [unfolded nb_def]
    note hi = head_bound [OF b i]
    assume "j \<in> set (block_preds m info i)"
    then obtain p where p: "p \<in> set (predecessors m (head_of info i))" "j = blk info p"
      using i by (auto simp: block_preds_def)
    have pn: "p \<le> ir_instr_count m" by (rule predecessors_bound [OF D(1) hi p(1)])
    have "head_of info i \<in> set (successors m (tail_of info j))"
      using simple_edges [OF D(1) hi pn] p pred_of_head [OF b i p(1) pn] by simp
    moreover have "blk info (head_of info i) = i" using D(7) [OF i order_refl D(5) [OF i]] .
    ultimately show "i \<in> set (block_succs m info j)" using j by (force simp: block_succs_def)
  next
    note i = ij(1) [unfolded nb_def] and j = ij(2) [unfolded nb_def]
    assume "i \<in> set (block_succs m info j)"
    then obtain s where s: "s \<in> set (successors m (tail_of info j))" "i = blk info s"
      using j by (auto simp: block_succs_def)
    note sh = succ_of_tail [OF b j s(1)]
    have "tail_of info j \<in> set (predecessors m (head_of info i))"
      using simple_edges [OF D(1) sh(1) D(6) [OF j]] s sh(2) by simp
    moreover have "blk info (tail_of info j) = j" using D(7) [OF j D(5) [OF j] order_refl] .
    ultimately show "j \<in> set (block_preds m info i)" using i by (force simp: block_preds_def)
  qed
  have sb: "i < nb" if "j < nb" "i \<in> set (block_succs m info j)" for i j
    using that succ_of_tail(1) [OF b] D(2) by (auto simp: block_succs_def nb_def)
  have "0 < nb" using D(2) [of 0] by (auto simp: nb_def)
  then have last: "\<not> reach (block_preds m info) 0 nb"
    unfolding reach_def by (auto simp: block_preds_def nb_def elim: walk.cases)
  have lt: "i < length (block_elems info) \<longleftrightarrow> i < nb \<or> i = nb" for i by (auto simp: block_elems_def nb_def)
  have nth: "i < nb \<Longrightarrow> block_elems info ! i = Some i" for i by (simp add: block_elems_def nb_def nth_append)
  have pn: "block_preds m info nb = []" by (simp add: block_preds_def nb_def)
  have maps: "map ((!) (block_elems info)) xs = map Some xs" if "\<forall>x\<in>set xs. x < nb" for xs
    using that nth by simp
  show ?thesis
    unfolding neighbour_functions_def
  proof (intro conjI allI impI ballI)
    show "distinct (block_elems info)" by (simp add: block_elems_def distinct_map)
    show "k < length (block_elems info)" if "i < length (block_elems info)" "k \<in> set (block_preds m info i)" for i k
      using that pb pn unfolding lt by auto
    show "i \<in> set (block_succs m info k)" if "i < length (block_elems info)" "k \<in> set (block_preds m info i)" for i k
      using that pb pn edge unfolding lt by auto
    fix i assume "i < length (block_elems info)" "reach (block_preds m info) 0 i"
    then have i: "i < nb" "reach (block_preds m info) 0 i" using last by (auto simp: lt)
    show "enumerates (pre_getPredecessor m info (block_elems info ! i)) None (map ((!) (block_elems info)) (block_preds m info i))"
    proof -
      have e: "map ((!) (block_elems info)) (block_preds m info i) = map Some (block_preds m info i)"
        by (rule maps) (use pb [OF i(1)] in blast)
      show ?thesis unfolding e nth [OF i(1)] by (rule enumerates_block_preds [OF b i(1) [unfolded nb_def]])
    qed
    show "enumerates (pre_getSuccessor m info (block_elems info ! i)) None (map ((!) (block_elems info)) (block_succs m info i))"
    proof -
      have e: "map ((!) (block_elems info)) (block_succs m info i) = map Some (block_succs m info i)"
        by (rule maps) (use sb [OF i(1)] in blast)
      show ?thesis unfolding e nth [OF i(1)] by (rule enumerates_block_succs [OF b i(1) [unfolded nb_def]])
    qed
    fix k assume k: "k \<in> set (block_succs m info i)"
    show "k < length (block_elems info)" using sb [OF i(1) k] by (simp add: lt)
    show "reach (block_preds m info) 0 k"
      using reach_edge [OF i(2)] edge [OF sb [OF i(1) k] i(1)] k by blast
  qed
qed

section \<open>The blocks are chains of instructions\<close>

lemma first_block:
  assumes "blocks_of m info"
  shows "0 < length (basicBlocks info)" "head_of info 0 = 0" "blk info 0 = 0"
proof -
  note D = blocks_ofD [OF assms]
  show l: "0 < length (basicBlocks info)" using D(2) [of 0] by auto
  have c: "concat (map block_range (basicBlocks info)) = [0..<ir_instr_count m + 1]"
    using assms by (simp add: blocks_of_def covers_def)
  obtain b bs where bs: "basicBlocks info = b # bs" using l by (cases "basicBlocks info") auto
  have "startInst b \<le> endInst b" using D(5) [OF l] bs by simp
  then have "block_range b = startInst b # [startInst b + 1..<endInst b + 1]"
    by (simp add: block_range_def upt_conv_Cons del: upt_Suc)
  then have "hd (concat (map block_range (basicBlocks info))) = startInst b" using bs by simp
  moreover have "hd [0..<ir_instr_count m + 1] = 0" by (simp add: upt_conv_Cons del: upt_Suc)
  ultimately have s: "startInst b = 0" using c by simp
  then show "head_of info 0 = 0" using bs by simp
  then show "blk info 0 = 0" using D(7) [OF l, of 0] D(5) [OF l] by simp
qed

lemma inner_pred:
  assumes "blocks_of m info" and "i \<le> ir_instr_count m" and "head_of info (blk info i) < i"
  shows "predecessors m i = [i - 1]" "blk info (i - 1) = blk info i"
proof -
  note D = blocks_ofD [OF assms(1)]
  note b = D(2) [OF assms(2)]
  have i: "i - 1 < ir_instr_count m" "i - 1 + 1 = i" using assms by simp_all
  have "\<not> block_cut m (i - 1 + 1)" using D(9) [OF b assms(3) D(4) [OF assms(2)]] i(2) by simp
  from straight_line(2) [OF D(1) i(1) this] show "predecessors m i = [i - 1]" using i(2) by simp
  show "blk info (i - 1) = blk info i" using D(7) [OF b, of "i - 1"] assms(3) D(4) [OF assms(2)] by simp
qed

text \<open>The methods with their blocks, as a type: the laws of a graph of chains hold for each of them.\<close>

typedef blocked_method = "{x. blocks_of (fst x) (snd x)}"
proof -
  have n: "ir_instr_count demo = 8" and f: "\<not> opens_block (type_at demo 0)"
    by (simp_all add: demo_simps opens_block_def)
  have "ir_instr_count demo < 2 ^ 32" unfolding n by simp
  from buildBasicBlock_covers [OF _ this f, of "\<lparr>basicBlocks = [], instructionsBasicBlocksMap = []\<rparr>"] n obtain info :: block_info where
    "covers demo (basicBlocks info) (instructionsBasicBlocksMap info) (ir_instr_count demo + 1)"
    by auto
  then have "blocks_of demo info" using demo_simple by (simp add: blocks_of_def)
  then show ?thesis by (intro exI [of _ "(demo, info)"]) simp
qed

definition method_of :: "blocked_method \<Rightarrow> ir_method" where
  "method_of x = fst (Rep_blocked_method x)"

definition info_of :: "blocked_method \<Rightarrow> block_info" where
  "info_of x = snd (Rep_blocked_method x)"

lemma blocked: "blocks_of (method_of x) (info_of x)"
  using Rep_blocked_method [of x] by (simp add: method_of_def info_of_def)

lemma blocked_cases:
  assumes "blocks_of m info"
  obtains x where "method_of x = m" "info_of x = info"
proof
  show "method_of (Abs_blocked_method (m, info)) = m" "info_of (Abs_blocked_method (m, info)) = info"
    using Abs_blocked_method_inverse [of "(m, info)"] assms by (simp_all add: method_of_def info_of_def)
qed

definition block_order :: "ir_basic_block \<Rightarrow> nat list" where
  "block_order block = [startInst block..<endInst block + 1]"

lemma block_order_simps [simp]:
  "startInst block \<le> endInst block \<Longrightarrow> hd (block_order block) = startInst block"
  "startInst block \<le> endInst block \<Longrightarrow> last (block_order block) = endInst block"
  "set (block_order block) = {startInst block..endInst block}" "distinct (block_order block)"
  "length (block_order block) = endInst block + 1 - startInst block"
  "startInst block \<le> endInst block \<Longrightarrow> block_order block \<noteq> []"
  by (auto simp: block_order_def simp del: upt_Suc)

lemma block_order_nth [simp]: "startInst block + j \<le> endInst block \<Longrightarrow> block_order block ! j = startInst block + j"
  by (simp add: block_order_def del: upt_Suc)

interpretation pre_graph: chain_graph "predecessors (method_of x)" 0 "{..ir_instr_count (method_of x)}" "blk (info_of x)"
  "length (basicBlocks (info_of x))" "\<lambda>b. block_order (basicBlocks (info_of x) ! b)" "block_preds (method_of x) (info_of x)" for x
proof
  note b = blocked [of x]
  note D = blocks_ofD [OF b]
  let ?m = "method_of x" and ?i = "info_of x"
  show "blk ?i i < length (basicBlocks ?i)" if "i \<in> {..ir_instr_count ?m}" for i using D(2) that by simp
  show "i \<in> set (block_order (basicBlocks ?i ! blk ?i i))" if "i \<in> {..ir_instr_count ?m}" for i using D(3,4) that by simp
  show "block_order (basicBlocks ?i ! k) \<noteq> []" if "k < length (basicBlocks ?i)" for k using D(5) [OF that] by simp
  show "distinct (block_order (basicBlocks ?i ! k))" for k by simp
  show "i \<in> {..ir_instr_count ?m} \<and> blk ?i i = k" if "k < length (basicBlocks ?i)" "i \<in> set (block_order (basicBlocks ?i ! k))" for k i
    using that D(6) [OF that(1)] D(7) [OF that(1), of i] by auto
  show "predecessors ?m (block_order (basicBlocks ?i ! k) ! Suc j) = [block_order (basicBlocks ?i ! k) ! j]"
    if k: "k < length (basicBlocks ?i)" and j: "Suc j < length (block_order (basicBlocks ?i ! k))" for k j
  proof -
    have i: "head_of ?i k + Suc j \<le> tail_of ?i k" using j by simp
    have bi: "blk ?i (head_of ?i k + Suc j) = k" by (rule D(7) [OF k _ i]) simp
    have "head_of ?i k + Suc j \<le> ir_instr_count ?m" using i D(6) [OF k] by simp
    from inner_pred(1) [OF b this] bi i show ?thesis by simp
  qed
  show "q \<in> {..ir_instr_count ?m} \<and> last (block_order (basicBlocks ?i ! blk ?i q)) = q"
    if k: "k < length (basicBlocks ?i)" and q: "q \<in> set (predecessors ?m (hd (block_order (basicBlocks ?i ! k))))" for k q
  proof -
    have q': "q \<in> set (predecessors ?m (head_of ?i k))" using q D(5) [OF k] by simp
    have n: "q \<le> ir_instr_count ?m" by (rule predecessors_bound [OF D(1) head_bound [OF b k] q'])
    with pred_of_head [OF b k q' n] D(5) [OF D(2) [OF n]] show ?thesis by simp
  qed
  show "set (block_preds ?m ?i k) = blk ?i ` set (predecessors ?m (hd (block_order (basicBlocks ?i ! k))))"
    if k: "k < length (basicBlocks ?i)" for k
    using k D(5) [OF k] by (simp add: block_preds_def)
  show "0 \<in> {..ir_instr_count ?m}" by simp
  show "hd (block_order (basicBlocks ?i ! blk ?i 0)) = 0"
    using first_block [OF b] D(5) [OF first_block(1) [OF b]] by simp
qed

end
