(* ===== verification/Explosion.thy ===== *)
theory Explosion
  imports Chains BasicBlocks
begin

text \<open>
  The explosion of a tree of basic blocks to a tree of instructions, which \<open>optimizer-predominators\<close> and
  \<open>optimizer-postdominators\<close> share but for the order of the instructions of a block. A tree of instructions is the
  list of the calls of \<open>addChildren\<close>, pairs of a parent and a child; the parent \<open>None\<close> is the node the explosion starts at.
  The recursion follows the tree of the blocks, so its depth is bounded by the number of blocks.
\<close>

type_synonym calls = "(nat option \<times> nat) list"

fun explode :: "(ir_basic_block \<Rightarrow> nat option \<Rightarrow> calls \<times> nat option) \<Rightarrow> nat \<Rightarrow> (nat \<Rightarrow> nat list) \<Rightarrow>
    (nat \<Rightarrow> ir_basic_block option) \<Rightarrow> nat \<Rightarrow> nat option \<Rightarrow> calls option"
  and explode_children :: "(ir_basic_block \<Rightarrow> nat option \<Rightarrow> calls \<times> nat option) \<Rightarrow> nat \<Rightarrow> (nat \<Rightarrow> nat list) \<Rightarrow>
    (nat \<Rightarrow> ir_basic_block option) \<Rightarrow> nat list \<Rightarrow> nat option \<Rightarrow> calls option"
where
  "explode unroll 0 children block_of bb_dominance currNode = None"
| "explode unroll (Suc depth) children block_of bb_dominance currNode = do {
     let (edges, currNode) = (case block_of bb_dominance of None \<Rightarrow> ([], currNode) | Some block \<Rightarrow> unroll block currNode);
     below \<leftarrow> explode_children unroll depth children block_of (children bb_dominance) currNode;
     Some (edges @ below)
   }"
| "explode_children unroll depth children block_of [] currNode = Some []"
| "explode_children unroll depth children block_of (child # rest) currNode = do {
     edges \<leftarrow> explode unroll depth children block_of child currNode;
     more \<leftarrow> explode_children unroll depth children block_of rest currNode;
     Some (edges @ more)
   }"

definition node_edges :: "calls \<Rightarrow> (nat \<times> nat) set" where
  "node_edges tree = {(p, c). (Some p, c) \<in> set tree}"

section \<open>A chain of nodes\<close>

definition chain_calls :: "nat list \<Rightarrow> nat option \<Rightarrow> calls" where
  "chain_calls xs cur = zip (cur # map Some xs) xs"

lemma fold_chain_calls:
  "fold (\<lambda>i (edges, cur). (edges @ [(cur, i)], Some i)) xs (es, cur) =
    (es @ chain_calls xs cur, if xs = [] then cur else Some (last xs))"
  by (induction xs arbitrary: es cur) (auto simp: chain_calls_def)

lemma in_chain_calls:
  "(x, c) \<in> set (chain_calls xs cur) \<longleftrightarrow> xs \<noteq> [] \<and> c = hd xs \<and> x = cur \<or>
    (\<exists>j. Suc j < length xs \<and> c = xs ! Suc j \<and> x = Some (xs ! j))"
proof -
  have "(x, c) \<in> set (chain_calls xs cur) \<longleftrightarrow> (\<exists>j<length xs. c = xs ! j \<and> x = (cur # map Some xs) ! j)"
    unfolding chain_calls_def set_zip by auto
  also have "\<dots> \<longleftrightarrow> (0 < length xs \<and> c = xs ! 0 \<and> x = cur) \<or>
      (\<exists>j. Suc j < length xs \<and> c = xs ! Suc j \<and> x = Some (xs ! j))" (is "?l \<longleftrightarrow> ?r")
  proof
    assume ?l
    then obtain j where j: "j < length xs" "c = xs ! j" "x = (cur # map Some xs) ! j" by blast
    then show ?r by (cases j) auto
  next
    assume ?r
    then show ?l
    proof
      assume "\<exists>j. Suc j < length xs \<and> c = xs ! Suc j \<and> x = Some (xs ! j)"
      then obtain j where "Suc j < length xs" "c = xs ! Suc j" "x = Some (xs ! j)" by blast
      then show ?l by (intro exI [of _ "Suc j"]) simp
    qed auto
  qed
  also have "0 < length xs \<and> c = xs ! 0 \<and> x = cur \<longleftrightarrow> xs \<noteq> [] \<and> c = hd xs \<and> x = cur"
    by (cases xs) auto
  finally show ?thesis .
qed

text \<open>What the explosions rely on: a block becomes the chain of its instructions in some order.\<close>

locale block_explosion =
  fixes unroll :: "ir_basic_block \<Rightarrow> nat option \<Rightarrow> calls \<times> nat option" and order :: "ir_basic_block \<Rightarrow> nat list"
  assumes unroll: "startInst block \<le> endInst block \<Longrightarrow>
      unroll block cur = (chain_calls (order block) cur, Some (last (order block)))"
    and order: "startInst block \<le> endInst block \<Longrightarrow> set (order block) = {startInst block..endInst block}"
begin

text \<open>The calls a block contributes, and the node below which its children are put.\<close>

definition calls_of :: "(nat \<Rightarrow> ir_basic_block option) \<Rightarrow> nat \<Rightarrow> nat option \<Rightarrow> (nat option \<times> nat) set" where
  "calls_of block_of b cur = (case block_of b of None \<Rightarrow> {} | Some block \<Rightarrow> set (chain_calls (order block) cur))"

definition after_block :: "(nat \<Rightarrow> ir_basic_block option) \<Rightarrow> nat \<Rightarrow> nat option \<Rightarrow> nat option" where
  "after_block block_of b cur = (case block_of b of None \<Rightarrow> cur | Some block \<Rightarrow> Some (last (order block)))"

lemma explode_children_Some:
  "explode_children unroll f ch bk cs cur = Some l \<longleftrightarrow>
    (\<forall>c\<in>set cs. explode unroll f ch bk c cur \<noteq> None) \<and> l = concat (map (\<lambda>c. the (explode unroll f ch bk c cur)) cs)"
proof (induction cs arbitrary: l)
  case (Cons c cs)
  show ?case
  proof (cases "explode unroll f ch bk c cur")
    case (Some e)
    show ?thesis
    proof (cases "explode_children unroll f ch bk cs cur")
      case None
      with Some Cons.IH [of "concat (map (\<lambda>c. the (explode unroll f ch bk c cur)) cs)"] show ?thesis by auto
    next
      case (Some r)
      with \<open>explode unroll f ch bk c cur = Some e\<close> Cons.IH [of r] show ?thesis by auto
    qed
  qed simp
qed auto

lemma explode_Some:
  assumes ok: "\<forall>b block. bk b = Some block \<longrightarrow> startInst block \<le> endInst block"
    and e: "explode unroll f ch bk b cur = Some l"
  shows "\<exists>g. f = Suc g \<and> (\<forall>c\<in>set (ch b). explode unroll g ch bk c (after_block bk b cur) \<noteq> None) \<and>
    set l = calls_of bk b cur \<union> (\<Union>c\<in>set (ch b). set (the (explode unroll g ch bk c (after_block bk b cur))))"
proof -
  obtain g where f: "f = Suc g" using e by (cases f) auto
  define own where "own = (case bk b of None \<Rightarrow> ([], cur) | Some block \<Rightarrow> unroll block cur)"
  have own: "snd own = after_block bk b cur" "set (fst own) = calls_of bk b cur"
    using unroll ok by (auto simp: own_def after_block_def calls_of_def split: option.splits)
  have "explode unroll f ch bk b cur = Option.bind (explode_children unroll g ch bk (ch b) (snd own)) (\<lambda>below. Some (fst own @ below))"
    by (simp add: f own_def Let_def case_prod_beta)
  then obtain below where b: "explode_children unroll g ch bk (ch b) (after_block bk b cur) = Some below" "l = fst own @ below"
    using e own(1) by (cases "explode_children unroll g ch bk (ch b) (after_block bk b cur)") auto
  with f own show ?thesis by (auto simp: explode_children_Some)
qed

lemma explode_ends:
  assumes rank: "\<And>b c. c \<in> set (ch b) \<Longrightarrow> rank b < rank c \<and> rank c \<le> (k :: nat)"
  shows "k < f + rank b \<Longrightarrow> rank b \<le> k \<Longrightarrow> explode unroll f ch bk b cur \<noteq> None"
proof (induction f arbitrary: b cur)
  case (Suc f)
  have "explode unroll f ch bk c cur' \<noteq> None" if "c \<in> set (ch b)" for c cur'
    using Suc.prems rank [OF that] by (intro Suc.IH) auto
  then have "explode_children unroll f ch bk (ch b) cur' = Some (concat (map (\<lambda>c. the (explode unroll f ch bk c cur')) (ch b)))" for cur'
    by (subst explode_children_Some) blast
  then show ?case by (simp add: Let_def case_prod_beta)
qed simp

lemma explode_sound:
  assumes ok: "\<forall>b block. bk b = Some block \<longrightarrow> startInst block \<le> endInst block"
    and ch: "\<forall>b c. c \<in> set (ch b) \<longleftrightarrow> (b, c) \<in> L"
  shows "explode unroll f ch bk b cur = Some l \<Longrightarrow> (x, c) \<in> set l \<Longrightarrow>
    \<exists>b' cur'. (x, c) \<in> calls_of bk b' cur' \<and> (b' = b \<and> cur' = cur \<or>
      (\<exists>q cur''. (q, b') \<in> L \<and> cur' = after_block bk q cur'' \<and> (q = b \<and> cur'' = cur \<or> (\<exists>p. (p, q) \<in> L))))"
proof (induction f arbitrary: b cur l)
  case (Suc f)
  from explode_Some [OF ok Suc.prems(1)] have
    g: "\<forall>c\<in>set (ch b). explode unroll f ch bk c (after_block bk b cur) \<noteq> None"
       "set l = calls_of bk b cur \<union> (\<Union>c\<in>set (ch b). set (the (explode unroll f ch bk c (after_block bk b cur))))" by auto
  show ?case
  proof (cases "(x, c) \<in> calls_of bk b cur")
    case True
    then show ?thesis by blast
  next
    case False
    then obtain d where d: "d \<in> set (ch b)" "(x, c) \<in> set (the (explode unroll f ch bk d (after_block bk b cur)))"
      using g(2) Suc.prems(2) by auto
    then obtain l' where l': "explode unroll f ch bk d (after_block bk b cur) = Some l'" "(x, c) \<in> set l'" using g(1) by fastforce
    have bd: "(b, d) \<in> L" using d(1) ch by simp
    from Suc.IH [OF l'] obtain b' cur' where x: "(x, c) \<in> calls_of bk b' cur'"
      and "b' = d \<and> cur' = after_block bk b cur \<or>
        (\<exists>q cur''. (q, b') \<in> L \<and> cur' = after_block bk q cur'' \<and> (q = d \<and> cur'' = after_block bk b cur \<or> (\<exists>p. (p, q) \<in> L)))"
      by blast
    from this(2) bd have "\<exists>q cur''. (q, b') \<in> L \<and> cur' = after_block bk q cur'' \<and> (q = b \<and> cur'' = cur \<or> (\<exists>p. (p, q) \<in> L))"
      by blast
    with x show ?thesis by blast
  qed
qed simp

lemma explode_inner:
  assumes ok: "\<forall>b block. bk b = Some block \<longrightarrow> startInst block \<le> endInst block"
    and ch: "\<forall>b c. c \<in> set (ch b) \<longleftrightarrow> (b, c) \<in> L"
    and e: "explode unroll f ch bk b cur = Some l" and q: "(b, q) \<in> L\<^sup>*"
  shows "\<exists>f' cur' l'. explode unroll f' ch bk q cur' = Some l' \<and> set l' \<subseteq> set l \<and> (q = b \<longrightarrow> (b, b) \<in> L\<^sup>+ \<or> cur' = cur)"
  using q
proof (induction rule: rtrancl_induct)
  case base
  then show ?case using e by blast
next
  case (step q c)
  then obtain f' cur' l' where l': "explode unroll f' ch bk q cur' = Some l'" "set l' \<subseteq> set l" by blast
  from explode_Some [OF ok l'(1)] obtain g where
    g: "\<forall>c\<in>set (ch q). explode unroll g ch bk c (after_block bk q cur') \<noteq> None"
       "set l' = calls_of bk q cur' \<union> (\<Union>c\<in>set (ch q). set (the (explode unroll g ch bk c (after_block bk q cur'))))" by blast
  have c: "c \<in> set (ch q)" using step(2) ch by simp
  with g(1) obtain l'' where "explode unroll g ch bk c (after_block bk q cur') = Some l''" by auto
  moreover have "set l'' \<subseteq> set l'" using g(2) c calculation by force
  moreover have "(b, c) \<in> L\<^sup>+" using step(1,2) by (rule rtrancl_into_trancl1)
  ultimately show ?case using l'(2) by blast
qed

lemma explode_complete:
  assumes ok: "\<forall>b block. bk b = Some block \<longrightarrow> startInst block \<le> endInst block"
    and ch: "\<forall>b c. c \<in> set (ch b) \<longleftrightarrow> (b, c) \<in> L"
    and e: "explode unroll f ch bk b cur = Some l" and q: "(b, q) \<in> L\<^sup>*"
  shows "\<exists>cur'. (q = b \<longrightarrow> (b, b) \<in> L\<^sup>+ \<or> cur' = cur) \<and> calls_of bk q cur' \<subseteq> set l \<and>
    (\<forall>c. (q, c) \<in> L \<longrightarrow> calls_of bk c (after_block bk q cur') \<subseteq> set l)"
proof -
  obtain f' cur' l' where l': "explode unroll f' ch bk q cur' = Some l'" "set l' \<subseteq> set l"
      "q = b \<longrightarrow> (b, b) \<in> L\<^sup>+ \<or> cur' = cur"
    using explode_inner [OF ok ch e q] by blast
  from explode_Some [OF ok l'(1)] obtain g where
    g: "\<forall>c\<in>set (ch q). explode unroll g ch bk c (after_block bk q cur') \<noteq> None"
       "set l' = calls_of bk q cur' \<union> (\<Union>c\<in>set (ch q). set (the (explode unroll g ch bk c (after_block bk q cur'))))" by blast
  have "calls_of bk c (after_block bk q cur') \<subseteq> set l" if c: "(q, c) \<in> L" for c
  proof -
    have c': "c \<in> set (ch q)" using c ch by simp
    with g(1) obtain l'' where l'': "explode unroll g ch bk c (after_block bk q cur') = Some l''" by auto
    from explode_Some [OF ok l''] have "calls_of bk c (after_block bk q cur') \<subseteq> set l''" by blast
    moreover have "set l'' \<subseteq> set l'" using g(2) c' l'' by force
    ultimately show ?thesis using l'(2) by blast
  qed
  moreover have "calls_of bk q cur' \<subseteq> set l" using g(2) l'(2) by blast
  ultimately show ?thesis using l'(3) by blast
qed

text \<open>The parents of the instructions in the tree, when the blocks are disjoint and the first node of the tree of blocks has no parent.\<close>

lemma exploded_edges:
  assumes ok: "\<forall>b block. bk b = Some block \<longrightarrow> startInst block \<le> endInst block"
    and ch: "\<forall>b c. c \<in> set (ch b) \<longleftrightarrow> (b, c) \<in> L"
    and e: "explode unroll f ch bk 0 None = Some tree"
    and root: "\<And>p. (p, 0) \<notin> L" and below: "(0, k) \<in> L\<^sup>*" and parent: "\<And>q. (q, k) \<in> L \<Longrightarrow> q = 0 \<or> bk q \<noteq> None \<and> (0, q) \<in> L\<^sup>*"
    and k: "bk k = Some block" "c \<in> set (order block)"
    and disjoint: "\<And>j b. bk j = Some b \<Longrightarrow> c \<in> set (order b) \<Longrightarrow> j = k"
  shows "(x, c) \<in> set tree \<longleftrightarrow>
    (\<exists>j. Suc j < length (order block) \<and> c = order block ! Suc j \<and> x = Some (order block ! j)) \<or>
    c = hd (order block) \<and> (k = 0 \<and> x = None \<or>
      (\<exists>q. (q, k) \<in> L \<and> x = (case bk q of None \<Rightarrow> None | Some b \<Rightarrow> Some (last (order b)))))"
    (is "_ \<longleftrightarrow> ?inner \<or> ?first")
proof -
  have sub: "(x, c) \<in> set (chain_calls xs cur) \<Longrightarrow> c \<in> set xs" for x xs cur
    by (auto simp: in_chain_calls)
  have mem: "(x, c) \<in> set (chain_calls (order block) cur) \<longleftrightarrow> ?inner \<or> c = hd (order block) \<and> x = cur" for cur
  proof -
    have "order block \<noteq> []" using k(2) by auto
    then show ?thesis unfolding in_chain_calls [of x c "order block" cur]
      by (simp only: not_False_eq_True simp_thms) (rule disj_commute)
  qed
  have edge: "(x, c) \<in> calls_of bk j cur \<longleftrightarrow> j = k \<and> (?inner \<or> c = hd (order block) \<and> x = cur)" for j cur
  proof
    assume "(x, c) \<in> calls_of bk j cur"
    then obtain b where b: "bk j = Some b" "(x, c) \<in> set (chain_calls (order b) cur)"
      unfolding calls_of_def by (cases "bk j") auto
    have j: "j = k" by (rule disjoint [OF b(1) sub [OF b(2)]])
    with b(1) k(1) have "b = block" by simp
    with b(2) j show "j = k \<and> (?inner \<or> c = hd (order block) \<and> x = cur)" using mem [of cur] by simp
  next
    assume "j = k \<and> (?inner \<or> c = hd (order block) \<and> x = cur)"
    then have "j = k" "(x, c) \<in> set (chain_calls (order block) cur)" using mem [of cur] by simp_all
    then show "(x, c) \<in> calls_of bk j cur" using k(1) by (simp add: calls_of_def)
  qed
  have no_loop: "(0, 0) \<notin> L\<^sup>+" using root by (meson tranclE)
  show ?thesis
  proof
    assume "(x, c) \<in> set tree"
    from explode_sound [OF ok ch e this] obtain j cur where x: "(x, c) \<in> calls_of bk j cur"
      and o: "j = 0 \<and> cur = None \<or>
        (\<exists>q cur'. (q, j) \<in> L \<and> cur = after_block bk q cur' \<and> (q = 0 \<and> cur' = None \<or> (\<exists>p. (p, q) \<in> L)))" by blast
    from x edge have jk: "j = k" and "?inner \<or> c = hd (order block) \<and> x = cur" by blast+
    moreover have "k = 0 \<and> cur = None \<or>
        (\<exists>q. (q, k) \<in> L \<and> cur = (case bk q of None \<Rightarrow> None | Some b \<Rightarrow> Some (last (order b))))"
    proof -
      from o jk consider "k = 0" "cur = None"
        | q cur' where "(q, k) \<in> L" "cur = after_block bk q cur'" "q = 0 \<and> cur' = None \<or> (\<exists>p. (p, q) \<in> L)" by blast
      then show ?thesis
      proof cases
        case 2
        then have "bk q = None \<Longrightarrow> cur' = None" using parent root by blast
        then have "cur = (case bk q of None \<Rightarrow> None | Some b \<Rightarrow> Some (last (order b)))"
          using 2(2) by (auto simp: after_block_def split: option.splits)
        with 2(1) show ?thesis by blast
      qed blast
    qed
    ultimately show "?inner \<or> ?first" by blast
  next
    assume r: "?inner \<or> ?first"
    from explode_complete [OF ok ch e below] obtain cur where in_k: "calls_of bk k cur \<subseteq> set tree" by blast
    consider ?inner | "c = hd (order block)" "k = 0" "x = None"
      | q where "c = hd (order block)" "(q, k) \<in> L" "x = (case bk q of None \<Rightarrow> None | Some b \<Rightarrow> Some (last (order b)))"
      using r by blast
    then show "(x, c) \<in> set tree"
    proof cases
      case 1
      then show ?thesis using in_k edge by blast
    next
      case 2
      from explode_Some [OF ok e] have "calls_of bk 0 None \<subseteq> set tree" by blast
      with 2 edge show ?thesis by blast
    next
      case 3
      have q: "(0, q) \<in> L\<^sup>*" using parent [OF 3(2)] by blast
      from explode_complete [OF ok ch e q] no_loop obtain cur where cur: "q = 0 \<longrightarrow> cur = None"
        "calls_of bk k (after_block bk q cur) \<subseteq> set tree" using 3(2) by blast
      moreover have "after_block bk q cur = x"
        using 3(3) cur(1) parent [OF 3(2)] by (auto simp: after_block_def split: option.splits)
      ultimately show ?thesis using edge 3(1) by blast
    qed
  qed
qed

end

text \<open>The place of a node in the list of calls bounds the depth of the recursion.\<close>

definition place :: "(nat \<times> nat) list \<Rightarrow> nat \<Rightarrow> nat" where
  "place links c = (if c = 0 then 0 else Suc (length (takeWhile (\<lambda>l. snd l \<noteq> c) links)))"

lemma place_less:
  assumes d: "distinct (map snd links)" and z: "0 \<notin> snd ` set links" and b: "built_downwards links" and l: "(p, c) \<in> set links"
  shows "place links p < place links c" "place links c \<le> length links"
proof -
  obtain xs ys where xs: "links = xs @ (p, c) # ys" using l by (meson split_list)
  have c: "c \<noteq> 0" using z l by force
  have "c \<notin> snd ` set xs" using d xs by auto
  then have "takeWhile (\<lambda>l. snd l \<noteq> c) links = xs" unfolding xs by (subst takeWhile_append2) auto
  then have pc: "place links c = Suc (length xs)" using c by (simp add: place_def)
  then show "place links c \<le> length links" using xs by simp
  have "p = 0 \<or> p \<in> snd ` set xs" using b xs unfolding built_downwards_def by blast
  then show "place links p < place links c"
  proof
    assume "p \<in> snd ` set xs"
    then obtain y where y: "y \<in> set xs" "snd y = p" by auto
    have "length (takeWhile (\<lambda>l. snd l \<noteq> p) links) < length xs"
    proof -
      have "takeWhile (\<lambda>l. snd l \<noteq> p) links = takeWhile (\<lambda>l. snd l \<noteq> p) xs"
        unfolding xs using y by (intro takeWhile_append1) auto
      moreover have "length (takeWhile (\<lambda>l. snd l \<noteq> p) xs) \<noteq> length xs"
        using y takeWhile_eq_all_conv [of "\<lambda>l. snd l \<noteq> p" xs] by (metis (mono_tags, lifting) takeWhile_eq_take take_all order_refl)
      ultimately show ?thesis using length_takeWhile_le [of "\<lambda>l. snd l \<noteq> p" xs] by simp
    qed
    then show ?thesis using pc by (simp add: place_def)
  qed (use pc in \<open>simp add: place_def\<close>)
qed

section \<open>The explosion of a tree of dominators\<close>

definition children_in :: "(nat \<times> nat) list \<Rightarrow> nat \<Rightarrow> nat list" where
  "children_in links p = map snd (filter (\<lambda>l. fst l = p) links)"

lemma children_in: "c \<in> set (children_in links p) \<longleftrightarrow> (p, c) \<in> set links"
  by (force simp: children_in_def)

text \<open>
  The edges of the tree; when the tree of blocks starts at an artificial block, the node \<open>h\<close> stands for the node the
  explosion starts at.
\<close>

definition edges_below :: "nat option \<Rightarrow> calls \<Rightarrow> (nat \<times> nat) set" where
  "edges_below start tree =
     node_edges tree \<union> (case start of None \<Rightarrow> {} | Some h \<Rightarrow> {(h, c) |c. (None, c) \<in> set tree})"

context block_explosion
begin

lemma dominance_explodes:
  assumes g: "neighbour_functions elems 0 gp gs BP Q" and ne: "elems \<noteq> []"
  shows "\<exists>links tree. calculateDominanceTree elems 0 gp gs = Some links \<and>
    explode unroll (length elems + 1) (children_in links) bk 0 None = Some tree \<and>
    (\<forall>p. (p, 0) \<notin> set links) \<and>
    (\<forall>p k. (p, k) \<in> set links \<longrightarrow> reach BP 0 k \<longrightarrow> immediate BP 0 p k) \<and>
    (\<forall>k<length elems. reach BP 0 k \<longrightarrow> k \<noteq> 0 \<longrightarrow> (\<exists>p. (p, k) \<in> set links)) \<and>
    (\<forall>k<length elems. reach BP 0 k \<longrightarrow> (0, k) \<in> (set links)\<^sup>*)"
proof -
  define n where "n = length elems"
  have n: "0 < n" using ne by (simp add: n_def)
  obtain links where links: "calculateDominanceTree elems 0 gp gs = Some links"
      "mset (map snd links) = mset [1..<n]" "built_downwards links"
      "\<forall>p k. (p, k) \<in> set links \<longrightarrow> reach BP 0 k \<longrightarrow> immediate BP 0 p k"
    using calculateDominanceTree_eval [OF g ne] unfolding n_def by blast
  have d: "distinct (map snd links)" using mset_eq_imp_distinct_iff [OF links(2)] by simp
  have "set (map snd links) = {1..<n}" using mset_eq_setD [OF links(2)] by (simp only: set_upt)
  then have z: "0 \<notin> snd ` set links" by auto
  have ll: "length links = n - 1" using mset_eq_length [OF links(2)] by simp
  have "explode unroll (n + 1) (children_in links) bk 0 None \<noteq> None"
  proof (rule explode_ends [where rank = "place links" and k = n])
    show "place links p < place links c \<and> place links c \<le> n" if "c \<in> set (children_in links p)" for p c
      using place_less [OF d z links(3)] that ll unfolding children_in by fastforce
  qed (simp_all add: place_def)
  then obtain tree where tree: "explode unroll (n + 1) (children_in links) bk 0 None = Some tree" by auto
  moreover have "\<exists>p. (p, k) \<in> set links" if "k < n" "reach BP 0 k" "k \<noteq> 0" for k
    using tree_parent [OF links(2) _ that(1) links(4) that(2)] that(3) by auto
  moreover have "(0, k) \<in> (set links)\<^sup>*" if k: "k < n" "reach BP 0 k" for k
  proof -
    have "(0, k) \<in> (set links)\<^sup>* \<longleftrightarrow> dominates BP 0 0 k"
    proof (rule tree_paths [OF links(2) n links(4) k(2,1)])
      show "d < n" if "reach BP 0 k" "k < n" "dominates BP 0 d k" for d k
        using dominator_bound [OF g that(1)] that(2,3) n unfolding n_def by simp
    qed
    then show ?thesis using head_dominates by simp
  qed
  moreover have "(p, 0) \<notin> set links" for p using z by force
  ultimately show ?thesis
    using links(1,4) unfolding n_def [symmetric] by (intro exI [of _ links] exI [of _ tree]) blast
qed

end

text \<open>The blocks of a graph of chains and the tree that is exploded; the first block is possibly artificial.\<close>

locale exploded_chains = block_explosion unroll order + chain_graph P h N blk nb chain BP
  for unroll order P h N blk nb chain BP +
  fixes bk :: "nat \<Rightarrow> ir_basic_block option" and start :: "nat option"
  assumes root: "blk h = 0"
    and real: "bk k = Some block \<Longrightarrow> k < nb \<and> startInst block \<le> endInst block \<and> chain k = order block"
    and artificial: "k < nb \<Longrightarrow> bk k = None \<Longrightarrow> k = 0 \<and> start = Some (last (chain 0)) \<and> length (chain 0) = 1"
    and from_start: "start \<noteq> None \<Longrightarrow> bk 0 = None"
begin

lemma edges_unfolded:
  assumes e: "explode unroll f (children_in links) bk 0 None = Some tree"
    and z: "\<And>p. (p, 0) \<notin> set links"
    and imm: "\<And>p k. (p, k) \<in> set links \<Longrightarrow> reach BP 0 k \<Longrightarrow> immediate BP 0 p k"
    and below: "\<And>k. k < nb \<Longrightarrow> reach BP 0 k \<Longrightarrow> (0, k) \<in> (set links)\<^sup>*"
  shows "unfolded (set links) (edges_below start tree)"
  unfolding unfolded_def root
proof (intro ballI impI allI)
  fix c x assume c: "c \<in> N" and r: "reach BP 0 (blk c)"
  define k where "k = blk c"
  have k: "k < nb" "c \<in> set (chain k)" "reach BP 0 k" using blk_less [OF c] on_chain [OF c] r by (simp_all add: k_def)
  have ok: "\<forall>b block. bk b = Some block \<longrightarrow> startInst block \<le> endInst block" using real by blast
  have ch: "\<forall>b c. c \<in> set (children_in links b) \<longleftrightarrow> (b, c) \<in> set links" using children_in by blast
  have disjoint: "j = k" if "bk j = Some b" "c \<in> set (order b)" for j b
    using real [OF that(1)] chain_nodes [of j c] that(2) k_def by auto
  have parent: "q = 0 \<or> bk q \<noteq> None \<and> (0, q) \<in> (set links)\<^sup>*" and qn: "q < nb" if q: "(q, k) \<in> set links" for q
  proof -
    have d: "immediate BP 0 q k" by (rule imm [OF q k(3)])
    then have "reach BP 0 q" using dominates_reach [OF k(3)] by (auto simp: immediate_def strict_dominators_def)
    moreover show "q < nb" using immediate_chain(1) [OF k(1)] k(3) d root by simp
    ultimately show "q = 0 \<or> bk q \<noteq> None \<and> (0, q) \<in> (set links)\<^sup>*" using artificial below by blast
  qed
  show "(x, c) \<in> edges_below start tree \<longleftrightarrow>
     (\<exists>j. Suc j < length (chain (blk c)) \<and> c = chain (blk c) ! Suc j \<and> x = chain (blk c) ! j) \<or>
     c = hd (chain (blk c)) \<and> (\<exists>q. (q, blk c) \<in> set links \<and> x = last (chain q))"
    unfolding k_def [symmetric]
  proof (cases "bk k")
    case None
    then have s: "k = 0" "length (chain 0) = 1" using artificial [OF k(1)] by blast+
    have "(y, c) \<notin> set tree" for y
    proof
      assume "(y, c) \<in> set tree"
      from explode_sound [OF ok ch e this] obtain j cur where "(y, c) \<in> calls_of bk j cur" by blast
      then obtain b where b: "bk j = Some b" "(y, c) \<in> set (chain_calls (order b) cur)"
        by (auto simp: calls_of_def split: option.splits)
      from b(2) have "c \<in> set (order b)" by (auto simp: in_chain_calls)
      from disjoint [OF b(1) this] b(1) None show False by simp
    qed
    then have "(x, c) \<notin> edges_below start tree" by (auto simp: edges_below_def node_edges_def split: option.splits)
    with s z show "(x, c) \<in> edges_below start tree \<longleftrightarrow>
       (\<exists>j. Suc j < length (chain k) \<and> c = chain k ! Suc j \<and> x = chain k ! j) \<or>
       c = hd (chain k) \<and> (\<exists>q. (q, k) \<in> set links \<and> x = last (chain q))" by simp
  next
    case (Some block)
    have o: "order block = chain k" using real [OF Some] by simp
    have edge: "(y, c) \<in> set tree \<longleftrightarrow>
      (\<exists>j. Suc j < length (chain k) \<and> c = chain k ! Suc j \<and> y = Some (chain k ! j)) \<or>
      c = hd (chain k) \<and> (k = 0 \<and> y = None \<or>
        (\<exists>q. (q, k) \<in> set links \<and> y = (case bk q of None \<Rightarrow> None | Some b \<Rightarrow> Some (last (order b)))))" for y
      using exploded_edges [OF ok ch e z below [OF k(1,3)] parent Some _ disjoint, where x = y] k(2) unfolding o by simp
    have l: "(case bk q of None \<Rightarrow> None | Some b \<Rightarrow> Some (last (order b))) = (if bk q = None then None else Some (last (chain q)))" for q
      using real by (cases "bk q") auto
    have none: "\<exists>h. start = Some h \<and> h = last (chain q)" if "(q, k) \<in> set links" "bk q = None" for q
      using artificial [OF qn [OF that(1)] that(2)] by auto
    have k0: "start = None" if "k = 0" using from_start Some that by (cases start) auto
    have "(x, c) \<in> edges_below start tree \<longleftrightarrow> (Some x, c) \<in> set tree \<or> start = Some x \<and> (None, c) \<in> set tree"
      by (auto simp: edges_below_def node_edges_def split: option.splits)
    also have "\<dots> \<longleftrightarrow> (\<exists>j. Suc j < length (chain k) \<and> c = chain k ! Suc j \<and> x = chain k ! j) \<or>
        c = hd (chain k) \<and> ((\<exists>q. (q, k) \<in> set links \<and> bk q \<noteq> None \<and> x = last (chain q)) \<or>
          start = Some x \<and> (k = 0 \<or> (\<exists>q. (q, k) \<in> set links \<and> bk q = None)))"
      unfolding edge l by auto
    also have "(\<exists>q. (q, k) \<in> set links \<and> bk q \<noteq> None \<and> x = last (chain q)) \<or>
          start = Some x \<and> (k = 0 \<or> (\<exists>q. (q, k) \<in> set links \<and> bk q = None)) \<longleftrightarrow>
        (\<exists>q. (q, k) \<in> set links \<and> x = last (chain q))"
      using none k0 by (metis option.inject option.distinct(1))
    finally show "(x, c) \<in> edges_below start tree \<longleftrightarrow>
       (\<exists>j. Suc j < length (chain k) \<and> c = chain k ! Suc j \<and> x = chain k ! j) \<or>
       c = hd (chain k) \<and> (\<exists>q. (q, k) \<in> set links \<and> x = last (chain q))" .
  qed
qed

lemma exploded_dominance:
  assumes g: "neighbour_functions elems 0 gp gs BP Q" and nb: "nb \<le> length elems"
  shows "\<exists>links tree. calculateDominanceTree elems 0 gp gs = Some links \<and>
    explode unroll (length elems + 1) (children_in links) bk 0 None = Some tree \<and>
    (\<forall>i\<in>N. reach P h i \<longrightarrow> (\<forall>d. (d, i) \<in> (edges_below start tree)\<^sup>* \<longleftrightarrow> dominates P h d i))"
proof -
  have ne: "elems \<noteq> []" using blk_less [OF head(1)] nb by auto
  from dominance_explodes [OF g ne, of bk] obtain links tree where
    t: "calculateDominanceTree elems 0 gp gs = Some links"
      "explode unroll (length elems + 1) (children_in links) bk 0 None = Some tree"
    and z: "\<And>p. (p, 0) \<notin> set links"
    and imm: "\<And>p k. (p, k) \<in> set links \<Longrightarrow> reach BP 0 k \<Longrightarrow> immediate BP 0 p k"
    and above: "\<And>k. k < length elems \<Longrightarrow> reach BP 0 k \<Longrightarrow> k \<noteq> 0 \<Longrightarrow> \<exists>p. (p, k) \<in> set links"
    and below: "\<And>k. k < length elems \<Longrightarrow> reach BP 0 k \<Longrightarrow> (0, k) \<in> (set links)\<^sup>*" by blast
  have u: "unfolded (set links) (edges_below start tree)"
    using edges_unfolded [OF t(2) z imm below] nb by simp
  have "(d, i) \<in> (edges_below start tree)\<^sup>* \<longleftrightarrow> dominates P h d i" if "i \<in> N" "reach P h i" for d i
    using unfolded_tree [OF _ _ u that] imm above nb root by simp
  with t show ?thesis by blast
qed

end

end
