(* ===== verification/PreDominators.thy ===== *)
theory PreDominators
  imports BlockGraph Explosion
begin

text \<open>
  The pre-dominator tree of the instructions of a method, after \<open>optimizer-predominators/src/pre_dominators.c\<close>: the tree
  of the blocks, built by the dominance library, and its explosion to a tree of instructions. The lemmas show that
  the tree orders the instructions that control reaches by dominance over the paths of instructions.
\<close>

section \<open>The tree\<close>

definition explode_block :: "ir_basic_block \<Rightarrow> nat option \<Rightarrow> calls \<times> nat option" where
  "explode_block block currNode =
     fold (\<lambda>i (edges, currNode). (edges @ [(currNode, i)], Some i)) [startInst block..<endInst block + 1] ([], currNode)"

text \<open>The recursion is as deep as the tree of the blocks at most, so the number of the blocks and one is enough.\<close>

definition pre_dominators_do_job :: "ir_method \<Rightarrow> block_info \<Rightarrow> calls option" where
  "pre_dominators_do_job m info =
     (let numElems = ir_basicblock_count info + 1;
          blocchi = map (\<lambda>i. map_option pos (ir_basicblock_get info i)) [0..<numElems]
      in do {
        links \<leftarrow> calculateDominanceTree blocchi 0 (pre_getPredecessor m info) (pre_getSuccessor m info);
        explode explode_block (numElems + 1) (children_in links) (ir_basicblock_get info) 0 None
      })"

section \<open>The tree of the instructions\<close>

interpretation pre_unroll: block_explosion explode_block block_order
proof
  show "explode_block block cur = (chain_calls (block_order block) cur, Some (last (block_order block)))"
    if "startInst block \<le> endInst block" for block cur
    using that fold_chain_calls [of "block_order block" "[]" cur] by (simp add: explode_block_def block_order_def del: upt_Suc)
qed simp

interpretation pre_tree: exploded_chains explode_block block_order
  "predecessors (method_of x)" 0 "{..ir_instr_count (method_of x)}" "blk (info_of x)"
  "length (basicBlocks (info_of x))" "\<lambda>b. block_order (basicBlocks (info_of x) ! b)" "block_preds (method_of x) (info_of x)"
  "ir_basicblock_get (info_of x)" None for x
proof
  note b = blocked [of x]
  show "blk (info_of x) 0 = 0" by (rule first_block(3) [OF b])
  show "k < length (basicBlocks (info_of x)) \<and> startInst block \<le> endInst block \<and>
      block_order (basicBlocks (info_of x) ! k) = block_order block"
    if "ir_basicblock_get (info_of x) k = Some block" for k block
    using that blocks_ofD(5) [OF b] by (auto simp: ir_basicblock_get_def split: if_splits)
qed (auto simp: ir_basicblock_get_def)

lemma tree_of_instructions:
  assumes b: "blocks_of m info"
  shows "\<exists>tree. pre_dominators_do_job m info = Some tree \<and> (\<forall>i\<le>ir_instr_count m. reach (predecessors m) 0 i \<longrightarrow>
    (\<forall>d. (d, i) \<in> (node_edges tree)\<^sup>* \<longleftrightarrow> dominates (predecessors m) 0 d i))"
proof -
  define n where "n = length (basicBlocks info)"
  obtain x where x: "method_of x = m" "info_of x = info" using b by (rule blocked_cases)
  have l: "length (block_elems info) = n + 1" by (simp add: block_elems_def n_def)
  have e: "map (\<lambda>i. map_option pos (ir_basicblock_get info i)) [0..<n + 1] = block_elems info"
    using blocks_ofD(8) [OF b] by (auto simp: block_elems_def n_def ir_basicblock_get_def)
  from pre_tree.exploded_dominance [of "block_elems info" "pre_getPredecessor m info" "pre_getSuccessor m info" x "block_succs m info"]
    blocks_graph [OF b] obtain links tree where
    t: "calculateDominanceTree (block_elems info) 0 (pre_getPredecessor m info) (pre_getSuccessor m info) = Some links"
      "explode explode_block (n + 2) (children_in links) (ir_basicblock_get info) 0 None = Some tree"
      "\<forall>i\<in>{..ir_instr_count m}. reach (predecessors m) 0 i \<longrightarrow>
         (\<forall>d. (d, i) \<in> (edges_below None tree)\<^sup>* \<longleftrightarrow> dominates (predecessors m) 0 d i)"
    unfolding x l by (auto simp: n_def)
  have "pre_dominators_do_job m info = Some tree"
    using t(1,2) unfolding pre_dominators_do_job_def ir_basicblock_count_def Let_def n_def [symmetric] e
    by (simp add: numeral_2_eq_2)
  with t(3) show ?thesis by (simp add: edges_below_def)
qed

lemma walk_cong:
  assumes "\<And>i. i \<le> n \<Longrightarrow> P i = P' i" and "\<And>i k. i \<le> n \<Longrightarrow> k \<in> set (P i) \<Longrightarrow> k \<le> n"
  shows "walk P h i p \<Longrightarrow> i \<le> n \<Longrightarrow> walk P' h i p"
proof (induction rule: walk.induct)
  case (walk_edge k p i)
  with assms show ?case by (metis walk.walk_edge)
qed (rule walk.walk_head)

lemma dominates_table:
  assumes m: "simple_method m" and i: "i \<le> ir_instr_count m"
  shows "reach ((!) (map (predecessors m) [0..<ir_instr_count m + 1])) 0 i \<longleftrightarrow> reach (predecessors m) 0 i"
    "dominates ((!) (map (predecessors m) [0..<ir_instr_count m + 1])) 0 d i \<longleftrightarrow> dominates (predecessors m) 0 d i"
proof -
  have "walk ((!) (map (predecessors m) [0..<ir_instr_count m + 1])) 0 i p \<longleftrightarrow> walk (predecessors m) 0 i p" for p
  proof
    show "walk (predecessors m) 0 i p" if "walk ((!) (map (predecessors m) [0..<ir_instr_count m + 1])) 0 i p"
      by (rule walk_cong [OF _ _ that i]) (use nth_table predecessors_bound [OF m] in \<open>auto simp del: upt_Suc\<close>)
    show "walk ((!) (map (predecessors m) [0..<ir_instr_count m + 1])) 0 i p" if "walk (predecessors m) 0 i p"
      by (rule walk_cong [OF _ _ that i]) (use nth_table predecessors_bound [OF m] in \<open>auto simp del: upt_Suc\<close>)
  qed
  then show "reach ((!) (map (predecessors m) [0..<ir_instr_count m + 1])) 0 i \<longleftrightarrow> reach (predecessors m) 0 i"
    "dominates ((!) (map (predecessors m) [0..<ir_instr_count m + 1])) 0 d i \<longleftrightarrow> dominates (predecessors m) 0 d i"
    by (simp_all add: reach_def dominates_def)
qed

section \<open>Properties\<close>

text \<open>
  C1: On every method without handlers whose blocks the block identifier has built, the plugin ends with a tree, and in the
  tree an instruction stands above (or is) an instruction that control can reach exactly when it is on every path of the
  enumerated predecessors from the first instruction to it.
\<close>

theorem pre_dominator_tree_exact:
  assumes "simple_method m" and "ir_instr_count m < 2 ^ 32" and "buildBasicBlock m old = Some info"
  shows "\<exists>preds tree. IRMETHOD_getInstructionsPredecessors m = Some preds \<and> pre_dominators_do_job m info = Some tree \<and>
    (\<forall>i\<le>ir_instr_count m. reach ((!) preds) 0 i \<longrightarrow>
       (\<forall>d. (d, i) \<in> (node_edges tree)\<^sup>* \<longleftrightarrow> dominates ((!) preds) 0 d i))"
proof -
  have n: "0 < ir_instr_count m" using simpleD(1) [OF assms(1)] .
  have "\<not> opens_block (type_at m 0)" using simpleD(2) [OF assms(1) n] by (simp add: handler_types_def opens_block_def)
  then have "blocks_of m info"
    using buildBasicBlock_covers [OF n assms(2), of old] assms(1,3) by (auto simp: blocks_of_def)
  from tree_of_instructions [OF this] obtain tree where "pre_dominators_do_job m info = Some tree"
    "\<forall>i\<le>ir_instr_count m. reach (predecessors m) 0 i \<longrightarrow>
      (\<forall>d. (d, i) \<in> (node_edges tree)\<^sup>* \<longleftrightarrow> dominates (predecessors m) 0 d i)" by blast
  then show ?thesis
    unfolding getInstructionsPredecessors_eq [OF assms(1)]
    using dominates_table [OF assms(1)]
    by (intro exI [of _ "map (predecessors m) [0..<ir_instr_count m + 1]"] exI [of _ tree]) (simp del: upt_Suc)
qed

theorem pre_dominator_tree_exact_witness:
  "\<exists>info tree. buildBasicBlock demo \<lparr>basicBlocks = [], instructionsBasicBlocksMap = []\<rparr> = Some info \<and>
    pre_dominators_do_job demo info = Some tree \<and> (0, 1) \<in> (node_edges tree)\<^sup>*"
proof -
  have n: "ir_instr_count demo = 8" and f: "\<not> opens_block (type_at demo 0)"
    by (simp_all add: demo_simps opens_block_def)
  have b: "ir_instr_count demo < 2 ^ 32" unfolding n by simp
  obtain info where i: "buildBasicBlock demo \<lparr>basicBlocks = [], instructionsBasicBlocksMap = []\<rparr> = Some info"
    using buildBasicBlock_covers [OF _ b f] n by (metis zero_less_numeral)
  from pre_dominator_tree_exact [OF demo_simple b i] obtain preds tree where
    t: "IRMETHOD_getInstructionsPredecessors demo = Some preds" "pre_dominators_do_job demo info = Some tree"
      "\<forall>i\<le>8. reach ((!) preds) 0 i \<longrightarrow> (\<forall>d. (d, i) \<in> (node_edges tree)\<^sup>* \<longleftrightarrow> dominates ((!) preds) 0 d i)"
    unfolding n by blast
  have "\<not> block_cut demo 1"
    by (simp add: demo_simps opens_block_def block_cut_def closes_after_def ir_instr_is_a_jump_instruction_def
        IRMETHOD_isACallInstruction_def IRMETHOD_isAJumpInstructionType_def mayInstructionOfTypeThrowException_def)
  then have "predecessors demo 1 = [0]" using straight_line(2) [OF demo_simple, of 0] n by simp
  then have "preds ! 1 = [0]"
    using t(1) nth_table [of 1 "ir_instr_count demo" "predecessors demo"] n
    unfolding getInstructionsPredecessors_eq [OF demo_simple] by auto
  then have "walk ((!) preds) 0 1 [1, 0]" using walk_edge [OF walk_head, of 0 "(!) preds" 1] by simp
  then have "reach ((!) preds) 0 1" by (auto simp: reach_def)
  with t(3) head_dominates have "(0, 1) \<in> (node_edges tree)\<^sup>*" by simp
  with i t(2) show ?thesis by blast
qed

end
