(* ===== verification/PostDominators.thy ===== *)
theory PostDominators
  imports PreDominators
begin

text \<open>
  The post-dominator tree of the instructions of a method, after \<open>optimizer-postdominators/src/post_dominators.c\<close>. The dominance
  library is called with the two neighbour functions exchanged and with an artificial block, the fake head, in
  front of the array; the blocks where the method may end lead to it. In the array \<open>None\<close> is the fake head and \<open>Some b\<close> the
  block at position \<open>b\<close>. The fields of the fake head are never read.
\<close>

section \<open>The plugin\<close>

text \<open>The next element of a \<open>XanList\<close> after the first item that holds \<open>c\<close>.\<close>

definition next_in :: "nat list \<Rightarrow> nat \<Rightarrow> nat option" where
  "next_in xs c = (case dropWhile (\<lambda>x. x \<noteq> c) xs of _ # d # _ \<Rightarrow> Some d | _ \<Rightarrow> None)"

definition post_getPredecessor :: "ir_method \<Rightarrow> block_info \<Rightarrow> nat list \<Rightarrow> nat option neighbours" where
  "post_getPredecessor m info terminators elem cur =
     (case elem of
        None \<Rightarrow>
          (case cur of
             None \<Rightarrow> (case terminators of [] \<Rightarrow> None | t # _ \<Rightarrow> Some (Some t))
           | Some None \<Rightarrow> None
           | Some (Some c) \<Rightarrow> map_option Some (next_in terminators c))
      | Some bb \<Rightarrow>
          let bb_head = startInst (basicBlocks info ! bb);
              curr_bb_tail = (case cur of Some (Some c) \<Rightarrow> Some (endInst (basicBlocks info ! c)) | _ \<Rightarrow> None)
          in case ir_instr_get_predecessor m bb_head curr_bb_tail None of
               Some (Some pred, _) \<Rightarrow> map_option Some (IRMETHOD_getBasicBlockContainingInstruction info pred)
             | _ \<Rightarrow> None)"

definition post_getSuccessor :: "ir_method \<Rightarrow> block_info \<Rightarrow> nat list \<Rightarrow> nat option neighbours" where
  "post_getSuccessor m info terminators elem cur =
     (case elem of
        None \<Rightarrow> None
      | Some bb \<Rightarrow>
          if bb \<in> set terminators then (if cur = None then Some None else None)
          else
            let bb_tail = endInst (basicBlocks info ! bb);
                curr_bb_head = (case cur of Some (Some c) \<Rightarrow> Some (startInst (basicBlocks info ! c)) | _ \<Rightarrow> None)
            in case fst (ir_instr_get_successor m bb_tail curr_bb_head None) of
                 None \<Rightarrow> None
               | Some succ \<Rightarrow> map_option Some (IRMETHOD_getBasicBlockContainingInstruction info succ))"

definition isExitPoint :: "ir_method \<Rightarrow> ir_basic_block \<Rightarrow> bool" where
  "isExitPoint m bb =
     (if type_at m (endInst bb) = IREXITNODE then True
      else case fst (ir_instr_get_successor m (endInst bb) None None) of
             None \<Rightarrow> True
           | Some succ \<Rightarrow> type_at m succ = IREXITNODE)"

text \<open>The counter of the loop is signed; the model is the code's for methods of less than \<open>2 ^ 31\<close> instructions.\<close>

definition post_explode_block :: "ir_basic_block \<Rightarrow> nat option \<Rightarrow> calls \<times> nat option" where
  "post_explode_block block currNode =
     fold (\<lambda>i (edges, currNode). (edges @ [(currNode, i)], Some i)) (rev [startInst block..<endInst block + 1]) ([], currNode)"

definition collect_terminators :: "ir_method \<Rightarrow> block_info \<Rightarrow> nat list" where
  "collect_terminators m info =
     fold (\<lambda>i terminators. case ir_basicblock_get info (i - 1) of
         None \<Rightarrow> terminators
       | Some bb \<Rightarrow> if isExitPoint m bb then terminators @ [pos bb] else terminators)
       [1..<ir_basicblock_count info + 1] []"

text \<open>The block a node of the tree of the blocks holds, by its position in the array; the fake head holds none.\<close>

definition post_block_of :: "block_info \<Rightarrow> nat \<Rightarrow> ir_basic_block option" where
  "post_block_of info b = (if b = 0 then None else ir_basicblock_get info (b - 1))"

text \<open>
  The outer option is the call of \<open>abort\<close> for a method without a block to end at, the inner one a tree that is
  not built. The first node of the tree (the parent \<open>None\<close>) holds the exit node, and so does the node that is added last.
\<close>

definition post_dominators_do_job :: "ir_method \<Rightarrow> block_info \<Rightarrow> calls option option" where
  "post_dominators_do_job m info =
     (let numElems = ir_basicblock_count info;
          terminators = collect_terminators m info;
          blocchi = None # map (\<lambda>i. map_option pos (ir_basicblock_get info (i - 1))) [1..<numElems + 1]
      in if numElems = 0 then Some None
         else if terminators = [] then None
         else do {
           links \<leftarrow> calculateDominanceTree blocchi 0 (post_getSuccessor m info terminators) (post_getPredecessor m info terminators);
           tree \<leftarrow> explode post_explode_block (numElems + 2) (children_in links) (post_block_of info) 0 None;
           Some (Some (tree @ [(None, ir_instr_count m)]))
         })"

section \<open>The graph of the blocks\<close>

abbreviation ends_at :: "ir_method \<Rightarrow> block_info \<Rightarrow> nat \<Rightarrow> bool" where
  "ends_at m info b \<equiv> isExitPoint m (basicBlocks info ! b)"

definition post_preds :: "ir_method \<Rightarrow> block_info \<Rightarrow> nat \<Rightarrow> nat list" where
  "post_preds m info k =
     (if k = 0 \<or> length (basicBlocks info) < k then []
      else if ends_at m info (k - 1) then [0]
      else map (\<lambda>s. blk info s + 1) (successors m (tail_of info (k - 1))))"

definition post_succs :: "ir_method \<Rightarrow> block_info \<Rightarrow> nat \<Rightarrow> nat list" where
  "post_succs m info k =
     (if k = 0 then map Suc (collect_terminators m info)
      else map (\<lambda>p. blk info p + 1) (predecessors m (head_of info (k - 1))))"

definition post_elems :: "block_info \<Rightarrow> nat option list" where
  "post_elems info = None # map Some [0..<length (basicBlocks info)]"

lemma post_elems_nth [simp]: "post_elems info ! 0 = None"
  "b < length (basicBlocks info) \<Longrightarrow> post_elems info ! Suc b = Some b" "length (post_elems info) = length (basicBlocks info) + 1"
  by (simp_all add: post_elems_def)

lemma collect_terminators_eq:
  assumes "blocks_of m info"
  shows "collect_terminators m info = filter (ends_at m info) [0..<length (basicBlocks info)]"
proof -
  note D = blocks_ofD [OF assms]
  have "k \<le> length (basicBlocks info) \<Longrightarrow>
    fold (\<lambda>i terminators. case ir_basicblock_get info (i - 1) of
         None \<Rightarrow> terminators
       | Some bb \<Rightarrow> if isExitPoint m bb then terminators @ [pos bb] else terminators) [1..<k + 1] [] =
    filter (ends_at m info) [0..<k]" for k
  proof (induction k)
    case (Suc k)
    have "[1..<Suc k + 1] = [1..<k + 1] @ [Suc k]" by simp
    with Suc D(8) [of k] show ?case by (simp add: ir_basicblock_get_def del: upt_Suc) (simp add: upt_Suc)
  qed simp
  then show ?thesis by (simp add: collect_terminators_def ir_basicblock_count_def)
qed

lemma enumerates_list:
  assumes d: "distinct (ys @ xs)" and start: "ys = [] \<Longrightarrow> f prev = (case xs of [] \<Rightarrow> None | x # _ \<Rightarrow> Some (g x))"
    and step: "ys \<noteq> [] \<Longrightarrow> prev = Some (g (last ys))"
    and "\<And>c. f (Some (g c)) = map_option g (next_in (ys @ xs) c)"
  shows "enumerates f prev (map g xs)"
  using assms
proof (induction xs arbitrary: ys prev)
  case Nil
  then show ?case
  proof (cases ys rule: rev_cases)
    case (snoc zs z)
    then have "dropWhile (\<lambda>x. x \<noteq> z) ys = [z]" using Nil(1) by (subst snoc, subst dropWhile_append2) auto
    then show ?thesis using Nil(3,4) snoc by (simp add: next_in_def)
  qed simp
next
  case (Cons x xs)
  have "enumerates f (Some (g x)) (map g xs)"
    by (rule Cons.IH [of "ys @ [x]"]) (use Cons.prems in simp_all)
  moreover have "f prev = Some (g x)"
  proof (cases ys rule: rev_cases)
    case Nil
    then show ?thesis using Cons.prems(2) by simp
  next
    case (snoc zs z)
    then have "dropWhile (\<lambda>x. x \<noteq> z) (ys @ x # xs) = z # x # xs" using Cons.prems(1)
      by (simp add: dropWhile_append)
    then show ?thesis using Cons.prems(3,4) snoc by (simp add: next_in_def)
  qed
  ultimately show ?case by simp
qed

lemma enumerates_terminators:
  assumes b: "blocks_of m info"
  shows "enumerates (post_getPredecessor m info (collect_terminators m info) None) None (map Some (collect_terminators m info))"
proof (rule enumerates_list [where ys = "[]"])
  show "distinct ([] @ collect_terminators m info)" unfolding collect_terminators_eq [OF b] by simp
qed (auto simp: post_getPredecessor_def split: list.splits)

lemma exit_ends_successors:
  assumes "i \<le> ir_instr_count m" and "successors m i = ir_instr_count m # xs"
  shows "xs = []"
proof -
  have "enumerates (succ_step m i) (Some (ir_instr_count m)) xs" using enumerates_successors [OF assms(1)] assms(2) by simp
  moreover have "succ_step m i (Some (ir_instr_count m)) = None" by (simp add: succ_step_def ir_instr_get_successor_def)
  ultimately show ?thesis by (cases xs) auto
qed

lemma exit_point_iff:
  assumes b: "blocks_of m info" and k: "k < length (basicBlocks info)"
  shows "ends_at m info k \<longleftrightarrow> tail_of info k = ir_instr_count m \<or> successors m (tail_of info k) = [] \<or>
    successors m (tail_of info k) = [ir_instr_count m]"
proof -
  note D = blocks_ofD [OF b]
  have t: "tail_of info k \<le> ir_instr_count m" by (rule D(6) [OF k])
  have ex: "type_at m i = IREXITNODE \<longleftrightarrow> i = ir_instr_count m" if "i \<le> ir_instr_count m" for i
    using simpleD(2) [OF D(1), of i] that by (cases "i = ir_instr_count m") (auto simp: handler_types_def)
  have e: "enumerates (succ_step m (tail_of info k)) None (successors m (tail_of info k))" by (rule enumerates_successors [OF t])
  show ?thesis
  proof (cases "successors m (tail_of info k)")
    case Nil
    with e have "succ_step m (tail_of info k) None = None" by simp
    with Nil show ?thesis by (simp add: isExitPoint_def succ_step_def)
  next
    case (Cons s xs)
    with e have f: "succ_step m (tail_of info k) None = Some s" by simp
    have "s \<le> ir_instr_count m" using successors_le [OF t, of s] Cons by simp
    moreover have "xs = []" if "s = ir_instr_count m" using exit_ends_successors [OF t] Cons that by simp
    ultimately show ?thesis using Cons f ex t by (auto simp: isExitPoint_def succ_step_def)
  qed
qed

lemma enumerates_post_succs:
  assumes b: "blocks_of m info" and k: "k < length (basicBlocks info)"
  shows "enumerates (post_getSuccessor m info (collect_terminators m info) (Some k)) None
    (map ((!) (post_elems info)) (post_preds m info (Suc k)))"
proof (cases "ends_at m info k")
  case True
  then have "k \<in> set (collect_terminators m info)" using k unfolding collect_terminators_eq [OF b] by simp
  with True k show ?thesis by (simp add: post_getSuccessor_def post_preds_def)
next
  case False
  note D = blocks_ofD [OF b]
  have nt: "k \<notin> set (collect_terminators m info)" using False unfolding collect_terminators_eq [OF b] by simp
  define hd_of where "hd_of cur = (case cur of Some (Some c) \<Rightarrow> Some (head_of info c) | _ \<Rightarrow> None)" for cur :: "nat option option"
  have "enumerates (post_getSuccessor m info (collect_terminators m info) (Some k)) None
      (map (\<lambda>p. Some (blk info p)) (successors m (tail_of info k)))"
  proof (rule enumerates_image [where f = "succ_step m (tail_of info k)" and k = hd_of])
    show "post_getSuccessor m info (collect_terminators m info) (Some k) q =
        Option.bind (succ_step m (tail_of info k) (hd_of q)) (\<lambda>p. map_option Some (IRMETHOD_getBasicBlockContainingInstruction info p))" for q
      using nt by (auto simp: post_getSuccessor_def hd_of_def succ_step_def Let_def split: option.split)
    show "enumerates (succ_step m (tail_of info k)) (hd_of None) (successors m (tail_of info k))"
      using enumerates_successors D(6) [OF k] by (simp add: hd_of_def)
    show "map_option Some (IRMETHOD_getBasicBlockContainingInstruction info s) = Some (Some (blk info s)) \<and>
        hd_of (Some (Some (blk info s))) = Some s" if s: "s \<in> set (successors m (tail_of info k))" for s
      using succ_of_tail [OF b k s] D(10) [of s] by (simp add: hd_of_def)
  qed
  moreover have "map ((!) (post_elems info)) (post_preds m info (Suc k)) = map (\<lambda>p. Some (blk info p)) (successors m (tail_of info k))"
    using False k succ_of_tail(1) [OF b k] D(2) by (simp add: post_preds_def)
  ultimately show ?thesis by simp
qed

lemma enumerates_post_preds:
  assumes b: "blocks_of m info" and k: "k < length (basicBlocks info)"
  shows "enumerates (post_getPredecessor m info ts (Some k)) None (map ((!) (post_elems info)) (post_succs m info (Suc k)))"
proof -
  note D = blocks_ofD [OF b]
  have "post_getPredecessor m info ts (Some k) = pre_getPredecessor m info (Some k)"
    by (simp add: post_getPredecessor_def pre_getPredecessor_def fun_eq_iff)
  moreover have "map ((!) (post_elems info)) (post_succs m info (Suc k)) = map Some (block_preds m info k)"
    using k predecessors_bound [OF D(1) head_bound [OF b k]] D(2) by (simp add: post_succs_def block_preds_def)
  ultimately show ?thesis using enumerates_block_preds [OF b k] by simp
qed

lemma post_graph:
  assumes b: "blocks_of m info"
  shows "neighbour_functions (post_elems info) 0 (post_getSuccessor m info (collect_terminators m info))
    (post_getPredecessor m info (collect_terminators m info)) (post_preds m info) (post_succs m info)"
proof -
  note D = blocks_ofD [OF b]
  let ?n = "length (basicBlocks info)"
  let ?T = "collect_terminators m info"
  have T: "t \<in> set ?T \<longleftrightarrow> t < ?n \<and> ends_at m info t" for t unfolding collect_terminators_eq [OF b] by auto
  have start: "reach (post_preds m info) 0 0" using walk_head by (auto simp: reach_def)
  have ended: "reach (post_preds m info) 0 (Suc k)" if "k < ?n" "ends_at m info k" for k
    by (rule reach_edge [OF start]) (use that in \<open>simp add: post_preds_def\<close>)
  show ?thesis
    unfolding neighbour_functions_def
  proof (intro conjI allI impI ballI)
    show "distinct (post_elems info)" by (auto simp: post_elems_def distinct_map)
    show "k < length (post_elems info)" if "i < length (post_elems info)" "k \<in> set (post_preds m info i)" for i k
    proof (cases i)
      case (Suc l)
      then show ?thesis using that succ_of_tail(1) [OF b, of l] D(2) by (auto simp: post_preds_def split: if_splits)
    qed (use that in \<open>simp add: post_preds_def\<close>)
    show "i \<in> set (post_succs m info k)" if i: "i < length (post_elems info)" "k \<in> set (post_preds m info i)" for i k
    proof (cases i)
      case (Suc l)
      then have l: "l < ?n" using i(1) by simp
      show ?thesis
      proof (cases "ends_at m info l")
        case True
        then have "k = 0" using i(2) Suc l by (simp add: post_preds_def)
        then show ?thesis using True l Suc T by (simp add: post_succs_def)
      next
        case False
        then obtain s where s: "s \<in> set (successors m (tail_of info l))" "k = blk info s + 1"
          using i(2) Suc l by (auto simp: post_preds_def)
        note sh = succ_of_tail [OF b l s(1)]
        have "tail_of info l \<in> set (predecessors m (head_of info (blk info s)))"
          using simple_edges [OF D(1) sh(1) D(6) [OF l]] s(1) sh(2) by simp
        moreover have "blk info (tail_of info l) = l" using D(7) [OF l D(5) [OF l] order_refl] .
        ultimately show ?thesis using s(2) Suc by (force simp: post_succs_def)
      qed
    qed (use i in \<open>simp add: post_preds_def\<close>)
    fix i assume i: "i < length (post_elems info)" "reach (post_preds m info) 0 i"
    show "enumerates (post_getSuccessor m info ?T (post_elems info ! i)) None (map ((!) (post_elems info)) (post_preds m info i))"
    proof (cases i)
      case 0
      then show ?thesis by (simp add: post_getSuccessor_def post_preds_def)
    next
      case (Suc l)
      then show ?thesis using enumerates_post_succs [OF b, of l] i(1) by simp
    qed
    show "enumerates (post_getPredecessor m info ?T (post_elems info ! i)) None (map ((!) (post_elems info)) (post_succs m info i))"
    proof (cases i)
      case 0
      have "map ((!) (post_elems info)) (post_succs m info 0) = map Some ?T" using T by (simp add: post_succs_def)
      with 0 enumerates_terminators [OF b] show ?thesis by simp
    next
      case (Suc l)
      then show ?thesis using enumerates_post_preds [OF b, of l] i(1) by simp
    qed
    fix k assume k: "k \<in> set (post_succs m info i)"
    have "k < length (post_elems info) \<and> reach (post_preds m info) 0 k"
    proof (cases i)
      case 0
      then show ?thesis using k T ended by (auto simp: post_succs_def)
    next
      case (Suc l)
      then have l: "l < ?n" using i(1) by simp
      obtain p where p: "p \<in> set (predecessors m (head_of info l))" "k = blk info p + 1"
        using k Suc by (auto simp: post_succs_def)
      note hl = head_bound [OF b l]
      have pn: "p \<le> ir_instr_count m" by (rule predecessors_bound [OF D(1) hl p(1)])
      note bp = D(2) [OF pn]
      show ?thesis
      proof (cases "ends_at m info (blk info p)")
        case True
        with ended [OF bp] p(2) bp show ?thesis by simp
      next
        case False
        have "head_of info l \<in> set (successors m (tail_of info (blk info p)))"
          using simple_edges [OF D(1) hl pn] p(1) pred_of_head [OF b l p(1) pn] by simp
        moreover have "blk info (head_of info l) = l" using D(7) [OF l order_refl D(5) [OF l]] .
        ultimately have "i \<in> set (post_preds m info k)" using False p(2) bp Suc by (force simp: post_preds_def)
        with reach_edge [OF i(2)] p(2) bp show ?thesis by simp
      qed
    qed
    then show "k < length (post_elems info)" "reach (post_preds m info) 0 k" by blast+
  qed
qed

section \<open>The graph of the instructions\<close>

text \<open>The instructions with their successors; the instructions where a block ends the method lead to the fake head, the node behind the exit node.\<close>

definition ending_edges :: "ir_method \<Rightarrow> block_info \<Rightarrow> nat \<Rightarrow> nat list" where
  "ending_edges m info i =
     (if ir_instr_count m < i then []
      else if i = tail_of info (blk info i) \<and> ends_at m info (blk info i) then [ir_instr_count m + 1]
      else successors m i)"

definition post_blk :: "ir_method \<Rightarrow> block_info \<Rightarrow> nat \<Rightarrow> nat" where
  "post_blk m info i = (if i = ir_instr_count m + 1 then 0 else blk info i + 1)"

definition post_order :: "ir_basic_block \<Rightarrow> nat list" where
  "post_order block = rev (block_order block)"

definition post_chain :: "ir_method \<Rightarrow> block_info \<Rightarrow> nat \<Rightarrow> nat list" where
  "post_chain m info k = (if k = 0 then [ir_instr_count m + 1] else post_order (basicBlocks info ! (k - 1)))"

lemma post_order_simps [simp]:
  "startInst block \<le> endInst block \<Longrightarrow> hd (post_order block) = endInst block"
  "startInst block \<le> endInst block \<Longrightarrow> last (post_order block) = startInst block"
  "set (post_order block) = {startInst block..endInst block}" "distinct (post_order block)"
  "length (post_order block) = endInst block + 1 - startInst block"
  "startInst block \<le> endInst block \<Longrightarrow> post_order block \<noteq> []"
  "startInst block + j \<le> endInst block \<Longrightarrow> post_order block ! j = endInst block - j"
  by (simp_all add: post_order_def hd_rev last_rev rev_nth)

interpretation post_graph: chain_graph "ending_edges (method_of x) (info_of x)" "ir_instr_count (method_of x) + 1"
  "{..ir_instr_count (method_of x) + 1}" "post_blk (method_of x) (info_of x)" "length (basicBlocks (info_of x)) + 1"
  "post_chain (method_of x) (info_of x)" "post_preds (method_of x) (info_of x)" for x
proof
  note b = blocked [of x]
  note D = blocks_ofD [OF b]
  let ?m = "method_of x" and ?i = "info_of x"
  let ?n = "ir_instr_count ?m"
  show "post_blk ?m ?i i < length (basicBlocks ?i) + 1" if "i \<in> {..?n + 1}" for i
    using D(2) [of i] that by (auto simp: post_blk_def)
  show "i \<in> set (post_chain ?m ?i (post_blk ?m ?i i))" if "i \<in> {..?n + 1}" for i
    using D(3,4) [of i] that by (auto simp: post_blk_def post_chain_def)
  show "post_chain ?m ?i k \<noteq> []" if "k < length (basicBlocks ?i) + 1" for k using D(5) [of "k - 1"] that by (simp add: post_chain_def)
  show "distinct (post_chain ?m ?i k)" for k by (simp add: post_chain_def)
  show "i \<in> {..?n + 1} \<and> post_blk ?m ?i i = k" if k: "k < length (basicBlocks ?i) + 1" and i: "i \<in> set (post_chain ?m ?i k)" for k i
  proof (cases k)
    case (Suc l)
    then have l: "l < length (basicBlocks ?i)" "head_of ?i l \<le> i" "i \<le> tail_of ?i l" using k i by (simp_all add: post_chain_def)
    with D(6) [OF l(1)] D(7) [OF l] Suc show ?thesis by (simp add: post_blk_def)
  qed (use i in \<open>simp add: post_chain_def post_blk_def\<close>)
  show "ending_edges ?m ?i (post_chain ?m ?i k ! Suc j) = [post_chain ?m ?i k ! j]"
    if k: "k < length (basicBlocks ?i) + 1" and j: "Suc j < length (post_chain ?m ?i k)" for k j
  proof (cases k)
    case (Suc l)
    then have l: "l < length (basicBlocks ?i)" and jl: "head_of ?i l + Suc j \<le> tail_of ?i l"
      using k j by (simp_all add: post_chain_def)
    define i where "i = tail_of ?i l - Suc j"
    have i: "head_of ?i l \<le> i" "i + 1 \<le> tail_of ?i l" "i + 1 = tail_of ?i l - j" using jl by (simp_all add: i_def)
    have bi: "blk ?i i = l" by (rule D(7) [OF l i(1)]) (use i in simp)
    have n: "i < ?n" using i(2) D(6) [OF l] by simp
    have "\<not> block_cut ?m (i + 1)" by (rule D(9) [OF l]) (use i in simp_all)
    from straight_line(1) [OF D(1) n this] have "ending_edges ?m ?i i = [i + 1]" using i(2) n bi by (simp add: ending_edges_def)
    with Suc jl i(3) show ?thesis by (simp add: post_chain_def i_def)
  qed (use j in \<open>simp add: post_chain_def\<close>)
  have ends: "ending_edges ?m ?i (tail_of ?i l) = (if ends_at ?m ?i l then [?n + 1] else successors ?m (tail_of ?i l))"
    if l: "l < length (basicBlocks ?i)" for l
    using D(6) [OF l] D(7) [OF l D(5) [OF l] order_refl] by (simp add: ending_edges_def)
  show "q \<in> {..?n + 1} \<and> last (post_chain ?m ?i (post_blk ?m ?i q)) = q"
    if k: "k < length (basicBlocks ?i) + 1" and q: "q \<in> set (ending_edges ?m ?i (hd (post_chain ?m ?i k)))" for k q
  proof (cases k)
    case 0
    with q show ?thesis by (simp add: post_chain_def ending_edges_def)
  next
    case (Suc l)
    then have l: "l < length (basicBlocks ?i)" using k by simp
    have q': "q \<in> set (if ends_at ?m ?i l then [?n + 1] else successors ?m (tail_of ?i l))"
      using q Suc D(5) [OF l] ends [OF l] by (simp add: post_chain_def)
    show ?thesis
    proof (cases "ends_at ?m ?i l")
      case False
      then have s: "q \<in> set (successors ?m (tail_of ?i l))" using q' by simp
      from succ_of_tail [OF b l s] D(5) [OF D(2), of q] show ?thesis by (simp add: post_blk_def post_chain_def)
    qed (use q' in \<open>simp add: post_blk_def post_chain_def\<close>)
  qed
  show "set (post_preds ?m ?i k) = post_blk ?m ?i ` set (ending_edges ?m ?i (hd (post_chain ?m ?i k)))"
    if k: "k < length (basicBlocks ?i) + 1" for k
  proof (cases k)
    case 0
    then show ?thesis by (simp add: post_chain_def post_preds_def ending_edges_def)
  next
    case (Suc l)
    then have l: "l < length (basicBlocks ?i)" using k by simp
    show ?thesis
    proof (cases "ends_at ?m ?i l")
      case False
      have "post_blk ?m ?i s = blk ?i s + 1" if "s \<in> set (successors ?m (tail_of ?i l))" for s
        using succ_of_tail(1) [OF b l that] by (simp add: post_blk_def)
      then show ?thesis using False l Suc D(5) [OF l] ends [OF l] by (auto simp: post_chain_def post_preds_def image_iff)
    qed (use l Suc D(5) [OF l] ends [OF l] in \<open>simp add: post_chain_def post_preds_def post_blk_def\<close>)
  qed
  show "?n + 1 \<in> {..?n + 1}" by simp
  show "hd (post_chain ?m ?i (post_blk ?m ?i (?n + 1))) = ?n + 1" by (simp add: post_blk_def post_chain_def)
qed

section \<open>The tree of the instructions\<close>

interpretation post_unroll: block_explosion post_explode_block post_order
proof
  show "post_explode_block block cur = (chain_calls (post_order block) cur, Some (last (post_order block)))"
    if "startInst block \<le> endInst block" for block cur
    using that fold_chain_calls [of "post_order block" "[]" cur]
    by (simp add: post_explode_block_def post_order_def block_order_def del: upt_Suc)
qed simp

interpretation post_tree: exploded_chains post_explode_block post_order
  "ending_edges (method_of x) (info_of x)" "ir_instr_count (method_of x) + 1"
  "{..ir_instr_count (method_of x) + 1}" "post_blk (method_of x) (info_of x)" "length (basicBlocks (info_of x)) + 1"
  "post_chain (method_of x) (info_of x)" "post_preds (method_of x) (info_of x)"
  "post_block_of (info_of x)" "Some (ir_instr_count (method_of x) + 1)" for x
proof
  note b = blocked [of x]
  let ?m = "method_of x" and ?i = "info_of x"
  show "post_blk ?m ?i (ir_instr_count ?m + 1) = 0" by (simp add: post_blk_def)
  show "k < length (basicBlocks ?i) + 1 \<and> startInst block \<le> endInst block \<and> post_chain ?m ?i k = post_order block"
    if "post_block_of ?i k = Some block" for k block
    using that blocks_ofD(5) [OF b, of "k - 1"]
    by (auto simp: post_block_of_def ir_basicblock_get_def post_chain_def split: if_splits)
  show "k = 0 \<and> Some (ir_instr_count ?m + 1) = Some (last (post_chain ?m ?i 0)) \<and> length (post_chain ?m ?i 0) = 1"
    if "k < length (basicBlocks ?i) + 1" "post_block_of ?i k = None" for k
    using that by (auto simp: post_block_of_def ir_basicblock_get_def post_chain_def split: if_splits)
qed (simp add: post_block_of_def)

text \<open>The exit block always ends the method, so the plugin never aborts.\<close>

lemma some_terminator:
  assumes b: "blocks_of m info"
  shows "collect_terminators m info \<noteq> []"
proof -
  note D = blocks_ofD [OF b]
  have e: "blk info (ir_instr_count m) < length (basicBlocks info)" using D(2) by simp
  have "tail_of info (blk info (ir_instr_count m)) = ir_instr_count m" using D(4) [of "ir_instr_count m"] D(6) [OF e] by simp
  then have "ends_at m info (blk info (ir_instr_count m))" using exit_point_iff [OF b e] by simp
  then have "blk info (ir_instr_count m) \<in> set (collect_terminators m info)" using e unfolding collect_terminators_eq [OF b] by simp
  then show ?thesis by auto
qed

lemma post_tree_of_instructions:
  assumes b: "blocks_of m info"
  shows "\<exists>tree. post_dominators_do_job m info = Some (Some (tree @ [(None, ir_instr_count m)])) \<and>
    (\<forall>i\<le>ir_instr_count m + 1. reach (ending_edges m info) (ir_instr_count m + 1) i \<longrightarrow>
      (\<forall>d. (d, i) \<in> (edges_below (Some (ir_instr_count m + 1)) tree)\<^sup>* \<longleftrightarrow>
         dominates (ending_edges m info) (ir_instr_count m + 1) d i))"
proof -
  define n where "n = length (basicBlocks info)"
  obtain x where x: "method_of x = m" "info_of x = info" using b by (rule blocked_cases)
  have n: "0 < n" using first_block(1) [OF b] by (simp add: n_def)
  have l: "length (post_elems info) = n + 1" by (simp add: n_def)
  have "map (\<lambda>i. map_option pos (ir_basicblock_get info (i - 1))) [1..<n + 1] = map (\<lambda>i. map_option pos (ir_basicblock_get info i)) [0..<n]"
    by (rule nth_equalityI) (simp_all del: upt_Suc)
  moreover have "\<dots> = map Some [0..<n]" using blocks_ofD(8) [OF b] by (auto simp: n_def ir_basicblock_get_def)
  ultimately have e: "None # map (\<lambda>i. map_option pos (ir_basicblock_get info (i - 1))) [1..<n + 1] = post_elems info"
    by (simp add: post_elems_def n_def)
  let ?S = "post_getSuccessor m info (collect_terminators m info)" and ?P = "post_getPredecessor m info (collect_terminators m info)"
  from post_tree.exploded_dominance [of "post_elems info" ?S ?P x "post_succs m info"] post_graph [OF b] obtain links tree where
    t: "calculateDominanceTree (post_elems info) 0 ?S ?P = Some links"
      "explode post_explode_block (n + 2) (children_in links) (post_block_of info) 0 None = Some tree"
      "\<forall>i\<in>{..ir_instr_count m + 1}. reach (ending_edges m info) (ir_instr_count m + 1) i \<longrightarrow>
         (\<forall>d. (d, i) \<in> (edges_below (Some (ir_instr_count m + 1)) tree)\<^sup>* \<longleftrightarrow>
           dominates (ending_edges m info) (ir_instr_count m + 1) d i)"
    unfolding x l by (auto simp: n_def)
  have "post_dominators_do_job m info = Some (Some (tree @ [(None, ir_instr_count m)]))"
    using t(1,2) n some_terminator [OF b]
    unfolding post_dominators_do_job_def ir_basicblock_count_def Let_def n_def [symmetric] e
    by (simp del: explode.simps)
  with t(3) show ?thesis by auto
qed

section \<open>Paths to the exit\<close>

text \<open>
  A path along the successors from an instruction to the exit node \<open>n\<close>, or to an instruction without successors.
\<close>

inductive exit_path :: "nat \<Rightarrow> (nat \<Rightarrow> nat list) \<Rightarrow> nat \<Rightarrow> nat list \<Rightarrow> bool" for n S where
  exit_end: "i = n \<or> S i = [] \<Longrightarrow> exit_path n S i [i]"
| exit_step: "i \<noteq> n \<Longrightarrow> k \<in> set (S i) \<Longrightarrow> exit_path n S k p \<Longrightarrow> exit_path n S i (i # p)"

lemma walk_exit_path:
  assumes b: "blocks_of m info"
  shows "walk (ending_edges m info) (ir_instr_count m + 1) i p \<Longrightarrow> i \<le> ir_instr_count m \<Longrightarrow>
    \<exists>p'. exit_path (ir_instr_count m) (successors m) i p' \<and> set p' \<inter> {..<ir_instr_count m} = set p \<inter> {..<ir_instr_count m}"
proof (induction rule: walk.induct)
  case (walk_edge k p i)
  note D = blocks_ofD [OF b]
  let ?n = "ir_instr_count m"
  show ?case
  proof (cases "i = tail_of info (blk info i) \<and> ends_at m info (blk info i)")
    case True
    then have k: "k = ?n + 1" using walk_edge.hyps(2) walk_edge.prems by (simp add: ending_edges_def)
    have p: "set p \<inter> {..<?n} = {}"
      using walk_edge.hyps(1) unfolding k by (cases rule: walk.cases) (auto simp: ending_edges_def)
    have "i = ?n \<or> successors m i = [] \<or> successors m i = [?n]"
      using True exit_point_iff [OF b D(2) [OF walk_edge.prems]] by auto
    then consider "i = ?n \<or> successors m i = []" | "i \<noteq> ?n" "successors m i = [?n]" by blast
    then show ?thesis
    proof cases
      case 1
      then have "exit_path ?n (successors m) i [i]" by (rule exit_end)
      then show ?thesis using p by (intro exI [of _ "[i]"]) auto
    next
      case 2
      have "exit_path ?n (successors m) i [i, ?n]" by (rule exit_step [OF 2(1) _ exit_end]) (use 2 in simp_all)
      then show ?thesis using p by (intro exI [of _ "[i, ?n]"]) auto
    qed
  next
    case False
    then have k: "k \<in> set (successors m i)" using walk_edge.hyps(2) walk_edge.prems by (auto simp: ending_edges_def split: if_splits)
    have ni: "i \<noteq> ?n"
    proof
      assume "i = ?n"
      then show False using k simpleD(1) [OF D(1)] by (simp add: successors_def)
    qed
    have kn: "k \<le> ?n" by (rule successors_le [OF walk_edge.prems k])
    from walk_edge.IH [OF kn] obtain p' where p': "exit_path ?n (successors m) k p'" "set p' \<inter> {..<?n} = set p \<inter> {..<?n}" by blast
    have "set (i # p') \<inter> {..<?n} = set (i # p) \<inter> {..<?n}" using p'(2) by auto
    with exit_step [OF ni k p'(1)] show ?thesis by blast
  qed
qed simp

lemma exit_path_walk:
  assumes b: "blocks_of m info"
  shows "exit_path (ir_instr_count m) (successors m) i p \<Longrightarrow> i \<le> ir_instr_count m \<Longrightarrow>
    \<exists>p'. walk (ending_edges m info) (ir_instr_count m + 1) i p' \<and> set p' \<inter> {..<ir_instr_count m} = set p \<inter> {..<ir_instr_count m}"
proof (induction rule: exit_path.induct)
  case (exit_end i)
  note D = blocks_ofD [OF b]
  let ?n = "ir_instr_count m"
  note bi = D(2) [OF exit_end.prems]
  have t: "i = tail_of info (blk info i)"
  proof (rule ccontr)
    assume "i \<noteq> tail_of info (blk info i)"
    then have lt: "i < tail_of info (blk info i)" using D(4) [OF exit_end.prems] by simp
    have n: "i < ?n" using lt D(6) [OF bi] by simp
    have "\<not> block_cut m (i + 1)" by (rule D(9) [OF bi]) (use lt D(3) [OF exit_end.prems] in simp_all)
    from straight_line(1) [OF D(1) n this] exit_end.hyps n show False by simp
  qed
  have "ends_at m info (blk info i)" using exit_point_iff [OF b bi] exit_end.hyps t by auto
  then have "ending_edges m info i = [?n + 1]" using t exit_end.prems by (simp add: ending_edges_def)
  then have "walk (ending_edges m info) (?n + 1) i [i, ?n + 1]" using walk_edge [OF walk_head] by simp
  then show ?case by (intro exI [of _ "[i, ?n + 1]"]) auto
next
  case (exit_step i k p)
  note D = blocks_ofD [OF b]
  let ?n = "ir_instr_count m"
  note bi = D(2) [OF exit_step.prems]
  have kn: "k \<le> ?n" by (rule successors_le [OF exit_step.prems exit_step.hyps(2)])
  show ?case
  proof (cases "i = tail_of info (blk info i) \<and> ends_at m info (blk info i)")
    case True
    then have "successors m i = [?n]" using exit_point_iff [OF b bi] exit_step.hyps(1,2) by auto
    then have k: "k = ?n" using exit_step.hyps(2) by simp
    have "set p \<inter> {..<?n} = {}" using exit_step.hyps(3) unfolding k
      by (cases rule: exit_path.cases) auto
    moreover have "ending_edges m info i = [?n + 1]" using True exit_step.prems by (simp add: ending_edges_def)
    then have "walk (ending_edges m info) (?n + 1) i [i, ?n + 1]" using walk_edge [OF walk_head] by simp
    ultimately show ?thesis by (intro exI [of _ "[i, ?n + 1]"]) auto
  next
    case False
    from exit_step.IH [OF kn] obtain p' where p': "walk (ending_edges m info) (?n + 1) k p'" "set p' \<inter> {..<?n} = set p \<inter> {..<?n}" by blast
    have "k \<in> set (ending_edges m info i)" using False exit_step by (auto simp: ending_edges_def)
    from walk_edge [OF p'(1) this] have "walk (ending_edges m info) (?n + 1) i (i # p')" .
    moreover have "set (i # p') \<inter> {..<?n} = set (i # p) \<inter> {..<?n}" using p'(2) by auto
    ultimately show ?thesis by blast
  qed
qed

lemma path_below_fake_head:
  assumes "(d, i) \<in> (edges_below (Some h) tree)\<^sup>*" and "d \<noteq> h" and "\<And>x. (x, h) \<in> (edges_below (Some h) tree)\<^sup>* \<Longrightarrow> x = h"
  shows "(d, i) \<in> (node_edges tree)\<^sup>*"
  using assms(1)
proof (induction rule: rtrancl_induct)
  case (step c i)
  from step.hyps(1) have "c \<noteq> h" using assms(2,3) by blast
  with step.hyps(2) have "(c, i) \<in> node_edges tree" by (auto simp: edges_below_def)
  with step.IH show ?case by (rule rtrancl_into_rtrancl)
qed simp

lemma exit_path_table:
  "i \<le> ir_instr_count m \<Longrightarrow> exit_path (ir_instr_count m) ((!) (map (successors m) [0..<ir_instr_count m + 1])) i p \<longleftrightarrow>
    exit_path (ir_instr_count m) (successors m) i p"
proof -
  let ?S = "(!) (map (successors m) [0..<ir_instr_count m + 1])"
  have S: "?S j = successors m j" if "j \<le> ir_instr_count m" for j using nth_table [OF that] .
  have "exit_path (ir_instr_count m) ?S i p \<Longrightarrow> i \<le> ir_instr_count m \<Longrightarrow> exit_path (ir_instr_count m) (successors m) i p" for i p
  proof (induction rule: exit_path.induct)
    case (exit_end i)
    then show ?case using S by (auto intro: exit_path.exit_end)
  next
    case (exit_step i k p)
    then have k: "k \<in> set (successors m i)" using S by simp
    then have "k \<le> ir_instr_count m" using successors_le exit_step.prems by blast
    with exit_step k show ?case by (auto intro: exit_path.exit_step)
  qed
  moreover have "exit_path (ir_instr_count m) (successors m) i p \<Longrightarrow> i \<le> ir_instr_count m \<Longrightarrow> exit_path (ir_instr_count m) ?S i p" for i p
  proof (induction rule: exit_path.induct)
    case (exit_end i)
    then show ?case using S by (auto intro: exit_path.exit_end)
  next
    case (exit_step i k p)
    then have "k \<le> ir_instr_count m" using successors_le by blast
    moreover have "k \<in> set (?S i)" using exit_step S by simp
    ultimately show ?case using exit_step by (auto intro: exit_path.exit_step)
  qed
  ultimately show "i \<le> ir_instr_count m \<Longrightarrow> exit_path (ir_instr_count m) ?S i p \<longleftrightarrow> exit_path (ir_instr_count m) (successors m) i p"
    by blast
qed

section \<open>Properties\<close>

text \<open>
  C3: On every method without handlers whose blocks the block identifier has built, the plugin ends with a tree, and in the tree an
  instruction stands above (or is) an instruction from which the exit can be reached exactly when it is on every path along the
  enumerated successors from it to the exit. The way an instruction may leave the method by an exception counts as
  a path.
\<close>

theorem post_dominator_tree_exact:
  assumes "simple_method m" and "ir_instr_count m < 2 ^ 31" and "buildBasicBlock m old = Some info"
  shows "\<exists>succs tree. IRMETHOD_getInstructionsSuccessors m = Some succs \<and> post_dominators_do_job m info = Some (Some tree) \<and>
    (\<forall>i<ir_instr_count m. (\<exists>p. exit_path (ir_instr_count m) ((!) succs) i p) \<longrightarrow>
       (\<forall>d<ir_instr_count m. (d, i) \<in> (node_edges tree)\<^sup>* \<longleftrightarrow>
          (\<forall>p. exit_path (ir_instr_count m) ((!) succs) i p \<longrightarrow> d \<in> set p)))"
proof -
  let ?n = "ir_instr_count m"
  have n: "0 < ?n" "?n < 2 ^ 32" using simpleD(1) [OF assms(1)] assms(2) by simp_all
  have "\<not> opens_block (type_at m 0)" using simpleD(2) [OF assms(1) n(1)] by (simp add: handler_types_def opens_block_def)
  then have b: "blocks_of m info"
    using buildBasicBlock_covers [OF n, of old] assms(1,3) by (auto simp: blocks_of_def)
  let ?E = "ending_edges m info"
  from post_tree_of_instructions [OF b] obtain tree where t: "post_dominators_do_job m info = Some (Some (tree @ [(None, ?n)]))"
    "\<forall>i\<le>?n + 1. reach ?E (?n + 1) i \<longrightarrow> (\<forall>d. (d, i) \<in> (edges_below (Some (?n + 1)) tree)\<^sup>* \<longleftrightarrow> dominates ?E (?n + 1) d i)" by blast
  have fake: "x = ?n + 1" if "(x, ?n + 1) \<in> (edges_below (Some (?n + 1)) tree)\<^sup>*" for x
    using t(2) that walk_head [of ?E "?n + 1"] dominates_head [of ?E "?n + 1" x] by (auto simp: reach_def)
  have "(d, i) \<in> (node_edges (tree @ [(None, ?n)]))\<^sup>* \<longleftrightarrow> (\<forall>p. exit_path ?n (successors m) i p \<longrightarrow> d \<in> set p)"
    if i: "i < ?n" "exit_path ?n (successors m) i p" and d: "d < ?n" for i d p
  proof -
    note path = walk_exit_path [OF b _ less_imp_le [OF i(1)]]
    note wlk = exit_path_walk [OF b _ less_imp_le [OF i(1)]]
    have r: "reach ?E (?n + 1) i" using wlk [OF i(2)] by (auto simp: reach_def)
    have "node_edges (tree @ [(None, ?n)]) = node_edges tree" by (auto simp: node_edges_def)
    moreover have "(d, i) \<in> (node_edges tree)\<^sup>* \<longleftrightarrow> (d, i) \<in> (edges_below (Some (?n + 1)) tree)\<^sup>*"
    proof
      show "(d, i) \<in> (node_edges tree)\<^sup>*" if "(d, i) \<in> (edges_below (Some (?n + 1)) tree)\<^sup>*"
        by (rule path_below_fake_head [OF that _ fake]) (use d in simp_all)
      show "(d, i) \<in> (edges_below (Some (?n + 1)) tree)\<^sup>*" if "(d, i) \<in> (node_edges tree)\<^sup>*"
        using that rtrancl_mono [of "node_edges tree" "edges_below (Some (?n + 1)) tree"] by (auto simp: edges_below_def)
    qed
    moreover have "\<dots> \<longleftrightarrow> dominates ?E (?n + 1) d i" using t(2) i(1) r by simp
    moreover have "\<dots> \<longleftrightarrow> (\<forall>p. exit_path ?n (successors m) i p \<longrightarrow> d \<in> set p)"
      unfolding dominates_def
    proof (intro iffI allI impI)
      fix p assume a: "\<forall>p. walk ?E (?n + 1) i p \<longrightarrow> d \<in> set p" "exit_path ?n (successors m) i p"
      from wlk [OF a(2)] obtain p' where "walk ?E (?n + 1) i p'" "set p' \<inter> {..<?n} = set p \<inter> {..<?n}" by blast
      with a(1) d show "d \<in> set p" by blast
    next
      fix p assume a: "\<forall>p. exit_path ?n (successors m) i p \<longrightarrow> d \<in> set p" "walk ?E (?n + 1) i p"
      from path [OF a(2)] obtain p' where "exit_path ?n (successors m) i p'" "set p' \<inter> {..<?n} = set p \<inter> {..<?n}" by blast
      with a(1) d show "d \<in> set p" by blast
    qed
    ultimately show ?thesis by simp
  qed
  note dom = this
  define T where "T = map (successors m) [0..<?n + 1]"
  have tab: "exit_path ?n ((!) T) i p \<longleftrightarrow> exit_path ?n (successors m) i p" if "i < ?n" for i p
    unfolding T_def by (rule exit_path_table) (use that in simp)
  have "IRMETHOD_getInstructionsSuccessors m = Some T" unfolding T_def by (rule getInstructionsSuccessors_eq)
  moreover have "\<forall>i<?n. (\<exists>p. exit_path ?n ((!) T) i p) \<longrightarrow> (\<forall>d<?n.
      (d, i) \<in> (node_edges (tree @ [(None, ?n)]))\<^sup>* \<longleftrightarrow> (\<forall>p. exit_path ?n ((!) T) i p \<longrightarrow> d \<in> set p))"
  proof (intro allI impI)
    fix i d assume i: "i < ?n" and "\<exists>p. exit_path ?n ((!) T) i p" and d: "d < ?n"
    then obtain p where "exit_path ?n (successors m) i p" using tab [OF i] by blast
    from dom [OF i this d] show "(d, i) \<in> (node_edges (tree @ [(None, ?n)]))\<^sup>* \<longleftrightarrow>
        (\<forall>p. exit_path ?n ((!) T) i p \<longrightarrow> d \<in> set p)" unfolding tab [OF i] .
  qed
  ultimately show ?thesis using t(1) by blast
qed

theorem post_dominator_tree_exact_witness:
  "\<exists>info tree. buildBasicBlock demo \<lparr>basicBlocks = [], instructionsBasicBlocksMap = []\<rparr> = Some info \<and>
    post_dominators_do_job demo info = Some (Some tree) \<and> (7, 6) \<in> (node_edges tree)\<^sup>*"
proof -
  have n: "ir_instr_count demo = 8" and f: "\<not> opens_block (type_at demo 0)"
    by (simp_all add: demo_simps opens_block_def)
  have b: "ir_instr_count demo < 2 ^ 32" "ir_instr_count demo < 2 ^ 31" unfolding n by simp_all
  obtain info where i: "buildBasicBlock demo \<lparr>basicBlocks = [], instructionsBasicBlocksMap = []\<rparr> = Some info"
    using buildBasicBlock_covers [OF _ b(1) f] n by (metis zero_less_numeral)
  from post_dominator_tree_exact [OF demo_simple b(2) i] obtain succs tree where
    t: "IRMETHOD_getInstructionsSuccessors demo = Some succs" "post_dominators_do_job demo info = Some (Some tree)"
      "\<forall>i<8. (\<exists>p. exit_path 8 ((!) succs) i p) \<longrightarrow>
        (\<forall>d<8. (d, i) \<in> (node_edges tree)\<^sup>* \<longleftrightarrow> (\<forall>p. exit_path 8 ((!) succs) i p \<longrightarrow> d \<in> set p))"
    unfolding n by blast
  have s: "succs ! 6 = [7]" "succs ! 7 = [8]"
    using t(1) nth_table [of 6 "ir_instr_count demo" "successors demo"] nth_table [of 7 "ir_instr_count demo" "successors demo"]
    unfolding getInstructionsSuccessors_eq
    by (auto simp: successors_def demo_simps mayInstructionOfTypeThrowException_def simp del: upt_Suc)
  have "exit_path 8 ((!) succs) 6 [6, 7, 8]"
    by (rule exit_step [OF _ _ exit_step [OF _ _ exit_end]]) (use s in simp_all)
  then have ex: "\<exists>p. exit_path 8 ((!) succs) 6 p" by blast
  have "7 \<in> set p" if "exit_path 8 ((!) succs) 6 p" for p
    using that
  proof cases
    case (exit_step k q)
    then have "k = 7" using s by simp
    with exit_step(4) have "7 \<in> set q" by (auto elim: exit_path.cases)
    with exit_step show ?thesis by simp
  qed (use s in simp)
  then have all: "\<forall>p. exit_path 8 ((!) succs) 6 p \<longrightarrow> 7 \<in> set p" by blast
  have "(7, 6) \<in> (node_edges tree)\<^sup>* \<longleftrightarrow> (\<forall>p. exit_path 8 ((!) succs) 6 p \<longrightarrow> 7 \<in> set p)"
    using t(3) [THEN spec, of 6] ex by (simp del: all_simps)
  with all have "(7, 6) \<in> (node_edges tree)\<^sup>*" by blast
  with i t(2) show ?thesis by blast
qed

end
