(* ===== verification/ConstProp.thy ===== *)
theory ConstProp
  imports Liveness ReachDefs Variables "HOL-Library.Monad_Syntax"
begin

text \<open>
  Constant propagation, after \<open>optimizer-constantpropagation/src/constant_propagation.c\<close> and \<open>misc.c\<close>, and the table of
  definitions of \<open>libirmanager/src/ir_method.c\<close> it uses. A use of a variable is replaced by a constant when a single definition of
  the variable reaches the instruction and that definition is a move of the constant. The lemmas show that on every run
  of the method the constant is the value of the variable.
\<close>

section \<open>The table of the definitions\<close>

text \<open>The hash table maps a variable to the list of its definitions; \<open>xanList_insert\<close> puts the new element first.\<close>

definition insert_definition :: "64 word \<Rightarrow> nat \<Rightarrow> (64 word \<Rightarrow> nat list) \<Rightarrow> 64 word \<Rightarrow> nat list" where
  "insert_definition v instID defs = (if instID \<in> set (defs v) then defs else defs(v := instID # defs v))"

definition internal_getAllVariableDefinitions :: "ir_method \<Rightarrow> 64 word \<Rightarrow> nat list" where
  "internal_getAllVariableDefinitions m =
    (let defs = fold (\<lambda>instID defs.
           let v = IRMETHOD_getVariableDefinedByInstruction (ir_instr_get_by_pos m instID)
           in if v = NOPARAM_VALUE then defs else insert_definition v instID defs)
           [parametersNumber m..<ir_instr_count m] (\<lambda>_. [])
     in fold (\<lambda>instID. insert_definition (word_of_nat instID) instID) [0..<parametersNumber m] defs)"

definition internal_getSingleDefinitionReachedIn :: "rd_state \<Rightarrow> 64 word \<Rightarrow> nat \<Rightarrow> (64 word \<Rightarrow> nat list) \<Rightarrow> nat option" where
  "internal_getSingleDefinitionReachedIn rd varID instToCheck defsTable =
    (let (champion_inst, count) = fold (\<lambda>inst (champion_inst, count).
           if ir_instr_reaching_definitions_reached_in_is (rd ! instToCheck) inst then (Some inst, count + 1)
           else (champion_inst, count)) (defsTable varID) (None, 0 :: nat)
     in if count = 1 then champion_inst else None)"

section \<open>The propagation\<close>

definition forward :: "64 word \<Rightarrow> ir_item \<Rightarrow> ir_item \<Rightarrow> ir_item" where
  "forward definedValue valueToPropagate parameter =
     (if item_type parameter = IROFFSET \<and> val parameter = definedValue then valueToPropagate else parameter)"

definition internal_constant_propagation_apply :: "ir_instruction \<Rightarrow> ir_instruction \<Rightarrow> ir_instruction" where
  "internal_constant_propagation_apply store_inst use_inst =
    (let inner_type = inst_type use_inst; f = forward (val (result store_inst)) (param_1 store_inst)
     in if inner_type = IRGETADDRESS then use_inst
        else if inner_type \<in> {IRCALL, IRVCALL, IRLIBRARYCALL, IRNATIVECALL, IRICALL} then
          use_inst\<lparr>callParameters := map_option (map f) (callParameters use_inst)\<rparr>
        else
          let totalPar = ir_instr_pars_count_get use_inst in
          fold (\<lambda>parNumb inst.
            if parNumb = 2 then inst\<lparr>param_3 := f (param_3 inst)\<rparr>
            else if parNumb = 1 then inst\<lparr>param_2 := f (param_2 inst)\<rparr>
            else inst\<lparr>param_1 := f (param_1 inst)\<rparr>) [0..<totalPar] use_inst)"

text \<open>The test of one variable that an instruction uses; the outer option is a shift out of the range of \<open>int\<close>.\<close>

definition propagate_use :: "rd_state \<Rightarrow> (64 word \<Rightarrow> nat list) \<Rightarrow> escapes \<Rightarrow> nat \<Rightarrow> 64 word \<Rightarrow> ir_method \<Rightarrow> ir_method option" where
  "propagate_use rd defsTable esc instID used_var m =
     (case internal_getSingleDefinitionReachedIn rd used_var instID defsTable of
        None \<Rightarrow> Some m
      | Some d \<Rightarrow>
          let defInst = ir_instr_get_by_pos m d; definedVar = val (result defInst)
          in if inst_type defInst = IRMOVE \<and> item_type (param_1 defInst) \<noteq> IROFFSET then do {
               escaped \<leftarrow> ir_method_escapes_isVariableEscaped esc (unat (ucast definedVar :: 32 word));
               Some (if escaped \<or> unat definedVar < parametersNumber m then m
                     else m\<lparr>instructions := (instructions m)[instID :=
                       internal_constant_propagation_apply defInst (ir_instr_get_by_pos m instID)]\<rparr>)
             }
             else Some m)"

fun propagate_uses :: "rd_state \<Rightarrow> (64 word \<Rightarrow> nat list) \<Rightarrow> escapes \<Rightarrow> nat \<Rightarrow> 64 word list \<Rightarrow> ir_method \<Rightarrow> ir_method option" where
  "propagate_uses rd defsTable esc instID [] m = Some m"
| "propagate_uses rd defsTable esc instID (used_var # vars) m = do {
     m \<leftarrow> propagate_use rd defsTable esc instID used_var m;
     propagate_uses rd defsTable esc instID vars m
   }"

text \<open>The variables whose bit is set in the USE set of an instruction, block by block.\<close>

definition used_in_blocks :: "live_data \<Rightarrow> nat \<Rightarrow> 64 word list" where
  "used_in_blocks d livenessBlockNumbers =
     concat (map (\<lambda>count. map (\<lambda>count2. word_of_nat (count * 64 + count2))
       (filter (\<lambda>count2. live_use d ! count AND push_bit count2 1 = push_bit count2 1) [0..<64])) [0..<livenessBlockNumbers])"

fun propagate_instructions :: "live_state \<Rightarrow> nat \<Rightarrow> rd_state \<Rightarrow> (64 word \<Rightarrow> nat list) \<Rightarrow> escapes \<Rightarrow> nat list \<Rightarrow> ir_method \<Rightarrow> ir_method option" where
  "propagate_instructions live livenessBlockNumbers rd defsTable esc [] m = Some m"
| "propagate_instructions live livenessBlockNumbers rd defsTable esc (instID # rest) m = do {
     m \<leftarrow> propagate_uses rd defsTable esc instID (used_in_blocks (live ! instID) livenessBlockNumbers) m;
     propagate_instructions live livenessBlockNumbers rd defsTable esc rest m
   }"

definition constant_propagation :: "live_state \<Rightarrow> nat \<Rightarrow> rd_state \<Rightarrow> escapes \<Rightarrow> ir_method \<Rightarrow> ir_method option" where
  "constant_propagation live livenessBlockNumbers rd esc m =
     propagate_instructions live livenessBlockNumbers rd (internal_getAllVariableDefinitions m) esc [0..<ir_instr_count m] m"

section \<open>The definitions and the uses that are found\<close>

lemma set_insert_definition:
  "set (insert_definition v i defs w) = (if w = v then {i} else {}) \<union> set (defs w)"
  by (auto simp: insert_definition_def)

lemma set_getAllVariableDefinitions:
  assumes v: "variables_ok m"
  shows "set (internal_getAllVariableDefinitions m w) = {i. i < ir_instr_count m \<and> unat w \<in> method_defines m i}"
proof -
  let ?V = "\<lambda>i. IRMETHOD_getVariableDefinedByInstruction (ir_instr_get_by_pos m i)"
  have p: "parametersNumber m \<le> ir_instr_count m" "parametersNumber m < 2 ^ 64" using v by (simp_all add: variables_ok_def)
  have 1: "set (fold (\<lambda>i defs. let v = ?V i in if v = NOPARAM_VALUE then defs else insert_definition v i defs) xs defs w) =
      {i \<in> set xs. ?V i \<noteq> NOPARAM_VALUE \<and> w = ?V i} \<union> set (defs w)" for xs defs
    by (induction xs arbitrary: defs) (auto simp: Let_def set_insert_definition)
  have 2: "set (fold (\<lambda>i. insert_definition (word_of_nat i) i) xs defs w) = {i \<in> set xs. w = word_of_nat i} \<union> set (defs w)" for xs defs
    by (induction xs arbitrary: defs) (auto simp: set_insert_definition)
  have d: "?V i \<noteq> NOPARAM_VALUE \<and> w = ?V i \<longleftrightarrow> unat w \<in> defined_vars (ir_instr_get_by_pos m i)"
    if "i < ir_instr_count m" "parametersNumber m \<le> i" for i
    using defined_vars_value [OF defined_vars_bound(2) [OF v that]] by (auto simp: Let_def word_unat_eq_iff)
  have u: "w = word_of_nat i \<longleftrightarrow> unat w = i" if "i < parametersNumber m" for i
    using that p(2) by (auto simp: unat_of_nat)
  show ?thesis
    unfolding internal_getAllVariableDefinitions_def Let_def [of "fold _ _ _"] 2 1
  proof (rule set_eqI)
    fix i
    consider "i < parametersNumber m" | "parametersNumber m \<le> i" "i < ir_instr_count m" | "ir_instr_count m \<le> i" by linarith
    then show "i \<in> {i \<in> set [0..<parametersNumber m]. w = word_of_nat i} \<union>
        ({i \<in> set [parametersNumber m..<ir_instr_count m]. ?V i \<noteq> NOPARAM_VALUE \<and> w = ?V i} \<union> set []) \<longleftrightarrow>
      i \<in> {i. i < ir_instr_count m \<and> unat w \<in> method_defines m i}"
      by cases (use d [of i] u [of i] p(1) in \<open>simp_all add: method_defines_def\<close>)
  qed
qed

lemma single_definition:
  assumes "internal_getSingleDefinitionReachedIn rd v i defs = Some d"
  shows "d \<in> set (defs v)" "ir_instr_reaching_definitions_reached_in_is (rd ! i) d"
    "d' \<in> set (defs v) \<Longrightarrow> ir_instr_reaching_definitions_reached_in_is (rd ! i) d' \<Longrightarrow> d' = d"
proof -
  let ?R = "ir_instr_reaching_definitions_reached_in_is (rd ! i)"
  have f: "fold (\<lambda>inst (champion, count). if ?R inst then (Some inst, count + 1) else (champion, count)) xs (c, k) =
      ((case rev (filter ?R xs) of [] \<Rightarrow> c | x # _ \<Rightarrow> Some x), k + length (filter ?R xs))" for xs c and k :: nat
    by (induction xs arbitrary: c k) (auto split: list.splits)
  from assms have "length (filter ?R (defs v)) = 1" "(case rev (filter ?R (defs v)) of [] \<Rightarrow> None | x # _ \<Rightarrow> Some x) = Some d"
    unfolding internal_getSingleDefinitionReachedIn_def f by (auto split: if_splits)
  then have fl: "filter ?R (defs v) = [d]" by (cases "filter ?R (defs v)") auto
  then have s: "{x \<in> set (defs v). ?R x} = {d}" by (metis list.set(1,2) set_filter)
  then show "d \<in> set (defs v)" "?R d" by blast+
  show "d' \<in> set (defs v) \<Longrightarrow> ?R d' \<Longrightarrow> d' = d" using s by blast
qed

lemma used_in_blocks:
  assumes "w \<in> set (used_in_blocks d n)" and "length (live_use d) = n" and "n \<le> 2 ^ 32"
  shows "unat w \<in> blk_set (live_use d)"
proof -
  from assms(1) obtain c k where k: "c < n" "k < 64" "w = word_of_nat (c * 64 + k)"
    "live_use d ! c AND push_bit k 1 = push_bit k 1"
    by (auto simp: used_in_blocks_def)
  have "unat w = c * 64 + k" unfolding k(3) unat_of_nat using k(1,2) assms(3) by simp
  then have "trigger_of (unat w) = c" "mask_of (unat w) = push_bit k 1" "unat w mod 64 = k"
    using k(2) by (simp_all add: trigger_of_def mask_of_def)
  with k assms(2) show ?thesis by (metis and_mask_of_eq mem_blk_set)
qed

section \<open>Runs of a method\<close>

text \<open>
  The specification. A store gives every variable an item, its value; a run is the list of the positions control
  has passed, the last one first, with the store on entry. Of the instructions the runs fix two things: a variable that does not escape is
  changed by the instructions that define it only, and a move stores the value of its parameter. \<open>E\<close> are the variables that
  escape.
\<close>

type_synonym store = "nat \<Rightarrow> ir_item"

definition item_value :: "store \<Rightarrow> ir_item \<Rightarrow> ir_item" where
  "item_value env item = (if item_type item = IROFFSET then env (unat (val item)) else item)"

definition effect :: "ir_method \<Rightarrow> nat set \<Rightarrow> nat \<Rightarrow> store \<Rightarrow> store \<Rightarrow> bool" where
  "effect m E i env env' \<longleftrightarrow>
     (\<forall>v. v \<notin> E \<longrightarrow> v \<notin> method_defines m i \<longrightarrow> env' v = env v) \<and>
     (type_at m i = IRMOVE \<longrightarrow> (\<forall>v\<in>defined_vars (ir_instr_get_by_pos m i) - E. env' v = item_value env (param_1 (ir_instr_get_by_pos m i))))"

inductive run :: "ir_method \<Rightarrow> nat set \<Rightarrow> (nat \<times> store) list \<Rightarrow> bool" for m E where
  run_start: "run m E [(0, env)]"
| run_step: "run m E ((i, env) # r) \<Longrightarrow> i < ir_instr_count m \<Longrightarrow> k \<in> set (successors m i) \<Longrightarrow> effect m E i env env' \<Longrightarrow>
    run m E ((k, env') # (i, env) # r)"

text \<open>Every variable an instruction of the run uses has been defined before on the run.\<close>

fun initialised :: "ir_method \<Rightarrow> (nat \<times> store) list \<Rightarrow> bool" where
  "initialised m [] \<longleftrightarrow> True"
| "initialised m ((i, env) # r) \<longleftrightarrow>
     (\<forall>v\<in>method_uses m i. \<exists>x\<in>set r. v \<in> method_defines m (fst x)) \<and> initialised m r"

lemma run_suffix: "run m E (p @ x # r) \<Longrightarrow> run m E (x # r)"
proof (induction p)
  case (Cons y p)
  then have "run m E (y # (p @ x # r))" by simp
  then show ?case by cases (use Cons.IH in \<open>auto simp: Cons_eq_append_conv\<close>)
qed simp

lemma initialised_suffix: "initialised m (p @ x # r) \<Longrightarrow> initialised m (x # r)"
  by (induction p) auto

lemma defines_one:
  assumes "v \<in> method_defines m i"
  shows "method_defines m i = {v}"
  using assms by (auto simp: method_defines_def defined_vars_def split: if_splits)

text \<open>The last definition of a variable on a run reaches the end of the run and gives the value.\<close>

lemma last_definition:
  "run m E ((i, env) # r) \<Longrightarrow> v \<notin> E \<Longrightarrow> i < ir_instr_count m \<Longrightarrow> \<exists>x\<in>set r. v \<in> method_defines m (fst x) \<Longrightarrow>
    \<exists>p d envd q env2. r = p @ (d, envd) # q \<and> d < ir_instr_count m \<and> v \<in> method_defines m d \<and>
      effect m E d envd env2 \<and> env v = env2 v \<and> arrives (cfg_preds m) (rd_gens m) (rd_kills m) i d"
proof (induction r arbitrary: i env)
  case (Cons x r)
  obtain j envj where x: "x = (j, envj)" by fastforce
  from Cons.prems(1) x have r: "run m E ((j, envj) # r)" "j < ir_instr_count m" "i \<in> set (successors m j)" "effect m E j envj env"
    by (auto elim: run.cases)
  have e: "j \<in> cfg_preds m i" using r Cons.prems(3) by (simp add: cfg_preds_def)
  show ?case
  proof (cases "v \<in> method_defines m j")
    case True
    have "flows (cfg_preds m) (rd_gens m) (rd_kills m) j j" by (rule flows_gen) (use True r(2) in \<open>auto simp: rd_gens_def\<close>)
    then have "arrives (cfg_preds m) (rd_gens m) (rd_kills m) i j" using e by (auto simp: arrives_def)
    with True r x show ?thesis by (intro exI [of _ "[]"] exI [of _ j] exI [of _ envj] exI [of _ r] exI [of _ env]) simp
  next
    case False
    then have "\<exists>x\<in>set r. v \<in> method_defines m (fst x)" using Cons.prems(4) x by auto
    from Cons.IH [OF r(1) Cons.prems(2) r(2) this] obtain p d envd q env2 where
      d: "r = p @ (d, envd) # q" "d < ir_instr_count m" "v \<in> method_defines m d" "effect m E d envd env2" "envj v = env2 v"
        "arrives (cfg_preds m) (rd_gens m) (rd_kills m) j d" by blast
    have "method_defines m d \<inter> method_defines m j = {}" using defines_one [OF d(3)] False by auto
    then have "d \<notin> rd_kills m j" by (auto simp: rd_kills_def)
    with d(6) have "flows (cfg_preds m) (rd_gens m) (rd_kills m) j d" by (subst flows_unfold) simp
    then have "arrives (cfg_preds m) (rd_gens m) (rd_kills m) i d" using e by (auto simp: arrives_def)
    moreover have "env v = env2 v" using r(4) Cons.prems(2) False d(5) by (simp add: effect_def)
    ultimately show ?thesis
      using d x by (intro exI [of _ "x # p"] exI [of _ d] exI [of _ envd] exI [of _ q] exI [of _ env2]) simp
  qed
qed simp

section \<open>Replaced operands\<close>

text \<open>An operand is kept, or a variable is replaced by the value it has.\<close>

definition replaced :: "store \<Rightarrow> ir_item \<Rightarrow> ir_item \<Rightarrow> bool" where
  "replaced env a b \<longleftrightarrow> b = a \<or> item_type a = IROFFSET \<and> item_type b \<noteq> IROFFSET \<and> b = env (unat (val a))"

definition operands_replaced :: "store \<Rightarrow> ir_instruction \<Rightarrow> ir_instruction \<Rightarrow> bool" where
  "operands_replaced env a b \<longleftrightarrow>
     inst_type b = inst_type a \<and> result b = result a \<and> byte_offset b = byte_offset a \<and>
     replaced env (param_1 a) (param_1 b) \<and> replaced env (param_2 a) (param_2 b) \<and> replaced env (param_3 a) (param_3 b) \<and>
     rel_option (list_all2 (replaced env)) (callParameters a) (callParameters b)"

lemma replaced_refl [simp]: "replaced env a a"
  by (simp add: replaced_def)

lemma operands_replaced_refl [simp]: "operands_replaced env a a"
  by (simp add: operands_replaced_def list_all2_refl option.rel_refl)

lemma replaced_value: "replaced env a b \<Longrightarrow> item_value env b = item_value env a"
  by (auto simp: replaced_def item_value_def)

lemma forward_replaced:
  assumes "replaced env a b" and "item_type c \<noteq> IROFFSET" and "env (unat v) = c"
  shows "replaced env a (forward v c b)"
  using assms by (auto simp: forward_def replaced_def)

lemma apply_cases:
  "internal_constant_propagation_apply s u =
    (let f = forward (val (result s)) (param_1 s); n = ir_instr_pars_count_get u
     in if inst_type u = IRGETADDRESS then u
        else if inst_type u \<in> {IRCALL, IRVCALL, IRLIBRARYCALL, IRNATIVECALL, IRICALL} then
          u\<lparr>callParameters := map_option (map f) (callParameters u)\<rparr>
        else u\<lparr>param_1 := (if 0 < n then f (param_1 u) else param_1 u), param_2 := (if 1 < n then f (param_2 u) else param_2 u),
          param_3 := (if 2 < n then f (param_3 u) else param_3 u)\<rparr>)"
proof -
  have u: "[0..<2] = [0, 1 :: nat]" "[0..<3] = [0, 1, 2 :: nat]" by (simp_all add: upt_rec)
  consider "ir_instr_pars_count_get u = 0" | "ir_instr_pars_count_get u = 1" | "ir_instr_pars_count_get u = 2" | "ir_instr_pars_count_get u = 3"
    unfolding ir_instr_pars_count_get_def by metis
  then show ?thesis
    by cases (simp_all add: internal_constant_propagation_apply_def Let_def u)
qed

lemma apply_replaced:
  assumes r: "operands_replaced env a b" and c: "item_type (param_1 s) \<noteq> IROFFSET" "env (unat (val (result s))) = param_1 s"
  shows "operands_replaced env a (internal_constant_propagation_apply s b)"
proof -
  have f: "replaced env x y \<Longrightarrow> replaced env x (forward (val (result s)) (param_1 s) y)" for x y
    by (rule forward_replaced) (use c in simp_all)
  have "rel_option (list_all2 (replaced env)) (callParameters a) (map_option (map (forward (val (result s)) (param_1 s))) (callParameters b))"
    using r f by (cases "callParameters a"; cases "callParameters b") (auto simp: operands_replaced_def list_all2_conv_all_nth)
  note call = this
  define f where "f = forward (val (result s)) (param_1 s)"
  define n where "n = ir_instr_pars_count_get b"
  note r' = r [unfolded operands_replaced_def] and f' = f [folded f_def] and call' = call [folded f_def]
  consider "internal_constant_propagation_apply s b = b"
    | "internal_constant_propagation_apply s b = b\<lparr>callParameters := map_option (map f) (callParameters b)\<rparr>"
    | "internal_constant_propagation_apply s b = b\<lparr>param_1 := (if 0 < n then f (param_1 b) else param_1 b),
        param_2 := (if 1 < n then f (param_2 b) else param_2 b), param_3 := (if 2 < n then f (param_3 b) else param_3 b)\<rparr>"
    unfolding apply_cases Let_def f_def [symmetric] n_def [symmetric] by presburger
  then show ?thesis
  proof cases
    case 1
    then show ?thesis using r by simp
  next
    case 2
    then show ?thesis using r' call' by (simp add: operands_replaced_def)
  next
    case 3
    then show ?thesis using r' f' by (simp add: operands_replaced_def)
  qed
qed

section \<open>The propagation is sound\<close>

definition propagated :: "ir_method \<Rightarrow> nat set \<Rightarrow> ir_method \<Rightarrow> bool" where
  "propagated m E cur \<longleftrightarrow> parametersNumber cur = parametersNumber m \<and> var_max cur = var_max m \<and> locals cur = locals m \<and>
     ir_instr_count cur = ir_instr_count m \<and>
     (\<forall>i<ir_instr_count m. type_at cur i = type_at m i \<and> result (ir_instr_get_by_pos cur i) = result (ir_instr_get_by_pos m i)) \<and>
     (\<forall>i env r. run m E ((i, env) # r) \<longrightarrow> initialised m ((i, env) # r) \<longrightarrow> i < ir_instr_count m \<longrightarrow>
        operands_replaced env (ir_instr_get_by_pos m i) (ir_instr_get_by_pos cur i))"

lemma propagated_start: "propagated m E m"
  by (simp add: propagated_def)

lemma apply_keeps [simp]:
  "inst_type (internal_constant_propagation_apply s u) = inst_type u" "result (internal_constant_propagation_apply s u) = result u"
  unfolding apply_cases Let_def by simp_all

lemma propagate_use_sound:
  assumes m: "simple_method m" and v: "variables_ok m" and dummies: "\<forall>i<parametersNumber m. type_at m i = IRNOP"
    and rd: "\<forall>i<ir_instr_count m. \<forall>d<ir_instr_count m. ir_instr_reaching_definitions_reached_in_is (rd ! i) d \<longleftrightarrow>
      arrives (cfg_preds m) (rd_gens m) (rd_kills m) i d"
    and esc: "\<forall>v<var_max m. ir_method_escapes_isVariableEscaped esc v = Some (v \<in> E)"
    and cur: "propagated m E cur" and i: "i < ir_instr_count m" and u: "unat used \<in> method_uses m i"
  shows "\<exists>cur'. propagate_use rd (internal_getAllVariableDefinitions m) esc i used cur = Some cur' \<and> propagated m E cur'"
proof (cases "internal_getSingleDefinitionReachedIn rd used i (internal_getAllVariableDefinitions m)")
  case None
  then show ?thesis using cur by (simp add: propagate_use_def)
next
  case (Some d)
  note single = single_definition [OF Some, unfolded set_getAllVariableDefinitions [OF v]]
  have d: "d < ir_instr_count m" "unat used \<in> method_defines m d" using single(1) by blast+
  let ?s = "ir_instr_get_by_pos cur d"
  have keep: "type_at cur d = type_at m d" "result ?s = result (ir_instr_get_by_pos m d)" "parametersNumber cur = parametersNumber m"
    using cur d(1) by (simp_all add: propagated_def)
  show ?thesis
  proof (cases "inst_type ?s = IRMOVE \<and> item_type (param_1 ?s) \<noteq> IROFFSET")
    case False
    then show ?thesis using Some cur by (auto simp: propagate_use_def Let_def)
  next
    case True
    have "\<not> d < parametersNumber m" using True keep(1) dummies by auto
    then have dv: "unat used \<in> defined_vars (ir_instr_get_by_pos m d)" using d by (simp add: method_defines_def)
    then have used: "val (result ?s) = used" unfolding keep(2) by (simp add: defined_vars_def word_unat_eq_iff split: if_splits)
    have less: "unat used < var_max m" "unat used < 2 ^ 32"
      using defined_vars_less [OF v d(1)] d(2) v by (auto simp: variables_ok_def)
    have "unat (ucast used :: 32 word) = unat used" using less(2) by (simp add: unsigned_ucast_eq take_bit_nat_eq_self)
    then have e: "ir_method_escapes_isVariableEscaped esc (unat (ucast (val (result ?s)) :: 32 word)) = Some (unat used \<in> E)"
      using esc less(1) used by simp
    define new where "new = internal_constant_propagation_apply ?s (ir_instr_get_by_pos cur i)"
    define cur' where "cur' = cur\<lparr>instructions := (instructions cur)[i := new]\<rparr>"
    have step: "propagate_use rd (internal_getAllVariableDefinitions m) esc i used cur =
        Some (if unat used \<in> E \<or> unat used < parametersNumber m then cur else cur')"
      using Some True e used keep(3) by (simp add: propagate_use_def Let_def cur'_def new_def)
    show ?thesis
    proof (cases "unat used \<in> E \<or> unat used < parametersNumber m")
      case True
      then show ?thesis using step cur by simp
    next
      case False
      have at: "ir_instr_get_by_pos cur' j = (if j = i then new else ir_instr_get_by_pos cur j)" if "j < ir_instr_count m" for j
        using that cur i by (auto simp: cur'_def ir_instr_get_by_pos_def ir_instr_count_def propagated_def)
      have new: "operands_replaced env (ir_instr_get_by_pos m i) new"
        if r: "run m E ((i, env) # r)" "initialised m ((i, env) # r)" for env r
      proof -
        have "\<exists>x\<in>set r. unat used \<in> method_defines m (fst x)" using r(2) u by simp
        from last_definition [OF r(1) _ i this] False obtain p d' envd q env2 where
          d': "r = p @ (d', envd) # q" "d' < ir_instr_count m" "unat used \<in> method_defines m d'"
            "effect m E d' envd env2" "env (unat used) = env2 (unat used)" "arrives (cfg_preds m) (rd_gens m) (rd_kills m) i d'" by blast
        have "d' = d" using single(3) [of d'] rd i d'(2,3,6) by blast
        have tail: "run m E ((d, envd) # q)" "initialised m ((d, envd) # q)"
          using run_suffix [of m E "(i, env) # p" "(d', envd)" q] initialised_suffix [of m "(i, env) # p" "(d', envd)" q] r d'(1) \<open>d' = d\<close>
          by simp_all
        then have "operands_replaced envd (ir_instr_get_by_pos m d) ?s" using cur d(1) by (simp add: propagated_def)
        then have "item_value envd (param_1 (ir_instr_get_by_pos m d)) = item_value envd (param_1 ?s)"
          using replaced_value unfolding operands_replaced_def by metis
        moreover have "env2 (unat used) = item_value envd (param_1 (ir_instr_get_by_pos m d))"
          using d'(4) \<open>d' = d\<close> True keep(1) dv False by (simp add: effect_def)
        ultimately have val: "env (unat used) = param_1 ?s" using d'(5) True by (simp add: item_value_def)
        have "operands_replaced env (ir_instr_get_by_pos m i) (ir_instr_get_by_pos cur i)"
          using cur r i by (simp add: propagated_def)
        then show ?thesis unfolding new_def by (rule apply_replaced) (use True val used in simp_all)
      qed
      have "propagated m E cur'"
        unfolding propagated_def
      proof (intro conjI allI impI)
        show "parametersNumber cur' = parametersNumber m" "var_max cur' = var_max m" "locals cur' = locals m"
          using cur by (simp_all add: cur'_def propagated_def)
        show "ir_instr_count cur' = ir_instr_count m" using cur by (simp add: cur'_def ir_instr_count_def propagated_def)
        fix j assume j: "j < ir_instr_count m"
        show "type_at cur' j = type_at m j" "result (ir_instr_get_by_pos cur' j) = result (ir_instr_get_by_pos m j)"
          using at [OF j] cur j i by (simp_all add: new_def propagated_def)
      next
        fix j env r assume r: "run m E ((j, env) # r)" "initialised m ((j, env) # r)" and j: "j < ir_instr_count m"
        then show "operands_replaced env (ir_instr_get_by_pos m j) (ir_instr_get_by_pos cur' j)"
          using at [OF j] new cur by (cases "j = i") (simp_all add: propagated_def)
      qed
      with step False show ?thesis by simp
    qed
  qed
qed

section \<open>The propagation is complete\<close>

text \<open>The variables an instruction reads through the operands that the propagation may replace.\<close>

definition forwardable :: "ir_instruction \<Rightarrow> nat set" where
  "forwardable inst =
     (if inst_type inst = IRGETADDRESS then {}
      else if IRMETHOD_isACallInstruction inst then vars_of (call_items inst)
      else vars_of (ir_instr_pars inst))"

lemma forwardable_used: "forwardable inst \<subseteq> live_uses inst"
proof -
  consider "ir_instr_pars_count_get inst = 0" | "ir_instr_pars_count_get inst = 1" | "ir_instr_pars_count_get inst = 2" | "ir_instr_pars_count_get inst = 3"
    unfolding ir_instr_pars_count_get_def by metis
  then show ?thesis by cases (auto simp: forwardable_def live_uses_def ir_instr_pars_def)
qed

lemma vars_of_forward:
  "item_type c \<noteq> IROFFSET \<Longrightarrow> vars_of (map (forward v c) xs) \<subseteq> vars_of xs - {unat v}"
  by (induction xs) (auto simp: forward_def word_unat_eq_iff)

lemma vars_of_subset: "set xs \<subseteq> set ys \<Longrightarrow> vars_of xs \<subseteq> vars_of ys"
  by (auto simp: vars_of_def)

lemma forwardable_apply:
  assumes c: "item_type (param_1 s) \<noteq> IROFFSET"
  shows "forwardable (internal_constant_propagation_apply s u) \<subseteq> forwardable u - {unat (val (result s))}"
proof -
  define f where "f = forward (val (result s)) (param_1 s)"
  define n where "n = ir_instr_pars_count_get u"
  have sub: "vars_of (map f xs) \<subseteq> vars_of xs - {unat (val (result s))}" for xs unfolding f_def by (rule vars_of_forward [OF c])
  consider "inst_type u = IRGETADDRESS" | "inst_type u \<noteq> IRGETADDRESS" "IRMETHOD_isACallInstruction u"
    | "inst_type u \<noteq> IRGETADDRESS" "\<not> IRMETHOD_isACallInstruction u" by blast
  then show ?thesis
  proof cases
    case 1
    then show ?thesis by (simp add: forwardable_def)
  next
    case 2
    then have "internal_constant_propagation_apply s u = u\<lparr>callParameters := map_option (map f) (callParameters u)\<rparr>"
      unfolding apply_cases by (auto simp: IRMETHOD_isACallInstruction_def f_def Let_def)
    then show ?thesis using 2 sub [of "case callParameters u of None \<Rightarrow> [] | Some l \<Rightarrow> l"]
      by (auto simp: forwardable_def IRMETHOD_isACallInstruction_def call_items_def split: option.splits)
  next
    case 3
    define u' where "u' = u\<lparr>param_1 := (if 0 < n then f (param_1 u) else param_1 u),
      param_2 := (if 1 < n then f (param_2 u) else param_2 u), param_3 := (if 2 < n then f (param_3 u) else param_3 u)\<rparr>"
    have u': "internal_constant_propagation_apply s u = u'"
      using 3 unfolding apply_cases u'_def by (auto simp: IRMETHOD_isACallInstruction_def f_def n_def Let_def)
    have le: "ir_instr_pars_count_get u' \<le> n"
      by (auto simp: u'_def n_def ir_instr_pars_count_get_def)
    have "set (ir_instr_pars u') \<subseteq> set (take n [param_1 u', param_2 u', param_3 u'])"
      unfolding ir_instr_pars_def set_rev by (rule set_take_subset_set_take [OF le])
    moreover have "take n [param_1 u', param_2 u', param_3 u'] = map f (take n [param_1 u, param_2 u, param_3 u])"
      by (auto simp: u'_def take_Cons split: nat.splits)
    moreover have "set (take n [param_1 u, param_2 u, param_3 u]) = set (ir_instr_pars u)" by (simp add: ir_instr_pars_def n_def)
    ultimately have "vars_of (ir_instr_pars u') \<subseteq> vars_of (ir_instr_pars u) - {unat (val (result s))}"
      using vars_of_subset [of "ir_instr_pars u'" "map f (take n [param_1 u, param_2 u, param_3 u])"]
        vars_of_subset [of "take n [param_1 u, param_2 u, param_3 u]" "ir_instr_pars u"] sub [of "take n [param_1 u, param_2 u, param_3 u]"]
      by auto
    moreover have "inst_type u' = inst_type u" by (simp add: u'_def)
    ultimately show ?thesis using 3 unfolding u' by (simp add: forwardable_def IRMETHOD_isACallInstruction_def)
  qed
qed

lemma apply_constant:
  assumes "item_type (param_1 s) \<noteq> IROFFSET" and "item_type (param_1 u) \<noteq> IROFFSET"
  shows "item_type (param_1 (internal_constant_propagation_apply s u)) \<noteq> IROFFSET"
  using assms by (auto simp: apply_cases Let_def forward_def)

text \<open>What every step keeps: operands only lose variables, and a constant stays one.\<close>

definition fewer :: "ir_method \<Rightarrow> ir_method \<Rightarrow> bool" where
  "fewer m m' \<longleftrightarrow> ir_instr_count m' = ir_instr_count m \<and> parametersNumber m' = parametersNumber m \<and>
     (\<forall>i<ir_instr_count m. type_at m' i = type_at m i \<and> result (ir_instr_get_by_pos m' i) = result (ir_instr_get_by_pos m i) \<and>
        forwardable (ir_instr_get_by_pos m' i) \<subseteq> forwardable (ir_instr_get_by_pos m i) \<and>
        (item_type (param_1 (ir_instr_get_by_pos m i)) \<noteq> IROFFSET \<longrightarrow> item_type (param_1 (ir_instr_get_by_pos m' i)) \<noteq> IROFFSET))"

lemma fewer_refl [simp]: "fewer m m"
  by (simp add: fewer_def)

lemma fewer_trans: "fewer m m' \<Longrightarrow> fewer m' m'' \<Longrightarrow> fewer m m''"
  unfolding fewer_def by (metis subset_trans)

lemma update_at:
  "i < ir_instr_count m \<Longrightarrow> j < ir_instr_count m \<Longrightarrow>
    ir_instr_get_by_pos (m\<lparr>instructions := (instructions m)[i := x]\<rparr>) j = (if j = i then x else ir_instr_get_by_pos m j)"
  "ir_instr_count (m\<lparr>instructions := (instructions m)[i := x]\<rparr>) = ir_instr_count m"
  by (simp_all add: ir_instr_get_by_pos_def ir_instr_count_def)

lemma propagate_use_cases:
  assumes e: "propagate_use rd defs esc i used m = Some m'"
  shows "m' = m \<or> (\<exists>d. item_type (param_1 (ir_instr_get_by_pos m d)) \<noteq> IROFFSET \<and>
    m' = m\<lparr>instructions := (instructions m)[i := internal_constant_propagation_apply (ir_instr_get_by_pos m d) (ir_instr_get_by_pos m i)]\<rparr>)"
proof (cases "internal_getSingleDefinitionReachedIn rd used i defs")
  case None
  then show ?thesis using e by (simp add: propagate_use_def)
next
  case (Some d)
  let ?s = "ir_instr_get_by_pos m d"
  let ?c = "inst_type ?s = IRMOVE \<and> item_type (param_1 ?s) \<noteq> IROFFSET"
  have eq: "propagate_use rd defs esc i used m = (if ?c
      then Option.bind (ir_method_escapes_isVariableEscaped esc (unat (ucast (val (result ?s)) :: 32 word)))
        (\<lambda>escaped. Some (if escaped \<or> unat (val (result ?s)) < parametersNumber m then m
           else m\<lparr>instructions := (instructions m)[i := internal_constant_propagation_apply ?s (ir_instr_get_by_pos m i)]\<rparr>))
      else Some m)"
    using Some by (simp only: propagate_use_def option.case Let_def)
  show ?thesis
  proof (cases ?c)
    case True
    show ?thesis
    proof (cases "ir_method_escapes_isVariableEscaped esc (unat (ucast (val (result ?s)) :: 32 word))")
      case None
      then show ?thesis using e True unfolding eq by simp
    next
      case (Some b)
      have "m' = (if b \<or> unat (val (result ?s)) < parametersNumber m then m
           else m\<lparr>instructions := (instructions m)[i := internal_constant_propagation_apply ?s (ir_instr_get_by_pos m i)]\<rparr>)"
        using e True Some unfolding eq by simp
      with True show ?thesis by metis
    qed
  next
    case False
    then have "m' = m" using e unfolding eq by (simp only: if_False option.inject)
    then show ?thesis by blast
  qed
qed

lemma propagate_use_fewer:
  assumes e: "propagate_use rd defs esc i used m = Some m'" and i: "i < ir_instr_count m"
  shows "fewer m m'"
proof -
  from propagate_use_cases [OF e] consider "m' = m"
    | d where "item_type (param_1 (ir_instr_get_by_pos m d)) \<noteq> IROFFSET"
        "m' = m\<lparr>instructions := (instructions m)[i := internal_constant_propagation_apply (ir_instr_get_by_pos m d) (ir_instr_get_by_pos m i)]\<rparr>"
    by blast
  then show ?thesis
  proof cases
    case 2
    define u where "u = internal_constant_propagation_apply (ir_instr_get_by_pos m d) (ir_instr_get_by_pos m i)"
    have u: "inst_type u = type_at m i" "result u = result (ir_instr_get_by_pos m i)" "forwardable u \<subseteq> forwardable (ir_instr_get_by_pos m i)"
      "item_type (param_1 (ir_instr_get_by_pos m i)) \<noteq> IROFFSET \<longrightarrow> item_type (param_1 u) \<noteq> IROFFSET"
      using forwardable_apply [OF 2(1), of "ir_instr_get_by_pos m i"] apply_constant [OF 2(1), of "ir_instr_get_by_pos m i"]
      unfolding u_def by auto
    have m': "m' = m\<lparr>instructions := (instructions m)[i := u]\<rparr>" using 2(2) by (simp add: u_def)
    show ?thesis unfolding fewer_def m' update_at(2)
    proof (intro conjI allI impI)
      fix j assume j: "j < ir_instr_count m"
      note at = update_at(1) [OF i j, of u]
      show "type_at (m\<lparr>instructions := (instructions m)[i := u]\<rparr>) j = type_at m j"
        "result (ir_instr_get_by_pos (m\<lparr>instructions := (instructions m)[i := u]\<rparr>) j) = result (ir_instr_get_by_pos m j)"
        "forwardable (ir_instr_get_by_pos (m\<lparr>instructions := (instructions m)[i := u]\<rparr>) j) \<subseteq> forwardable (ir_instr_get_by_pos m j)"
        unfolding at using u by simp_all
      show "item_type (param_1 (ir_instr_get_by_pos (m\<lparr>instructions := (instructions m)[i := u]\<rparr>) j)) \<noteq> IROFFSET"
        if "item_type (param_1 (ir_instr_get_by_pos m j)) \<noteq> IROFFSET" unfolding at using u(4) that by (cases "j = i") simp_all
    qed simp_all
  qed simp
qed

lemma propagate_uses_fewer:
  "propagate_uses rd defs esc i vs m = Some m' \<Longrightarrow> i < ir_instr_count m \<Longrightarrow> fewer m m'"
proof (induction vs arbitrary: m)
  case (Cons v vs)
  then obtain m1 where m1: "propagate_use rd defs esc i v m = Some m1" "propagate_uses rd defs esc i vs m1 = Some m'"
    by (auto simp: bind_eq_Some_conv)
  have f: "fewer m m1" by (rule propagate_use_fewer [OF m1(1) Cons.prems(2)])
  then have "fewer m1 m'" using Cons.IH [OF m1(2)] Cons.prems(2) by (simp add: fewer_def)
  with f show ?case by (rule fewer_trans)
qed simp

text \<open>What makes the propagation replace a variable at an instruction.\<close>

definition constant_reaches :: "rd_state \<Rightarrow> (64 word \<Rightarrow> nat list) \<Rightarrow> escapes \<Rightarrow> nat \<Rightarrow> 64 word \<Rightarrow> ir_method \<Rightarrow> bool" where
  "constant_reaches rd defs esc i used m \<longleftrightarrow>
     (\<exists>d<ir_instr_count m. internal_getSingleDefinitionReachedIn rd used i defs = Some d \<and>
        type_at m d = IRMOVE \<and> item_type (param_1 (ir_instr_get_by_pos m d)) \<noteq> IROFFSET \<and>
        val (result (ir_instr_get_by_pos m d)) = used \<and> parametersNumber m \<le> unat used \<and>
        ir_method_escapes_isVariableEscaped esc (unat (ucast used :: 32 word)) = Some False)"

lemma constant_reaches_fewer:
  "constant_reaches rd defs esc i used m \<Longrightarrow> fewer m m' \<Longrightarrow> constant_reaches rd defs esc i used m'"
  unfolding constant_reaches_def fewer_def by force

lemma propagate_use_removes:
  assumes c: "constant_reaches rd defs esc i used m" and i: "i < ir_instr_count m"
    and e: "propagate_use rd defs esc i used m = Some m'"
  shows "unat used \<notin> forwardable (ir_instr_get_by_pos m' i)"
proof -
  from c obtain d where d: "d < ir_instr_count m" "internal_getSingleDefinitionReachedIn rd used i defs = Some d"
        "type_at m d = IRMOVE" "item_type (param_1 (ir_instr_get_by_pos m d)) \<noteq> IROFFSET"
        "val (result (ir_instr_get_by_pos m d)) = used" "parametersNumber m \<le> unat used"
        "ir_method_escapes_isVariableEscaped esc (unat (ucast used :: 32 word)) = Some False"
    by (auto simp: constant_reaches_def)
  then have "m' = m\<lparr>instructions := (instructions m)[i := internal_constant_propagation_apply (ir_instr_get_by_pos m d) (ir_instr_get_by_pos m i)]\<rparr>"
    using e by (simp add: propagate_use_def Let_def)
  then show ?thesis using forwardable_apply [OF d(4), of "ir_instr_get_by_pos m i"] d(5) by (auto simp: update_at(1) [OF i i])
qed

lemma propagate_uses_removes:
  "propagate_uses rd defs esc i vs m = Some m' \<Longrightarrow> i < ir_instr_count m \<Longrightarrow> constant_reaches rd defs esc i used m \<Longrightarrow> used \<in> set vs \<Longrightarrow>
    unat used \<notin> forwardable (ir_instr_get_by_pos m' i)"
proof (induction vs arbitrary: m)
  case (Cons v vs)
  from Cons.prems(1) obtain m1 where m1: "propagate_use rd defs esc i v m = Some m1" "propagate_uses rd defs esc i vs m1 = Some m'"
    by (auto simp: bind_eq_Some_conv)
  have f: "fewer m m1" by (rule propagate_use_fewer [OF m1(1) Cons.prems(2)])
  then have i1: "i < ir_instr_count m1" using Cons.prems(2) by (simp add: fewer_def)
  show ?case
  proof (cases "used = v")
    case True
    have "unat used \<notin> forwardable (ir_instr_get_by_pos m1 i)"
      by (rule propagate_use_removes [OF Cons.prems(3,2)]) (use m1(1) True in simp)
    with propagate_uses_fewer [OF m1(2) i1] i1 show ?thesis by (auto simp: fewer_def)
  next
    case False
    then show ?thesis using Cons.IH [OF m1(2) i1 constant_reaches_fewer [OF Cons.prems(3) f]] Cons.prems(4) by simp
  qed
qed simp

lemma propagate_instructions_fewer:
  "propagate_instructions live n rd defs esc ids m = Some m' \<Longrightarrow> \<forall>i\<in>set ids. i < ir_instr_count m \<Longrightarrow> fewer m m'"
proof (induction ids arbitrary: m)
  case (Cons i rest)
  from Cons.prems(1) obtain m1 where m1: "propagate_uses rd defs esc i (used_in_blocks (live ! i) n) m = Some m1"
    "propagate_instructions live n rd defs esc rest m1 = Some m'" by (auto simp: bind_eq_Some_conv)
  have f: "fewer m m1" by (rule propagate_uses_fewer [OF m1(1)]) (use Cons.prems(2) in simp)
  have "fewer m1 m'" by (rule Cons.IH [OF m1(2)]) (use f Cons.prems(2) in \<open>simp add: fewer_def\<close>)
  with f show ?case by (rule fewer_trans)
qed simp

lemma propagate_instructions_removes:
  "propagate_instructions live n rd defs esc ids m = Some m' \<Longrightarrow> \<forall>i\<in>set ids. i < ir_instr_count m \<Longrightarrow> i \<in> set ids \<Longrightarrow>
    constant_reaches rd defs esc i used m \<Longrightarrow> used \<in> set (used_in_blocks (live ! i) n) \<Longrightarrow>
    unat used \<notin> forwardable (ir_instr_get_by_pos m' i)"
proof (induction ids arbitrary: m)
  case (Cons j rest)
  from Cons.prems(1) obtain m1 where m1: "propagate_uses rd defs esc j (used_in_blocks (live ! j) n) m = Some m1"
    "propagate_instructions live n rd defs esc rest m1 = Some m'" by (auto simp: bind_eq_Some_conv)
  have j: "j < ir_instr_count m" using Cons.prems(2) by simp
  have f: "fewer m m1" by (rule propagate_uses_fewer [OF m1(1) j])
  have rest: "\<forall>i\<in>set rest. i < ir_instr_count m1" using f Cons.prems(2) by (simp add: fewer_def)
  have g: "fewer m1 m'" by (rule propagate_instructions_fewer [OF m1(2) rest])
  show ?case
  proof (cases "i = j")
    case True
    have "unat used \<notin> forwardable (ir_instr_get_by_pos m1 j)"
      by (rule propagate_uses_removes [OF m1(1) j]) (use Cons.prems(4,5) True in simp_all)
    with g True j f show ?thesis by (auto simp: fewer_def)
  next
    case False
    show ?thesis
      by (rule Cons.IH [OF m1(2) rest _ constant_reaches_fewer [OF Cons.prems(4) f] Cons.prems(5)]) (use Cons.prems(3) False in simp)
  qed
qed simp

lemma propagate_instructions_sound:
  assumes "\<And>i used cur. i \<in> set ids \<Longrightarrow> used \<in> set (used_in_blocks (live ! i) n) \<Longrightarrow> propagated m E cur \<Longrightarrow>
      \<exists>cur'. propagate_use rd defs esc i used cur = Some cur' \<and> propagated m E cur'"
  shows "propagated m E cur \<Longrightarrow> \<exists>cur'. propagate_instructions live n rd defs esc ids cur = Some cur' \<and> propagated m E cur'"
  using assms
proof (induction ids arbitrary: cur)
  case (Cons i rest)
  note step = Cons.prems(2)
  have "set vs \<subseteq> set (used_in_blocks (live ! i) n) \<Longrightarrow> propagated m E c \<Longrightarrow>
      \<exists>c'. propagate_uses rd defs esc i vs c = Some c' \<and> propagated m E c'" for vs c
  proof (induction vs arbitrary: c)
    case (Cons v vs)
    then obtain c1 where c1: "propagate_use rd defs esc i v c = Some c1" "propagated m E c1"
      using step [of i v c] by auto
    with Cons show ?case by auto
  qed simp
  from this [OF subset_refl Cons.prems(1)] obtain c' where
    "propagate_uses rd defs esc i (used_in_blocks (live ! i) n) cur = Some c'" "propagated m E c'" by blast
  with Cons.IH [OF this(2)] Cons.prems(2) show ?case by simp
qed simp

section \<open>Properties\<close>

lemma distinct_getAllVariableDefinitions: "distinct (internal_getAllVariableDefinitions m w)"
proof -
  have i: "(\<forall>w. distinct (defs w)) \<Longrightarrow> \<forall>w. distinct (insert_definition v i defs w)" for v i defs
    by (simp add: insert_definition_def)
  have 1: "(\<forall>w. distinct (defs w)) \<Longrightarrow>
      \<forall>w. distinct (fold (\<lambda>i defs. let v = V i in if v = NOPARAM_VALUE then defs else insert_definition v i defs) xs defs w)" for V xs defs
    by (induction xs arbitrary: defs) (auto simp: Let_def i)
  have 2: "(\<forall>w. distinct (defs w)) \<Longrightarrow> \<forall>w. distinct (fold (\<lambda>i. insert_definition (word_of_nat i) i) xs defs w)" for xs defs
    by (induction xs arbitrary: defs) (auto simp: i)
  show ?thesis unfolding internal_getAllVariableDefinitions_def Let_def [of "fold _ _ _"]
    using 2 [OF 1, of "\<lambda>_. []"] by simp
qed

lemma single_definitionI:
  assumes "distinct (defs v)" and "{d'. d' \<in> set (defs v) \<and> ir_instr_reaching_definitions_reached_in_is (rd ! i) d'} = {d}"
  shows "internal_getSingleDefinitionReachedIn rd v i defs = Some d"
proof -
  let ?R = "ir_instr_reaching_definitions_reached_in_is (rd ! i)"
  have f: "fold (\<lambda>inst (champion, count). if ?R inst then (Some inst, count + 1) else (champion, count)) xs (c, k) =
      ((case rev (filter ?R xs) of [] \<Rightarrow> c | x # _ \<Rightarrow> Some x), k + length (filter ?R xs))" for xs c and k :: nat
    by (induction xs arbitrary: c k) (auto split: list.splits)
  have "set (filter ?R (defs v)) = {d}" "distinct (filter ?R (defs v))" using assms by auto
  then have "filter ?R (defs v) = [d]" by (metis card_1_singleton_iff distinct_card distinct_singleton list.set(1,2) singleton_iff
        length_Suc_conv length_0_conv One_nat_def set_empty insert_iff)
  then show ?thesis unfolding internal_getSingleDefinitionReachedIn_def f by simp
qed

lemma used_in_blocksI:
  assumes "v \<in> blk_set (live_use d)" and "length (live_use d) = n"
  shows "word_of_nat v \<in> set (used_in_blocks d n)"
proof -
  have "v div 64 < n" "live_use d ! (v div 64) AND mask_of v = mask_of v"
    using assms by (simp_all only: mem_blk_set trigger_of_def and_mask_of_eq)
  moreover have "v div 64 * 64 + v mod 64 = v" by simp
  ultimately show ?thesis
    unfolding used_in_blocks_def mask_of_def set_concat set_map image_image
    by (intro UN_I [of "v div 64"] image_eqI [of _ _ "v mod 64"]) simp_all
qed


text \<open>\<open>0: nop; 1: v1 = 7; 2: v2 = v1 + v0; 3: ret v2\<close>\<close>

definition constant_demo :: ir_method where
  "constant_demo = mk_method 1 3
    [mk_inst IRNOP nopar_item nopar_item nopar_item, mk_inst IRMOVE (var_item 1) (const_item 7) nopar_item,
     mk_inst IRADD (var_item 2) (var_item 1) (var_item 0), mk_inst IRRET nopar_item (var_item 2) nopar_item]"

lemma constant_demo_ok:
  "ir_instr_count constant_demo = 4" "parametersNumber constant_demo = 1" "var_max constant_demo = 3"
  "simple_method constant_demo" "variables_ok constant_demo"
  by (simp_all add: constant_demo_def demo_simps simple_method_def plain_method_def handler_types_def small_value_def variables_ok_def items_of_def)


end
