(* ===== verification/ConstFold.thy ===== *)
theory ConstFold
  imports ConstProp "HOL-Library.Signed_Division"
begin

unbundle bit_operations_syntax

text \<open>
  Constant folding, after \<open>optimizer-constantpropagation/src/constant_folding.c\<close>: instructions whose operands are constants become
  moves of their result, conditional branches on constants become unconditional or disappear. A constant is kept in the 64 bits
  of an item, whatever its type. \<open>None\<close> is \<open>abort()\<close>, a division trap or a signed overflow, which C leaves undefined.
  The lemmas compare the operations on 64 bits with the integers of the type of the operands.
\<close>

section \<open>Floating point\<close>

text \<open>
  A \<open>double\<close> is the word of its bits. The operations of the C library and of the processor on them are a parameter; a conversion
  to an integer is undefined outside the range of the integer. \<open>to_single\<close> rounds to \<open>float\<close> and back; a name that ends in \<open>f\<close> is
  the operation on \<open>float\<close>.
\<close>

record float_ops =
  fadd :: "64 word \<Rightarrow> 64 word \<Rightarrow> 64 word"
  fsub :: "64 word \<Rightarrow> 64 word \<Rightarrow> 64 word"
  fmul :: "64 word \<Rightarrow> 64 word \<Rightarrow> 64 word"
  fdiv :: "64 word \<Rightarrow> 64 word \<Rightarrow> 64 word"
  fpow :: "64 word \<Rightarrow> 64 word \<Rightarrow> 64 word"
  fpowf :: "64 word \<Rightarrow> 64 word \<Rightarrow> 64 word"
  fgt :: "64 word \<Rightarrow> 64 word \<Rightarrow> bool"
  flt :: "64 word \<Rightarrow> 64 word \<Rightarrow> bool"
  feq :: "64 word \<Rightarrow> 64 word \<Rightarrow> bool"
  fneg :: "64 word \<Rightarrow> 64 word"
  fexp :: "64 word \<Rightarrow> 64 word"
  fexpf :: "64 word \<Rightarrow> 64 word"
  flog10 :: "64 word \<Rightarrow> 64 word"
  flog10f :: "64 word \<Rightarrow> 64 word"
  fsin :: "64 word \<Rightarrow> 64 word"
  fcos :: "64 word \<Rightarrow> 64 word"
  fcosh :: "64 word \<Rightarrow> 64 word"
  facos :: "64 word \<Rightarrow> 64 word"
  fceil :: "64 word \<Rightarrow> 64 word"
  ffloor :: "64 word \<Rightarrow> 64 word"
  fsqrt :: "64 word \<Rightarrow> 64 word"
  fisnan :: "64 word \<Rightarrow> 64 word"
  fisinf :: "64 word \<Rightarrow> 64 word"
  f_to_u64 :: "64 word \<Rightarrow> 64 word option"
  f_to_i64 :: "64 word \<Rightarrow> 64 word option"
  u64_to_f :: "64 word \<Rightarrow> 64 word"
  i64_to_f :: "64 word \<Rightarrow> 64 word"
  i64_to_single :: "64 word \<Rightarrow> 64 word"
  to_single :: "64 word \<Rightarrow> 64 word"

text \<open>What the plugin takes from the rest of the system: floating point, the layout of types, the resolution of symbols.\<close>

record fold_env =
  float :: float_ops
  sizeof_JITNFLOAT :: nat
  getTypeSize :: "nat \<Rightarrow> nat"
  getSizeOfObject :: "ir_item \<Rightarrow> 64 word"
  resolveSymbol :: "ir_item \<Rightarrow> ir_item"

section \<open>Setters\<close>

definition IRMETHOD_setInstructionType :: "nat \<Rightarrow> ir_instruction \<Rightarrow> ir_instruction" where
  "IRMETHOD_setInstructionType ty inst = inst\<lparr>inst_type := ty\<rparr>"

text \<open>The setters of the value and of the floating point value write the same eight bytes.\<close>

definition IRMETHOD_setInstructionParameter1Value :: "64 word \<Rightarrow> ir_instruction \<Rightarrow> ir_instruction" where
  "IRMETHOD_setInstructionParameter1Value v inst = inst\<lparr>param_1 := (param_1 inst)\<lparr>val := v\<rparr>\<rparr>"

definition IRMETHOD_setInstructionParameter1FValue :: "64 word \<Rightarrow> ir_instruction \<Rightarrow> ir_instruction" where
  "IRMETHOD_setInstructionParameter1FValue f inst = inst\<lparr>param_1 := (param_1 inst)\<lparr>val := f\<rparr>\<rparr>"

definition IRMETHOD_isASignedType :: "nat \<Rightarrow> bool" where
  "IRMETHOD_isASignedType ty \<longleftrightarrow> ty \<in> {IRNINT, IRINT8, IRINT16, IRINT32, IRINT64, IRNFLOAT, IRFLOAT32, IRFLOAT64}"

definition IRMETHOD_hasASignedType :: "ir_item \<Rightarrow> bool option" where
  "IRMETHOD_hasASignedType item =
     (let ty = item_type item
      in if ty \<in> {IROFFSET, IRGLOBAL, IRSYMBOL} then Some (IRMETHOD_isASignedType (internal_type item))
         else if ty = IRTYPE then Some (IRMETHOD_isASignedType (unat (take_bit 32 (val item))))
         else if ty \<in> {IRNINT, IRINT8, IRINT16, IRINT32, IRINT64, IRNFLOAT, IRFLOAT32, IRFLOAT64,
                        IRNUINT, IRUINT8, IRUINT16, IRUINT32, IRUINT64, IROBJECT, IRMPOINTER,
                        IRTPOINTER, IRFPOINTER, IRMETHODENTRYPOINT} then Some (IRMETHOD_isASignedType (nat ty))
         else None)"

section \<open>Two operands\<close>

definition signed_result :: "int \<Rightarrow> 64 word option" where
  "signed_result r = (if - (2 ^ 63) \<le> r \<and> r < 2 ^ 63 then Some (word_of_int r) else None)"

definition fold_signed :: "nat \<Rightarrow> 64 word \<Rightarrow> 64 word \<Rightarrow> 64 word option" where
  "fold_signed ty par1 par2 =
    (if ty = IRADD then signed_result (sint par1 + sint par2)
     else if ty = IRMUL then signed_result (sint par1 * sint par2)
     else if ty = IRSUB then signed_result (sint par1 - sint par2)
     else if ty = IRDIV then
       (if par1 = 0 then Some 0 else if par2 = 0 then None else signed_result (sint par1 sdiv sint par2))
     else if ty = IRREM then
       (if par2 = 0 then None
        else map_option (\<lambda>_. word_of_int (sint par1 smod sint par2)) (signed_result (sint par1 sdiv sint par2)))
     else if ty = IRAND then Some (par1 AND par2)
     else if ty = IROR then Some (par1 OR par2)
     else if ty = IRXOR then Some (par1 XOR par2)
     else if ty = IRSHL then (if unat par2 < 64 then Some (push_bit (unat par2) par1) else None)
     else if ty = IRSHR then (if unat par2 < 64 then Some (signed_drop_bit (unat par2) par1) else None)
     else if ty = IRGT then Some (of_bool (sint par1 > sint par2))
     else if ty = IRLT then Some (of_bool (sint par1 < sint par2))
     else if ty = IREQ then Some (of_bool (par1 = par2))
     else None)"

definition fold_unsigned :: "nat \<Rightarrow> 64 word \<Rightarrow> 64 word \<Rightarrow> 64 word option" where
  "fold_unsigned ty par1 par2 =
    (if ty = IRADD then Some (par1 + par2)
     else if ty = IRMUL then Some (par1 * par2)
     else if ty = IRSUB then Some (par1 - par2)
     else if ty = IRDIV then (if par2 = 0 then None else Some (par1 div par2))
     else if ty = IRREM then (if par2 = 0 then None else Some (par1 mod par2))
     else if ty = IRAND then Some (par1 AND par2)
     else if ty = IROR then Some (par1 OR par2)
     else if ty = IRXOR then Some (par1 XOR par2)
     else if ty = IRSHL then (if unat par2 < 64 then Some (push_bit (unat par2) par1) else None)
     else if ty = IRSHR then (if unat par2 < 64 then Some (drop_bit (unat par2) par1) else None)
     else if ty = IRGT then Some (of_bool (par1 > par2))
     else if ty = IRLT then Some (of_bool (par1 < par2))
     else if ty = IREQ then Some (of_bool (par1 = par2))
     else None)"

text \<open>The floating point branch; a \<open>float\<close> operand is one of four bytes.\<close>

definition fold_float :: "float_ops \<Rightarrow> bool \<Rightarrow> nat \<Rightarrow> 64 word \<Rightarrow> 64 word \<Rightarrow> 64 word option" where
  "fold_float F single ty f1 f2 =
    (let bits = (\<lambda>op. do { u1 \<leftarrow> f_to_u64 F f1; u2 \<leftarrow> f_to_u64 F f2; r \<leftarrow> fold_unsigned op u1 u2; Some (u64_to_f F r) })
     in if ty = IRADD then Some (fadd F f1 f2)
        else if ty \<in> {IRAND, IROR, IRXOR, IRSHL, IRREM} then bits ty
        else if ty = IRSHR then do {
          i1 \<leftarrow> f_to_i64 F f1; i2 \<leftarrow> f_to_i64 F f2; r \<leftarrow> fold_signed IRSHR i1 i2; Some (i64_to_f F r)
        }
        else if ty = IRMUL then Some (fmul F f1 f2)
        else if ty = IRSUB then Some (fsub F f1 f2)
        else if ty = IRDIV then Some (fdiv F f1 f2)
        else if ty = IRPOW then Some (if single then fpowf F f1 f2 else fpow F f1 f2)
        else if ty = IREXP then Some (if single then fexpf F f1 else fexp F f1)
        else if ty = IRLOG10 then Some (if single then flog10f F f1 else flog10 F f1)
        else if ty = IRGT then Some (of_bool (fgt F f1 f2))
        else if ty = IRLT then Some (of_bool (flt F f1 f2))
        else if ty = IREQ then Some (of_bool (feq F f1 f2))
        else None)"

text \<open>The instruction as a move, whose parameter takes the type of the result, before the value is set.\<close>

definition as_move :: "ir_instruction \<Rightarrow> ir_instruction" where
  "as_move inst =
    (let res = result inst
     in IRMETHOD_setInstructionType IRMOVE inst
        \<lparr>param_1 := (param_1 inst)\<lparr>item_type := as_item_type (internal_type res), internal_type := internal_type res,
            type_infos := type_infos res\<rparr>,
         result := res\<lparr>item_type := IROFFSET\<rparr>\<rparr>)"

definition folding_arithmetic_2_operands :: "fold_env \<Rightarrow> ir_instruction \<Rightarrow> ir_instruction option" where
  "folding_arithmetic_2_operands E inst =
    (let par1 = param_1 inst; par2 = param_2 inst; ty = inst_type inst
     in if IRDATA_isAVariable par1 \<or> IRDATA_isAVariable par2 \<or> IRDATA_isASymbol par1 \<or> IRDATA_isASymbol par2 then Some inst
        else if \<not> IRMETHOD_hasAFloatType par1 \<and> \<not> IRMETHOD_hasAFloatType par2 then do {
          parametersAreSigned \<leftarrow> IRMETHOD_hasASignedType par1;
          r \<leftarrow> (if parametersAreSigned then fold_signed else fold_unsigned) ty (val par1) (val par2);
          IRMETHOD_eraseInstructionParameter 2 (IRMETHOD_setInstructionParameter1Value r (as_move inst))
        }
        else if IRMETHOD_hasAFloatType par1 \<and> IRMETHOD_hasAFloatType par2 then do {
          dataSize \<leftarrow> IRDATA_getSizeOfType (sizeof_JITNFLOAT E) (getTypeSize E) par1;
          r \<leftarrow> fold_float (float E) (dataSize = 4) ty (val par1) (val par2);
          IRMETHOD_eraseInstructionParameter 2 (IRMETHOD_setInstructionParameter1FValue r (as_move inst))
        }
        else Some inst)"


section \<open>One operand\<close>

definition bitcast_mask :: "nat \<Rightarrow> 64 word" where
  "bitcast_mask bytes = (if bytes = 8 then 0xFFFFFFFFFFFFFFFF else if bytes = 4 then 0xFFFFFFFF else if bytes = 3 then 0xFFFFFF
     else if bytes = 2 then 0xFFFF else if bytes = 1 then 0xFF else 0)"

text \<open>The switch on the type of the instruction, on the parameter of the new move and the old parameter.\<close>

definition fold_unary :: "fold_env \<Rightarrow> nat \<Rightarrow> ir_item \<Rightarrow> ir_item \<Rightarrow> ir_item \<Rightarrow> ir_item option" where
  "fold_unary E ty par1Copy resultCopy par2 =
    (let F = float E; v = val par1Copy; put = (\<lambda>x. Some (par2\<lparr>val := x\<rparr>));
         getSize = IRDATA_getSizeOfType (sizeof_JITNFLOAT E) (getTypeSize E)
     in if ty = IRNEG then put (if IRMETHOD_hasAFloatType par1Copy then fneg F v else - v)
        else if ty = IRNOT then put (NOT v)
        else if ty = IRISNAN then put (fisnan F v)
        else if ty = IRISINF then put (fisinf F v)
        else if ty = IRSIN then put (fsin F v)
        else if ty = IRCOS then put (fcos F v)
        else if ty = IRCOSH then put (fcosh F v)
        else if ty = IRCEIL then put (fceil F v)
        else if ty = IRACOS then put (facos F v)
        else if ty = IRSQRT then put (fsqrt F v)
        else if ty = IRFLOOR then put (ffloor F v)
        else if ty = IRBITCAST then
          let p = par1Copy\<lparr>type_infos := None, internal_type := internal_type resultCopy,
                item_type := as_item_type (internal_type resultCopy)\<rparr>
          in map_option (\<lambda>bytes. p\<lparr>val := val p AND bitcast_mask bytes\<rparr>) (getSize p)
        else if ty = IRSIZEOF then
          if v = IROBJECT \<or> v = IRVALUETYPE then put (getSizeOfObject E par1Copy)
          else map_option (\<lambda>bytes. par2\<lparr>val := word_of_nat bytes\<rparr>) (getSize par1Copy)
        else None)"

definition folding_arithmetic_1_operand :: "fold_env \<Rightarrow> ir_instruction \<Rightarrow> ir_instruction option" where
  "folding_arithmetic_1_operand E inst =
    (let par1 = param_1 inst; res = result inst
     in if IRDATA_isAVariable par1 \<or> IRDATA_isASymbol par1 \<or> internal_type par1 = IRMETHODID then Some inst
        else map_option (\<lambda>par2. ir_instr_init\<lparr>inst_type := IRMOVE, result := res, param_1 := par2\<rparr>)
          (fold_unary E (inst_type inst) par1 res (res\<lparr>item_type := as_item_type (internal_type res)\<rparr>)))"

section \<open>Conversions\<close>

text \<open>The types whose size depends on the platform, where pointers and \<open>JITNUINT\<close> have 8 bytes.\<close>

definition native_float :: "fold_env \<Rightarrow> nat" where
  "native_float E = (if IRDATA_getSizeOfIRType (sizeof_JITNFLOAT E) IRNFLOAT = Some 4 then IRFLOAT32 else IRFLOAT64)"

definition not_native :: "fold_env \<Rightarrow> nat \<Rightarrow> nat" where
  "not_native E ty =
    (let t = (if IRMETHOD_isAPointerType ty then IRNUINT else ty)
     in if t = IRNFLOAT then native_float E
        else if t = IRNUINT then (if IRDATA_getSizeOfIRType (sizeof_JITNFLOAT E) IRNUINT = Some 4 then IRUINT32 else IRUINT64)
        else if t = IRNINT then (if IRDATA_getSizeOfIRType (sizeof_JITNFLOAT E) IRNINT = Some 4 then IRINT32 else IRINT64)
        else t)"

text \<open>The value after a conversion, \<open>None\<close> if the instruction is not modified; for a float the outer option is undefined behaviour.\<close>

definition convert_integer :: "fold_env \<Rightarrow> nat \<Rightarrow> 64 word \<Rightarrow> 64 word option" where
  "convert_integer E ty v =
    (let t = not_native E ty
     in if t = IRINT8 then Some (signed_take_bit 7 v)
        else if t = IRINT16 then Some (signed_take_bit 15 v)
        else if t = IRINT32 then Some (signed_take_bit 31 v)
        else if t = IRINT64 then Some v
        else if t = IRUINT8 then Some (take_bit 8 v)
        else if t = IRUINT16 then Some (take_bit 16 v)
        else if t = IRUINT32 then Some (take_bit 32 v)
        else if t = IRUINT64 then Some v
        else if t = IRFLOAT64 then Some (i64_to_f (float E) v)
        else if t = IRFLOAT32 then Some (i64_to_single (float E) v)
        else None)"

definition convert_float :: "fold_env \<Rightarrow> nat \<Rightarrow> 64 word \<Rightarrow> 64 word option option" where
  "convert_float E ty f =
    (if IRMETHOD_isAPointerType ty \<or> ty = IRNINT \<or> ty = IRNUINT then
       map_option (\<lambda>u. Some (u64_to_f (float E) u)) (f_to_u64 (float E) f)
     else if IRMETHOD_isAFloatType ty then
       let t = (if ty = IRNFLOAT then native_float E else ty)
       in Some (Some (if t = IRFLOAT32 then to_single (float E) f else f))
     else Some None)"

definition fold_conversion :: "fold_env \<Rightarrow> ir_instruction \<Rightarrow> ir_instruction option" where
  "fold_conversion E inst =
    (let parameter = param_1 inst
     in if item_type parameter = IROFFSET \<or> item_type parameter = IRSYMBOL then Some inst
        else
          let typeToConvert = unat (take_bit 32 (val (param_2 inst)));
              valueType = unat (word_of_int (item_type parameter) :: 32 word)
          in do {
            modified \<leftarrow> (if IRMETHOD_isAnIntType valueType \<or> IRMETHOD_isAPointerType valueType
                         then Some (convert_integer E typeToConvert (val parameter))
                         else if IRMETHOD_isAFloatType valueType then convert_float E typeToConvert (val parameter)
                         else Some None);
            case modified of None \<Rightarrow> Some inst
            | Some v \<Rightarrow>
                let inst = IRMETHOD_setInstructionType IRMOVE (IRMETHOD_setInstructionParameter1Value v inst)
                in map_option (\<lambda>inst. inst\<lparr>param_1 := (param_1 inst)\<lparr>item_type := as_item_type typeToConvert,
                     internal_type := typeToConvert mod 2 ^ 16\<rparr>\<rparr>) (IRMETHOD_eraseInstructionParameter 2 inst)
          })"

section \<open>Branches and the loop\<close>

definition internal_transformConditionalBranchToUnconditional :: "ir_instruction \<Rightarrow> ir_instruction" where
  "internal_transformConditionalBranchToUnconditional inst = ir_instr_init\<lparr>inst_type := IRBRANCH, param_1 := param_2 inst\<rparr>"

text \<open>What becomes of a conditional branch: nothing happens, it is deleted, or it is always taken.\<close>

datatype branch_fold = Keep_branch | Delete_branch | Always_taken

definition fold_branch :: "fold_env \<Rightarrow> ir_instruction \<Rightarrow> branch_fold" where
  "fold_branch E inst =
    (if item_type (param_1 inst) = IROFFSET then Keep_branch
     else
       let par1 = (if item_type (param_1 inst) = IRSYMBOL then resolveSymbol E (param_1 inst) else param_1 inst)
       in if inst_type inst = IRBRANCHIF then
            if item_type par1 \<noteq> IROBJECT \<and> item_type par1 \<noteq> IRMPOINTER \<and> item_type par1 \<noteq> IRNINT
            then (if val par1 = 0 then Delete_branch else Always_taken)
            else Always_taken
          else (if val par1 \<noteq> 0 then Delete_branch else Always_taken))"

definition arithmetic_2_operands :: "nat set" where
  "arithmetic_2_operands = {IRADD, IRMUL, IRSUB, IRAND, IROR, IRXOR, IRSHL, IRSHR, IRREM, IRPOW, IRGT, IRLT, IREQ, IRDIV}"

definition arithmetic_1_operand :: "nat set" where
  "arithmetic_1_operand = {IRNEG, IRBITCAST, IRNOT, IRISNAN, IRISINF, IRSIN, IRCOS, IRACOS, IRCOSH, IRCEIL, IRFLOOR, IREXP,
     IRLOG10, IRSIZEOF, IRSQRT}"

definition internal_folding :: "fold_env \<Rightarrow> nat \<Rightarrow> ir_method \<Rightarrow> ir_method option" where
  "internal_folding E instID m =
    (let inst = ir_instr_get_by_pos m instID; ty = inst_type inst; put = (\<lambda>i. replace_instruction instID i m)
     in if ty \<in> arithmetic_2_operands then map_option put (folding_arithmetic_2_operands E inst)
        else if ty \<in> arithmetic_1_operand then map_option put (folding_arithmetic_1_operand E inst)
        else if ty = IRBRANCHIF \<or> ty = IRBRANCHIFNOT then
          (case fold_branch E inst of
             Keep_branch \<Rightarrow> Some m
           | Delete_branch \<Rightarrow> Some (delete_instruction instID m)
           | Always_taken \<Rightarrow> Some (put (internal_transformConditionalBranchToUnconditional inst)))
        else if ty = IRCONV then map_option put (fold_conversion E inst)
        else Some m)"

lemma internal_folding_count: "internal_folding E i m = Some m' \<Longrightarrow> ir_instr_count m' \<le> ir_instr_count m"
  by (auto simp: internal_folding_def Let_def count_delete split: if_splits branch_fold.splits)

text \<open>The loop goes on at the next position even after a deletion, which has moved the next instruction to the current one.\<close>

function constant_folding_from :: "fold_env \<Rightarrow> nat \<Rightarrow> ir_method \<Rightarrow> ir_method option" where
  "constant_folding_from E instID m =
    (if instID < ir_instr_count m
     then do { m' \<leftarrow> internal_folding E instID m; constant_folding_from E (instID + 1) m' }
     else Some m)"
  by pat_completeness auto

termination
  by (relation "measure (\<lambda>(E, i, m). ir_instr_count m - i)") (auto dest!: internal_folding_count)

declare constant_folding_from.simps [simp del]

definition constant_folding :: "fold_env \<Rightarrow> ir_method \<Rightarrow> ir_method option" where
  "constant_folding E m = constant_folding_from E 0 m"


section \<open>Arithmetic at the width of a type\<close>

text \<open>
  The specification: the operation on integers that are the values of a type. A division by zero and a shift by the width of the type or
  more have no result.
\<close>

definition bits_of_type :: "nat \<Rightarrow> nat" where
  "bits_of_type ty = (if ty \<in> {IRINT8, IRUINT8} then 8 else if ty \<in> {IRINT16, IRUINT16} then 16
     else if ty \<in> {IRINT32, IRUINT32} then 32 else 64)"

definition value_of_type :: "nat \<Rightarrow> 64 word \<Rightarrow> int" where
  "value_of_type ty v = (if IRMETHOD_isASignedType ty then sint v else uint v)"

definition in_type :: "nat \<Rightarrow> int \<Rightarrow> bool" where
  "in_type ty a \<longleftrightarrow> (let w = bits_of_type ty in
     if IRMETHOD_isASignedType ty then - (2 ^ (w - 1)) \<le> a \<and> a < 2 ^ (w - 1) else 0 \<le> a \<and> a < 2 ^ w)"

definition int_operation :: "nat \<Rightarrow> nat \<Rightarrow> int \<Rightarrow> int \<Rightarrow> int option" where
  "int_operation opcode w a b =
    (if opcode = IRADD then Some (a + b)
     else if opcode = IRMUL then Some (a * b)
     else if opcode = IRSUB then Some (a - b)
     else if opcode = IRDIV then (if b = 0 then None else Some (a sdiv b))
     else if opcode = IRREM then (if b = 0 then None else Some (a smod b))
     else if opcode = IRAND then Some (a AND b)
     else if opcode = IROR then Some (a OR b)
     else if opcode = IRXOR then Some (a XOR b)
     else if opcode = IRSHL then (if 0 \<le> b \<and> b < int w then Some (a * 2 ^ nat b) else None)
     else if opcode = IRSHR then (if 0 \<le> b \<and> b < int w then Some (a div 2 ^ nat b) else None)
     else if opcode = IRGT then Some (of_bool (a > b))
     else if opcode = IRLT then Some (of_bool (a < b))
     else if opcode = IREQ then Some (of_bool (a = b))
     else None)"

definition int_types :: "nat set" where
  "int_types = {IRINT8, IRINT16, IRINT32, IRINT64, IRNINT, IRUINT8, IRUINT16, IRUINT32, IRUINT64, IRNUINT}"

lemma signed_result_fits: "- (2 ^ 63) \<le> r \<Longrightarrow> r < 2 ^ 63 \<Longrightarrow> \<exists>v. signed_result r = Some v \<and> sint v = r"
  by (auto simp: signed_result_def signed_of_int signed_take_bit_int_eq_self)

lemma sint_of_bool: "sint (of_bool b :: 64 word) = of_bool b" "uint (of_bool b :: 64 word) = of_bool b"
  by (cases b; simp)+

lemmas opcode_simps = int_operation_def fold_signed_def fold_unsigned_def

lemma int_operation_opcode:
  assumes "int_operation opcode w a b = Some r"
  shows "opcode \<in> {IRADD, IRMUL, IRSUB, IRDIV, IRREM, IRAND, IROR, IRXOR, IRSHL, IRSHR, IRGT, IRLT, IREQ}"
  using assms by (simp add: int_operation_def split: if_split_asm)

text \<open>The folding of signed values is the operation on integers wherever its result, or for a remainder the quotient, is one of 64 bits.\<close>

lemma fold_signed_arith:
  assumes "opcode \<in> {IRADD, IRMUL, IRSUB}" and "int_operation opcode w (sint p1) (sint p2) = Some r"
    and "- (2 ^ 63) \<le> r" "r < 2 ^ 63"
  shows "\<exists>v. fold_signed opcode p1 p2 = Some v \<and> sint v = r"
  using assms(1,2) signed_result_fits [OF assms(3,4)] by (elim insertE) (simp_all add: opcode_simps)


lemma sint_range64: "- (2 ^ 63) \<le> sint (p :: 64 word)" "sint (p :: 64 word) < 2 ^ 63"
  using sint_greater_eq [of p] sint_less [of p] by simp_all

lemma sint_zero: "sint (p :: 64 word) = 0 \<longleftrightarrow> p = 0"
  by (simp add: signed_eq_0_iff)

lemma fold_signed_div:
  assumes "int_operation IRDIV w (sint p1) (sint p2) = Some r" and "- (2 ^ 63) \<le> r" "r < 2 ^ 63"
  shows "\<exists>v. fold_signed IRDIV p1 p2 = Some v \<and> sint v = r"
proof -
  have n: "p2 \<noteq> 0" "r = sint p1 sdiv sint p2"
    using assms(1) sint_zero [of p2] by (simp_all add: opcode_simps split: if_split_asm)
  show ?thesis
  proof (cases "p1 = 0")
    case True
    then show ?thesis using n by (simp add: fold_signed_def)
  next
    case False
    then show ?thesis using signed_result_fits [OF assms(2,3)] n by (simp add: fold_signed_def)
  qed
qed

lemma sdiv_fits:
  assumes "\<not> (sint (p1 :: 64 word) = - (2 ^ 63) \<and> sint (p2 :: 64 word) = - 1)"
  shows "- (2 ^ 63) \<le> sint p1 sdiv sint p2 \<and> sint p1 sdiv sint p2 < 2 ^ 63"
proof (cases "sint p1 = - (2 ^ 63)")
  case True
  then have "sint p2 \<noteq> - 1" using assms by simp
  then have "sint p1 sdiv sint p2 \<noteq> - sint p1" using True int_sdiv_negated_is_minus1 [of "sint p1" "sint p2"] by simp
  then show ?thesis using True sdiv_int_range [of "sint p1" "sint p2"] by simp
next
  case False
  then have "\<bar>sint p1\<bar> < 2 ^ 63" using sint_range64 [of p1] by linarith
  then show ?thesis using sdiv_int_range [of "sint p1" "sint p2"] by auto
qed

lemma fold_signed_rem:
  assumes "int_operation IRREM w (sint p1) (sint p2) = Some r" and "\<not> (sint p1 = - (2 ^ 63) \<and> sint p2 = - 1)"
  shows "\<exists>v. fold_signed IRREM p1 p2 = Some v \<and> sint v = r"
proof -
  have n: "p2 \<noteq> 0" "r = sint p1 smod sint p2"
    using assms(1) sint_zero [of p2] by (simp_all add: opcode_simps split: if_split_asm)
  obtain q where "signed_result (sint p1 sdiv sint p2) = Some q"
    using signed_result_fits sdiv_fits [OF assms(2)] by blast
  then have v: "fold_signed IRREM p1 p2 = Some (word_of_int r)" using n by (simp add: fold_signed_def)
  have "\<bar>r\<bar> < \<bar>sint p2\<bar>" using smod_int_range [of "sint p2" "sint p1"] sint_zero [of p2] n by auto
  then have "- (2 ^ 63) \<le> r" "r < 2 ^ 63" using sint_range64 [of p2] by linarith+
  then have "sint (word_of_int r :: 64 word) = r" by (simp add: signed_of_int signed_take_bit_int_eq_self)
  with v show ?thesis by simp
qed

lemma sint_eq: "sint p = sint q \<longleftrightarrow> p = (q :: 64 word)"
  using signed_word_eqI by blast

lemma fold_signed_bits:
  assumes "opcode \<in> {IRAND, IROR, IRXOR, IRGT, IRLT, IREQ}" and "int_operation opcode w (sint p1) (sint p2) = Some r"
  shows "\<exists>v. fold_signed opcode p1 p2 = Some v \<and> sint v = r"
  using assms by (elim insertE) (simp_all add: opcode_simps signed_and_eq signed_or_eq signed_xor_eq sint_of_bool sint_eq)

lemma shift_amount:
  assumes "0 \<le> sint (p2 :: 64 word)"
  shows "int (unat p2) = sint p2"
proof -
  have "uint p2 = sint p2" using assms sint_range64 [of p2] uint_sint [of p2] by (simp add: take_bit_int_eq_self)
  then show ?thesis by simp
qed

lemma fold_signed_shr:
  assumes "int_operation IRSHR w (sint p1) (sint p2) = Some r" and "w \<le> 64"
  shows "\<exists>v. fold_signed IRSHR p1 p2 = Some v \<and> sint v = r"
proof -
  have b: "0 \<le> sint p2" "sint p2 < int w" "r = sint p1 div 2 ^ nat (sint p2)"
    using assms(1) by (simp_all add: opcode_simps split: if_split_asm)
  then have u: "nat (sint p2) = unat p2" using shift_amount by (metis nat_int)
  then have "unat p2 < 64" using b assms(2) by linarith
  then show ?thesis using b(3) u by (simp add: fold_signed_def sint_signed_drop_bit_eq drop_bit_eq_div)
qed

lemma fold_shl:
  assumes "b = int (unat p2)" "int_operation IRSHL w a b = Some r" and "w \<le> 64" and a: "a mod 2 ^ 64 = uint p1"
  shows "fold_signed IRSHL p1 p2 = Some (push_bit (unat p2) p1)" "fold_unsigned IRSHL p1 p2 = Some (push_bit (unat p2) p1)"
    "uint (push_bit (unat p2) p1) = r mod 2 ^ 64"
proof -
  have b: "unat p2 < w" "r = a * 2 ^ unat p2"
    using assms(2) unfolding assms(1) by (simp_all only: int_operation_def of_nat_less_iff nat_int of_nat_0_le_iff) (simp_all split: if_split_asm)
  then show "fold_signed IRSHL p1 p2 = Some (push_bit (unat p2) p1)" "fold_unsigned IRSHL p1 p2 = Some (push_bit (unat p2) p1)"
    using assms(3) by (simp_all add: opcode_simps)
  have "uint (push_bit (unat p2) p1) = (uint p1 * 2 ^ unat p2) mod 2 ^ 64"
    unfolding unsigned_push_bit_eq by (simp add: take_bit_eq_mod push_bit_eq_mult)
  also have "\<dots> = r mod 2 ^ 64" unfolding b(2) using a by (metis mod_mult_left_eq)
  finally show "uint (push_bit (unat p2) p1) = r mod 2 ^ 64" .
qed

lemma uint_zero: "uint (p :: 64 word) = 0 \<longleftrightarrow> p = 0"
  by (simp add: unsigned_eq_0_iff)

lemma fold_unsigned_arith:
  assumes "opcode \<in> {IRADD, IRMUL, IRSUB}" and "int_operation opcode w (uint p1) (uint p2) = Some r"
  shows "\<exists>v. fold_unsigned opcode p1 p2 = Some v \<and> uint v = r mod 2 ^ 64"
proof -
  have "fold_unsigned opcode p1 p2 = Some (word_of_int r)"
    using assms by (elim insertE) (auto simp: opcode_simps)
  then show ?thesis by (simp add: uint_word_of_int)
qed

lemma sdiv_nonneg:
  assumes "0 \<le> a" "0 < (b :: int)"
  shows "a sdiv b = a div b" "a smod b = a mod b"
  using assms by (simp_all add: signed_divide_int_def signed_modulo_int_def sgn_if)

lemma uint_eq: "uint p = uint q \<longleftrightarrow> p = (q :: 64 word)"
  by (simp add: word_uint_eq_iff)

lemma fold_unsigned_div:
  assumes "opcode \<in> {IRDIV, IRREM}" and "int_operation opcode w (uint p1) (uint p2) = Some r"
  shows "\<exists>v. fold_unsigned opcode p1 p2 = Some v \<and> uint v = r"
proof -
  have n: "uint p2 \<noteq> 0" using assms by (elim insertE) (simp_all add: int_operation_def split: if_split_asm)
  then have z: "0 < uint p2" "p2 \<noteq> 0" using uint_ge_0 [of p2] by (linarith, auto)
  have "uint p1 sdiv uint p2 = uint (p1 div p2)" "uint p1 smod uint p2 = uint (p1 mod p2)"
    using z by (simp_all add: sdiv_nonneg uint_div uint_mod)
  then have "int_operation IRDIV w (uint p1) (uint p2) = Some (uint (p1 div p2))" "int_operation IRREM w (uint p1) (uint p2) = Some (uint (p1 mod p2))"
    using n by (simp_all add: int_operation_def)
  moreover have "fold_unsigned IRDIV p1 p2 = Some (p1 div p2)" "fold_unsigned IRREM p1 p2 = Some (p1 mod p2)"
    using z by (simp_all add: fold_unsigned_def)
  ultimately show ?thesis using assms by (elim insertE) auto
qed

lemma fold_unsigned_bits:
  assumes "opcode \<in> {IRAND, IROR, IRXOR, IRGT, IRLT, IREQ}" and "int_operation opcode w (uint p1) (uint p2) = Some r"
  shows "\<exists>v. fold_unsigned opcode p1 p2 = Some v \<and> uint v = r"
  using assms by (elim insertE) (simp_all add: opcode_simps unsigned_and_eq unsigned_or_eq unsigned_xor_eq sint_of_bool word_less_def uint_eq)

lemma fold_unsigned_shr:
  assumes "int_operation IRSHR w (uint p1) (uint p2) = Some r" and "w \<le> 64"
  shows "\<exists>v. fold_unsigned IRSHR p1 p2 = Some v \<and> uint v = r"
proof -
  have b: "uint p2 < int w" "r = uint p1 div 2 ^ nat (uint p2)"
    using assms(1) by (simp_all add: opcode_simps split: if_split_asm)
  have u: "nat (uint p2) = unat p2" by simp
  then have "unat p2 < 64" using b assms(2) by linarith
  moreover have "uint (drop_bit (unat p2) p1) = r" unfolding b(2) u uint_nat unat_drop_bit_eq by (simp add: drop_bit_eq_div zdiv_int)
  ultimately show ?thesis by (simp only: fold_unsigned_def) simp
qed


section \<open>Properties\<close>

definition int_constant :: "nat \<Rightarrow> ir_item \<Rightarrow> bool" where
  "int_constant ty item \<longleftrightarrow> item_type item = int ty \<and> internal_type item = ty \<and> in_type ty (value_of_type ty (val item))"

lemma int_constant_facts:
  assumes "int_constant ty item" and "ty \<in> int_types"
  shows "\<not> IRDATA_isAVariable item" "\<not> IRDATA_isASymbol item" "\<not> IRMETHOD_hasAFloatType item"
    "IRMETHOD_hasASignedType item = Some (IRMETHOD_isASignedType ty)"
  using assms unfolding int_types_def
  by (auto simp: int_constant_def IRDATA_isAVariable_def IRDATA_isASymbol_def IRMETHOD_hasAFloatType_def described_type_def
    IRMETHOD_isAFloatType_def IRMETHOD_hasASignedType_def IRMETHOD_isASignedType_def Let_def)

text \<open>Within the range of a signed type of at most 32 bits nothing overflows 64 bits.\<close>

lemma div_power_bounds:
  assumes "- (2 ^ 31) \<le> (a :: int)" "a < 2 ^ 31"
  shows "- (2 ^ 31) \<le> a div 2 ^ n" "a div 2 ^ n < 2 ^ 31"
proof -
  have c: "(1 :: int) \<le> 2 ^ n" by simp
  show "- (2 ^ 31) \<le> a div 2 ^ n" "a div 2 ^ n < 2 ^ 31"
    using zdiv_mono2 [of a 1 "2 ^ n"] zdiv_mono2_neg [of a 1 "2 ^ n"] div_neg_pos_less0 [of a "2 ^ n"]
      pos_imp_zdiv_nonneg_iff [of "2 ^ n" a] c assms by (cases "0 \<le> a"; simp)+
qed

lemma signed_take_bit_logical:
  "signed_take_bit n (a AND b) = signed_take_bit n a AND signed_take_bit n (b :: int)"
  "signed_take_bit n (a OR b) = signed_take_bit n a OR signed_take_bit n (b :: int)"
  "signed_take_bit n (a XOR b) = signed_take_bit n a XOR signed_take_bit n (b :: int)"
  by (rule bit_eqI; simp add: bit_signed_take_bit_iff bit_and_iff bit_or_iff bit_xor_iff)+

lemma narrow_fits:
  assumes op: "int_operation opcode w a b = Some r" and shl: "opcode \<noteq> IRSHL"
    and a: "- (2 ^ 31) \<le> a" "a < 2 ^ 31" and b: "- (2 ^ 31) \<le> b" "b < 2 ^ 31"
  shows "- (2 ^ 63) \<le> r \<and> r < 2 ^ 63"
proof -
  have st: "signed_take_bit 31 a = a" "signed_take_bit 31 b = b" using a b by (simp_all add: signed_take_bit_int_eq_self)
  have fits: "- (2 ^ 63) \<le> r \<and> r < 2 ^ 63" if "signed_take_bit 31 r = r"
    using that signed_take_bit_int_greater_eq_minus_exp [of 31 r] signed_take_bit_int_less_exp [of 31 r] by simp
  consider "opcode = IRADD" | "opcode = IRMUL" | "opcode = IRSUB" | "opcode = IRDIV" | "opcode = IRREM" | "opcode \<in> {IRAND, IROR, IRXOR}" |
    "opcode = IRSHR" | "opcode \<in> {IRGT, IRLT, IREQ}"
    using int_operation_opcode [OF op] shl by (elim insertE) simp_all
  then show ?thesis
  proof cases
    case 1
    then have "r = a + b" using op by (simp add: int_operation_def)
    then show ?thesis using a b by simp
  next
    case 2
    then have "r = a * b" using op by (simp add: int_operation_def)
    then have "\<bar>r\<bar> = \<bar>a\<bar> * \<bar>b\<bar>" by (simp only: abs_mult)
    also have "\<dots> \<le> 2 ^ 31 * 2 ^ 31" using a b by (intro mult_mono) simp_all
    finally show ?thesis by (simp add: abs_le_iff)
  next
    case 3
    then have "r = a - b" using op by (simp add: int_operation_def)
    then show ?thesis using a b by simp
  next
    case 4
    then have "r = a sdiv b" using op by (simp add: int_operation_def split: if_split_asm)
    then show ?thesis using sdiv_int_range [of a b] a by auto
  next
    case 5
    then have "b \<noteq> 0" "r = a smod b" using op by (simp_all add: int_operation_def split: if_split_asm)
    then show ?thesis using smod_int_range [of b a] b by auto
  next
    case 6
    then have "signed_take_bit 31 r = r" using op st
      by (elim insertE) (auto simp: int_operation_def signed_take_bit_logical)
    then show ?thesis by (rule fits)
  next
    case 7
    then have "r = a div 2 ^ nat b" using op by (simp add: int_operation_def split: if_split_asm)
    then show ?thesis using div_power_bounds [OF a, of "nat b"] by simp
  next
    case 8
    then have "0 \<le> r \<and> r \<le> 1" using op by (elim insertE) (auto simp: int_operation_def)
    then show ?thesis by simp
  qed
qed


lemma value_mod: "value_of_type ty v mod 2 ^ 64 = uint v"
  using uint_sint [of v] by (simp add: take_bit_eq_mod value_of_type_def)

lemma bits_of_type_bounds: "0 < bits_of_type ty" "bits_of_type ty \<le> 64"
  by (simp_all add: bits_of_type_def)

lemma signed_width:
  assumes "ty \<in> int_types" and "IRMETHOD_isASignedType ty"
  shows "bits_of_type ty \<in> {8, 16, 32, 64}" "bits_of_type ty = 64 \<longleftrightarrow> ty \<in> {IRINT64, IRNINT}"
  using assms by (auto simp: int_types_def IRMETHOD_isASignedType_def bits_of_type_def)

lemma fold_value:
  assumes ty: "ty \<in> int_types" and p: "in_type ty (value_of_type ty p1)" "in_type ty (value_of_type ty p2)"
    and op: "int_operation opcode (bits_of_type ty) (value_of_type ty p1) (value_of_type ty p2) = Some r"
    and wide: "ty \<in> {IRINT64, IRNINT} \<Longrightarrow> - (2 ^ 63) \<le> r \<and> r < 2 ^ 63 \<and> \<not> (value_of_type ty p1 = - (2 ^ 63) \<and> value_of_type ty p2 = - 1)"
  shows "\<exists>v. (if IRMETHOD_isASignedType ty then fold_signed else fold_unsigned) opcode p1 p2 = Some v \<and>
    value_of_type ty v mod 2 ^ 64 = r mod 2 ^ 64"
proof -
  let ?w = "bits_of_type ty"
  note w = bits_of_type_bounds(2) [of ty]
  note ops = int_operation_opcode [OF op]
  show ?thesis
  proof (cases "IRMETHOD_isASignedType ty")
    case True
    then have v: "value_of_type ty x = sint x" for x by (simp add: value_of_type_def)
    note op = op [unfolded v]
    show ?thesis
    proof (cases "opcode = IRSHL")
      case True
      note op = op [unfolded True]
      then have "0 \<le> sint p2" by (simp add: int_operation_def split: if_split_asm)
      then have b: "sint p2 = int (unat p2)" using shift_amount by simp
      have a: "sint p1 mod 2 ^ 64 = uint p1" using value_mod [of ty p1] v by simp
      show ?thesis using fold_shl [OF b op w a] \<open>IRMETHOD_isASignedType ty\<close> True value_mod by simp
    next
      case False
      have fits: "- (2 ^ 63) \<le> r \<and> r < 2 ^ 63 \<and> \<not> (sint p1 = - (2 ^ 63) \<and> sint p2 = - 1)"
      proof (cases "ty \<in> {IRINT64, IRNINT}")
        case True
        then show ?thesis using wide v by simp
      next
        case f: False
        then have "?w \<in> {8, 16, 32}" using signed_width [OF ty \<open>IRMETHOD_isASignedType ty\<close>] by auto
        then have "- (2 ^ 31) \<le> sint p1" "sint p1 < 2 ^ 31" "- (2 ^ 31) \<le> sint p2" "sint p2 < 2 ^ 31"
          using p \<open>IRMETHOD_isASignedType ty\<close> unfolding in_type_def Let_def v by auto
        then show ?thesis using narrow_fits [OF op False] by simp
      qed
      consider "opcode \<in> {IRADD, IRMUL, IRSUB}" | "opcode = IRDIV" | "opcode = IRREM" | "opcode = IRSHR" |
        "opcode \<in> {IRAND, IROR, IRXOR, IRGT, IRLT, IREQ}" using ops False by blast
      then have "\<exists>v. fold_signed opcode p1 p2 = Some v \<and> sint v = r"
        by cases (use fits op w fold_signed_arith [OF _ op] fold_signed_div [of ?w p1 p2 r] fold_signed_rem [of ?w p1 p2 r]
          fold_signed_shr [of ?w p1 p2 r] fold_signed_bits [OF _ op] in simp_all)
      then show ?thesis using True v by auto
    qed
  next
    case False
    then have v: "value_of_type ty x = uint x" for x by (simp add: value_of_type_def)
    note op = op [unfolded v]
    consider "opcode \<in> {IRADD, IRMUL, IRSUB}" | "opcode \<in> {IRDIV, IRREM}" | "opcode = IRSHR" | "opcode = IRSHL" |
      "opcode \<in> {IRAND, IROR, IRXOR, IRGT, IRLT, IREQ}" using ops by blast
    then have "\<exists>v. fold_unsigned opcode p1 p2 = Some v \<and> uint v mod 2 ^ 64 = r mod 2 ^ 64"
    proof cases
      case 4
      then show ?thesis using fold_shl(2,3) [OF _ op [unfolded 4] w] value_mod [of IRUINT64 p1] by (auto simp: value_of_type_def IRMETHOD_isASignedType_def)
    qed (use op w fold_unsigned_arith [OF _ op] fold_unsigned_div [OF _ op] fold_unsigned_shr [of ?w p1 p2 r] fold_unsigned_bits [OF _ op]
        in auto)
    then show ?thesis using False v by simp
  qed
qed


lemma congruent_in_type:
  assumes "ty \<in> int_types" and "value_of_type ty v mod 2 ^ 64 = r mod 2 ^ 64" and "in_type ty r"
  shows "value_of_type ty v = r"
proof (cases "IRMETHOD_isASignedType ty")
  case True
  then have "value_of_type ty v = sint v" "- (2 ^ 63) \<le> r" "r < 2 ^ 63"
    using assms(1,3) signed_width(1) [OF assms(1)] by (auto simp: value_of_type_def in_type_def Let_def)
  moreover have "take_bit 64 (sint v) = take_bit 64 r" using assms(2) calculation(1) by (simp add: take_bit_eq_mod)
  then have "signed_take_bit 63 (sint v) = signed_take_bit 63 r" by (simp add: signed_take_bit_eq_iff_take_bit_eq)
  ultimately show ?thesis using sint_range64 [of v] by (simp add: signed_take_bit_int_eq_self)
next
  case False
  have "(2 :: int) ^ bits_of_type ty \<le> 2 ^ 64" using bits_of_type_bounds(2) by (intro power_increasing) simp_all
  moreover have "value_of_type ty v = uint v" "0 \<le> r" "r < 2 ^ bits_of_type ty"
    using False assms(3) by (simp_all add: value_of_type_def in_type_def Let_def)
  ultimately have "value_of_type ty v = uint v" "0 \<le> r" "r < 2 ^ 64" by linarith+
  with assms(2) show ?thesis using uint_bounded [of v] by simp
qed

text \<open>
  C8: Constant folding computes arithmetic at the width of the type. An operation on two constants of an integer type becomes a move of a
  constant of the type of the result, to the same variable; the constant agrees with the result of the operation on integers
  modulo \<open>2 ^ w\<close> for a type of \<open>w\<close> bits, and it is that result when the type holds it. It does not trap, unless the divisor is
  zero, or signed 64-bit arithmetic overflows, or a shift is too wide.
\<close>

theorem folding_agrees_with_width:
  assumes ty: "ty \<in> int_types" and c: "int_constant ty (param_1 (ir_instr_get_by_pos m i))" "int_constant ty (param_2 (ir_instr_get_by_pos m i))"
    and op: "int_operation (type_at m i) (bits_of_type ty) (value_of_type ty (val (param_1 (ir_instr_get_by_pos m i))))
      (value_of_type ty (val (param_2 (ir_instr_get_by_pos m i)))) = Some r"
    and wide: "ty \<in> {IRINT64, IRNINT} \<longrightarrow> - (2 ^ 63) \<le> r \<and> r < 2 ^ 63 \<and>
      \<not> (value_of_type ty (val (param_1 (ir_instr_get_by_pos m i))) = - (2 ^ 63) \<and> value_of_type ty (val (param_2 (ir_instr_get_by_pos m i))) = - 1)"
  shows "\<exists>inst. internal_folding E i m = Some (replace_instruction i inst m) \<and>
    inst_type inst = IRMOVE \<and> item_type (result inst) = IROFFSET \<and> val (result inst) = val (result (ir_instr_get_by_pos m i)) \<and>
    internal_type (param_1 inst) = internal_type (result (ir_instr_get_by_pos m i)) \<and> param_2 inst = nopar_item \<and>
    value_of_type ty (val (param_1 inst)) mod 2 ^ bits_of_type ty = r mod 2 ^ bits_of_type ty \<and>
    (in_type ty r \<longrightarrow> value_of_type ty (val (param_1 inst)) = r)"
proof -
  let ?i = "ir_instr_get_by_pos m i"
  have p: "in_type ty (value_of_type ty (val (param_1 ?i)))" "in_type ty (value_of_type ty (val (param_2 ?i)))"
    using c by (simp_all add: int_constant_def)
  obtain v where
    v: "(if IRMETHOD_isASignedType ty then fold_signed else fold_unsigned) (type_at m i) (val (param_1 ?i)) (val (param_2 ?i)) = Some v"
    and cong: "value_of_type ty v mod 2 ^ 64 = r mod 2 ^ 64"
    using fold_value [OF ty p op] wide by blast
  have "type_at m i \<in> arithmetic_2_operands" using int_operation_opcode [OF op] by (auto simp: arithmetic_2_operands_def)
  define inst where "inst = IRMETHOD_setInstructionParameter1Value v (as_move ?i)\<lparr>param_2 := nopar_item\<rparr>"
  have "internal_folding E i m = Some (replace_instruction i inst m)" unfolding inst_def
    using int_constant_facts [OF c(1) ty] int_constant_facts [OF c(2) ty] v \<open>type_at m i \<in> arithmetic_2_operands\<close>
    by (simp add: internal_folding_def folding_arithmetic_2_operands_def Let_def IRMETHOD_eraseInstructionParameter_def)
  moreover have "value_of_type ty v mod 2 ^ bits_of_type ty = r mod 2 ^ bits_of_type ty"
    using cong mod_mod_cancel [OF le_imp_power_dvd [OF bits_of_type_bounds(2)], of _ 2 ty] by metis
  moreover have "in_type ty r \<longrightarrow> value_of_type ty v = r" using congruent_in_type [OF ty cong] by blast
  ultimately show ?thesis
    by (intro exI [of _ inst]) (simp add: inst_def IRMETHOD_setInstructionParameter1Value_def as_move_def IRMETHOD_setInstructionType_def Let_def)
qed


text \<open>\<open>0: v0 = 7 - 12; 1: ret v0\<close> on 8-bit integers.\<close>

definition int_item :: "nat \<Rightarrow> 64 word \<Rightarrow> ir_item" where
  "int_item ty v = \<lparr>val = v, item_type = int ty, internal_type = ty, type_infos = None\<rparr>"

definition int_variable :: "nat \<Rightarrow> 64 word \<Rightarrow> ir_item" where
  "int_variable ty v = \<lparr>val = v, item_type = IROFFSET, internal_type = ty, type_infos = None\<rparr>"

definition fold_demo :: ir_method where
  "fold_demo = mk_method 0 1
    [mk_inst IRSUB (int_variable IRINT8 0) (int_item IRINT8 7) (int_item IRINT8 12),
     mk_inst IRRET nopar_item (int_variable IRINT8 0) nopar_item]"


lemma fold_demo_instruction:
  "ir_instr_get_by_pos fold_demo 0 = mk_inst IRSUB (int_variable IRINT8 0) (int_item IRINT8 7) (int_item IRINT8 12)"
  by (simp add: fold_demo_def demo_simps)

theorem folding_agrees_with_width_witness:
  "\<forall>E. \<exists>inst. internal_folding E 0 fold_demo = Some (replace_instruction 0 inst fold_demo) \<and>
    inst_type inst = IRMOVE \<and> value_of_type IRINT8 (val (param_1 inst)) = - 5"
proof -
  note i = fold_demo_instruction
  have ty: "IRINT8 \<in> int_types" by (simp add: int_types_def)
  have c: "int_constant IRINT8 (param_1 (ir_instr_get_by_pos fold_demo 0))" "int_constant IRINT8 (param_2 (ir_instr_get_by_pos fold_demo 0))"
    unfolding i by (simp_all add: int_constant_def int_item_def in_type_def value_of_type_def bits_of_type_def IRMETHOD_isASignedType_def demo_simps)
  have op: "int_operation (type_at fold_demo 0) (bits_of_type IRINT8) (value_of_type IRINT8 (val (param_1 (ir_instr_get_by_pos fold_demo 0))))
      (value_of_type IRINT8 (val (param_2 (ir_instr_get_by_pos fold_demo 0)))) = Some (- 5)"
    unfolding i by (simp add: int_operation_def int_item_def value_of_type_def IRMETHOD_isASignedType_def demo_simps)
  have "in_type IRINT8 (- 5)" by (simp add: in_type_def bits_of_type_def IRMETHOD_isASignedType_def)
  with folding_agrees_with_width [OF ty c op] show ?thesis by (intro allI) auto
qed

lemma constant_folding_from_step:
  "i < ir_instr_count m \<Longrightarrow> internal_folding E i m = Some m' \<Longrightarrow> constant_folding_from E i m = constant_folding_from E (i + 1) m'"
  "ir_instr_count m \<le> i \<Longrightarrow> constant_folding_from E i m = Some m"
  by (simp_all add: constant_folding_from.simps [of E i m])

lemma constant_folding_three:
  assumes "internal_folding E 0 m = Some m1" "internal_folding E 1 m1 = Some m2" "internal_folding E 2 m2 = Some m3"
    and "ir_instr_count m = 3" "ir_instr_count m1 = 3" "ir_instr_count m2 = 3" "ir_instr_count m3 = 3"
  shows "constant_folding E m = Some m3"
  using assms constant_folding_from_step(1) [of 0 m] constant_folding_from_step(1) [of 1 m1]
    constant_folding_from_step(1) [of 2 m2] constant_folding_from_step(2) [of m3 3]
  by (simp add: constant_folding_def numeral_2_eq_2 numeral_3_eq_3)

text \<open>\<open>0: v0 = 2147483647 + 1; 1: v1 = v0 > 0; 2: ret v1\<close> on 32-bit integers.\<close>

definition overflow_demo :: ir_method where
  "overflow_demo = mk_method 0 2
    [mk_inst IRADD (int_variable IRINT32 0) (int_item IRINT32 2147483647) (int_item IRINT32 1),
     mk_inst IRGT (int_variable IRINT32 1) (int_variable IRINT32 0) (int_item IRINT32 0),
     mk_inst IRRET nopar_item (int_variable IRINT32 1) nopar_item]"

text \<open>
  C29: A folded constant is not brought back to the range of its type. The sum of \<open>2147483647\<close> and \<open>1\<close> becomes the 32-bit constant
  \<open>2147483648\<close>; when it is propagated to a comparison and that is folded, the sum is positive, while the 32-bit sum
  is negative.
\<close>

theorem folded_constant_outside_its_type:
  "\<exists>m1 m2. constant_folding E overflow_demo = Some m1 \<and>
    \<not> in_type IRINT32 (value_of_type IRINT32 (val (param_1 (ir_instr_get_by_pos m1 0)))) \<and>
    constant_folding E (replace_instruction 1
      (internal_constant_propagation_apply (ir_instr_get_by_pos m1 0) (ir_instr_get_by_pos m1 1)) m1) = Some m2 \<and>
    type_at m2 1 = IRMOVE \<and> val (param_1 (ir_instr_get_by_pos m2 1)) = 1 \<and>
    int_operation IRGT 32 (signed_take_bit 31 (2147483647 + 1)) 0 = Some 0"
proof -
  let ?s = "mk_inst IRMOVE (int_variable IRINT32 0) (int_item IRINT32 2147483648) nopar_item"
  let ?c = "mk_inst IRGT (int_variable IRINT32 1) (int_item IRINT32 2147483648) (int_item IRINT32 0)"
  let ?d = "mk_inst IRMOVE (int_variable IRINT32 1) (int_item IRINT32 1) nopar_item"
  define g where "g = mk_inst IRGT (int_variable IRINT32 1) (int_variable IRINT32 0) (int_item IRINT32 0)"
  define x where "x = mk_inst IRRET nopar_item (int_variable IRINT32 1) nopar_item"
  note folds = folding_arithmetic_2_operands_def IRDATA_isAVariable_def IRDATA_isASymbol_def IRMETHOD_hasAFloatType_def described_type_def
    IRMETHOD_isAFloatType_def IRMETHOD_hasASignedType_def IRMETHOD_isASignedType_def IRMETHOD_eraseInstructionParameter_def
    IRMETHOD_setInstructionParameter1Value_def as_move_def IRMETHOD_setInstructionType_def as_item_type_def int_item_def int_variable_def
  have add: "folding_arithmetic_2_operands E (mk_inst IRADD (int_variable IRINT32 0) (int_item IRINT32 2147483647) (int_item IRINT32 1)) = Some ?s"
    by (simp add: folds fold_signed_def signed_result_def mk_inst_def nopar_item_def)
  have gt: "folding_arithmetic_2_operands E ?c = Some ?d"
    by (simp add: folds fold_signed_def signed_result_def mk_inst_def nopar_item_def)
  have keep: "folding_arithmetic_2_operands E g = Some g" by (simp add: g_def folds mk_inst_def)
  have none: "internal_folding E i (mk_method 0 2 [a, b, x]) = Some (mk_method 0 2 [a, b, x])" if "i = 2" for a b i
    using that by (simp add: internal_folding_def x_def arithmetic_2_operands_def arithmetic_1_operand_def demo_simps)
  have move: "internal_folding E 0 (mk_method 0 2 [?s, b, x]) = Some (mk_method 0 2 [?s, b, x])" for b
    by (simp add: internal_folding_def arithmetic_2_operands_def arithmetic_1_operand_def demo_simps)
  have count: "ir_instr_count (mk_method 0 2 [a, b, x]) = 3" for a b by (simp add: demo_simps)
  have first: "internal_folding E 0 overflow_demo = Some (mk_method 0 2 [?s, g, x])"
    using add by (simp add: internal_folding_def overflow_demo_def g_def [symmetric] x_def [symmetric] arithmetic_2_operands_def
      replace_instruction_def mk_method_def ir_instr_get_by_pos_def ir_instr_count_def) (simp add: mk_inst_def)
  have second: "internal_folding E 1 (mk_method 0 2 [?s, g, x]) = Some (mk_method 0 2 [?s, g, x])"
    using keep by (simp add: internal_folding_def arithmetic_2_operands_def replace_instruction_def mk_method_def
      ir_instr_get_by_pos_def ir_instr_count_def) (simp add: g_def mk_inst_def)
  have third: "internal_folding E 1 (mk_method 0 2 [?s, ?c, x]) = Some (mk_method 0 2 [?s, ?d, x])"
    using gt by (simp add: internal_folding_def arithmetic_2_operands_def replace_instruction_def mk_method_def
      ir_instr_get_by_pos_def ir_instr_count_def) (simp add: mk_inst_def)
  have n: "ir_instr_count overflow_demo = 3" by (simp add: overflow_demo_def demo_simps)
  have m1: "constant_folding E overflow_demo = Some (mk_method 0 2 [?s, g, x])"
    by (rule constant_folding_three [OF first second none]) (simp_all add: n count)
  have m2: "constant_folding E (mk_method 0 2 [?s, ?c, x]) = Some (mk_method 0 2 [?s, ?d, x])"
    by (rule constant_folding_three [OF move third none]) (simp_all add: count)
  have "internal_constant_propagation_apply ?s g = ?c"
    by (simp add: internal_constant_propagation_apply_def Let_def forward_def ir_instr_pars_count_get_def upt_rec g_def int_item_def
      int_variable_def demo_simps)
  then have p: "replace_instruction 1 (internal_constant_propagation_apply (ir_instr_get_by_pos (mk_method 0 2 [?s, g, x]) 0)
      (ir_instr_get_by_pos (mk_method 0 2 [?s, g, x]) 1)) (mk_method 0 2 [?s, g, x]) = mk_method 0 2 [?s, ?c, x]"
    by (simp add: replace_instruction_def mk_method_def ir_instr_get_by_pos_def ir_instr_count_def)
  have out: "\<not> in_type IRINT32 (value_of_type IRINT32 (val (param_1 (ir_instr_get_by_pos (mk_method 0 2 [?s, g, x]) 0))))"
    by (simp add: in_type_def bits_of_type_def value_of_type_def IRMETHOD_isASignedType_def int_item_def demo_simps)
  show ?thesis
    by (rule exI [of _ "mk_method 0 2 [?s, g, x]"], rule exI [of _ "mk_method 0 2 [?s, ?d, x]"], unfold p)
      (use m1 m2 out in \<open>simp add: int_operation_def int_item_def demo_simps\<close>)
qed

end
