(* ===== verification/Execution.thy ===== *)
theory Execution
  imports FlowGraph
begin

text \<open>
  The execution of a method, the specification the transformations of methods are measured against. What an instruction does with
  the variables and the rest of the world is a parameter; where control goes is given by the type of the instruction and the labels
  of the method. The lemmas are two: the steps of a method follow the enumerated successors, and a criterion for the deletion of
  instructions to keep the behaviour of a method.
\<close>

section \<open>Steps and behaviour\<close>

text \<open>How an instruction hands over control: to the next instruction, to the label it names, or out of the method.\<close>

datatype control = Fall | Jump | Leave

definition controls :: "nat \<Rightarrow> control set" where
  "controls ty = (if ty \<in> {IRRET, IRTHROW} then {Leave} else if ty = IRBRANCH then {Jump}
     else if ty \<in> {IRBRANCHIF, IRBRANCHIFNOT} then {Fall, Jump}
     else if mayInstructionOfTypeThrowException ty then {Fall, Leave} else {Fall})"

definition label_operand :: "ir_instruction \<Rightarrow> 64 word" where
  "label_operand inst = (if inst_type inst = IRBRANCH then val (param_1 inst) else val (param_2 inst))"

definition goto :: "ir_method \<Rightarrow> nat \<Rightarrow> control \<Rightarrow> nat option" where
  "goto m i c = (case c of Fall \<Rightarrow> Some (i + 1) | Leave \<Rightarrow> Some (ir_instr_count m)
     | Jump \<Rightarrow> ir_instr_label_get m (label_operand (ir_instr_get_by_pos m i)))"

text \<open>
  The meaning of instructions: from the values of the variables and a world to a value for the variable the instruction
  defines, the next world and the way control goes. Variables of \<open>E\<close>, which escape, live in the world.
\<close>

type_synonym 'v variables = "nat \<Rightarrow> 'v"

type_synonym ('v, 'w) meaning = "ir_instruction \<Rightarrow> 'v variables \<Rightarrow> 'w \<Rightarrow> 'v \<Rightarrow> 'w \<Rightarrow> control \<Rightarrow> bool"

definition assign :: "nat set \<Rightarrow> ir_instruction \<Rightarrow> 'v \<Rightarrow> 'v variables \<Rightarrow> 'v variables" where
  "assign E inst x s = (\<lambda>v. if v \<in> defined_vars inst - E then x else s v)"

inductive step :: "('v, 'w) meaning \<Rightarrow> nat set \<Rightarrow> ir_method \<Rightarrow> nat \<times> 'v variables \<times> 'w \<Rightarrow> nat \<times> 'v variables \<times> 'w \<Rightarrow> bool"
  for exec E m where
  stepI: "i < ir_instr_count m \<Longrightarrow> exec (ir_instr_get_by_pos m i) s w x w' c \<Longrightarrow> c \<in> controls (type_at m i) \<Longrightarrow>
    goto m i c = Some j \<Longrightarrow> step exec E m (i, s, w) (j, assign E (ir_instr_get_by_pos m i) x s, w')"

inductive_cases step_cases: "step exec E m (i, s, w) b"

text \<open>The worlds a method passes through, and those it ends with.\<close>

definition behaviour :: "('v, 'w) meaning \<Rightarrow> nat set \<Rightarrow> ir_method \<Rightarrow> 'v variables \<Rightarrow> 'w \<Rightarrow> 'w set \<times> 'w set" where
  "behaviour exec E m s w =
     ({w'. \<exists>i s'. (step exec E m)\<^sup>*\<^sup>* (0, s, w) (i, s', w')},
      {w'. \<exists>s'. (step exec E m)\<^sup>*\<^sup>* (0, s, w) (ir_instr_count m, s', w')})"

lemma defined_cases: "defined_vars inst = {} \<or> (\<exists>v. defined_vars inst = {v})"
  by (simp add: defined_vars_def)

lemma successors_controls:
  assumes m: "plain_method m" and i: "i < ir_instr_count m"
  shows "j \<in> set (successors m i) \<longleftrightarrow> (\<exists>c\<in>controls (type_at m i). goto m i c = Some j)"
  using in_successors_plain [OF m i, of j] label_get_plain [OF m plainD(3) [OF m i], of j] label_get_plain [OF m plainD(4) [OF m i], of j]
  by (auto simp: controls_def goto_def label_operand_def)

section \<open>Equal behaviour by simulation\<close>

lemma simulates_star:
  assumes "\<And>a b a'. ra a b \<Longrightarrow> sim a a' \<Longrightarrow> \<exists>b'. rb\<^sup>*\<^sup>* a' b' \<and> sim b b'"
  shows "ra\<^sup>*\<^sup>* a b \<Longrightarrow> sim a a' \<Longrightarrow> \<exists>b'. rb\<^sup>*\<^sup>* a' b' \<and> sim b b'"
proof (induction rule: rtranclp_induct)
  case base
  then show ?case by blast
next
  case (step b c)
  then obtain b' where b': "rb\<^sup>*\<^sup>* a' b'" "sim b b'" by blast
  from assms [OF step.hyps(2) b'(2)] obtain c' where "rb\<^sup>*\<^sup>* b' c'" "sim c c'" by blast
  with b'(1) show ?case by (meson rtranclp_trans)
qed

lemma behaviour_subset:
  assumes start: "sim (0, s, w) (0, s, w)"
    and forward: "\<And>a b a'. step exec E ma a b \<Longrightarrow> sim a a' \<Longrightarrow> \<exists>b'. (step exec E mb)\<^sup>*\<^sup>* a' b' \<and> sim b b'"
    and worlds: "\<And>a a'. sim a a' \<Longrightarrow> snd (snd a) = snd (snd a')"
    and ends: "\<And>s w a'. sim (ir_instr_count ma, s, w) a' \<Longrightarrow> \<exists>s'. (step exec E mb)\<^sup>*\<^sup>* a' (ir_instr_count mb, s', w)"
  shows "fst (behaviour exec E ma s w) \<subseteq> fst (behaviour exec E mb s w)" "snd (behaviour exec E ma s w) \<subseteq> snd (behaviour exec E mb s w)"
proof -
  have one: "\<exists>b'. (step exec E mb)\<^sup>*\<^sup>* (0, s, w) b' \<and> sim b b'" if "(step exec E ma)\<^sup>*\<^sup>* (0, s, w) b" for b
    by (rule simulates_star [where sim = sim and ra = "step exec E ma" and rb = "step exec E mb"])
      (use forward that start in blast)+
  show "fst (behaviour exec E ma s w) \<subseteq> fst (behaviour exec E mb s w)"
  proof
    fix w' assume "w' \<in> fst (behaviour exec E ma s w)"
    then obtain i s' where "(step exec E ma)\<^sup>*\<^sup>* (0, s, w) (i, s', w')" by (auto simp: behaviour_def)
    then obtain b' where "(step exec E mb)\<^sup>*\<^sup>* (0, s, w) b'" "sim (i, s', w') b'" using one by blast
    with worlds show "w' \<in> fst (behaviour exec E mb s w)" by (cases b') (fastforce simp: behaviour_def)
  qed
  show "snd (behaviour exec E ma s w) \<subseteq> snd (behaviour exec E mb s w)"
  proof
    fix w' assume "w' \<in> snd (behaviour exec E ma s w)"
    then obtain s' where "(step exec E ma)\<^sup>*\<^sup>* (0, s, w) (ir_instr_count ma, s', w')" by (auto simp: behaviour_def)
    then obtain b' where b': "(step exec E mb)\<^sup>*\<^sup>* (0, s, w) b'" "sim (ir_instr_count ma, s', w') b'" using one by blast
    then obtain s'' where "(step exec E mb)\<^sup>*\<^sup>* b' (ir_instr_count mb, s'', w')" using ends by blast
    with b'(1) show "w' \<in> snd (behaviour exec E mb s w)" by (auto simp: behaviour_def intro: rtranclp_trans)
  qed
qed


section \<open>The deletion of instructions\<close>

definition delete_positions :: "nat set \<Rightarrow> ir_method \<Rightarrow> ir_method" where
  "delete_positions D m = m\<lparr>instructions := nths (instructions m) (- D)\<rparr>"

text \<open>The position an instruction has afterwards; for a deleted one it is that of the next instruction that stays.\<close>

definition new_position :: "nat set \<Rightarrow> nat \<Rightarrow> nat" where
  "new_position D i = card {k. k < i \<and> k \<notin> D}"

lemma new_position_Suc: "new_position D (Suc i) = (if i \<in> D then new_position D i else new_position D i + 1)"
proof -
  have "{k. k < Suc i \<and> k \<notin> D} = {k. k < i \<and> k \<notin> D} \<union> (if i \<in> D then {} else {i})" by (auto simp: less_Suc_eq)
  then show ?thesis by (simp add: new_position_def)
qed

lemma new_position_0 [simp]: "new_position D 0 = 0"
  by (simp add: new_position_def)

lemma new_position_mono: "i \<le> j \<Longrightarrow> new_position D i \<le> new_position D j"
  by (auto simp: new_position_def intro!: card_mono)

lemma new_position_less: "i < j \<Longrightarrow> i \<notin> D \<Longrightarrow> new_position D i < new_position D j"
  using new_position_mono [of "Suc i" j D] by (simp add: new_position_Suc)

lemma new_position_inj: "i \<notin> D \<Longrightarrow> j \<notin> D \<Longrightarrow> new_position D i = new_position D j \<Longrightarrow> i = j"
  using new_position_less [of i j D] new_position_less [of j i D] by (metis less_irrefl linorder_neqE_nat)

lemma delete_count [simp]: "ir_instr_count (delete_positions D m) = new_position D (ir_instr_count m)"
  by (simp add: delete_positions_def ir_instr_count_def length_nths new_position_def Collect_conj_eq)

lemma nths_kept:
  assumes "i < length xs" and "i \<in> A"
  shows "card {k. k < i \<and> k \<in> A} < length (nths xs A)" "nths xs A ! card {k. k < i \<and> k \<in> A} = xs ! i"
proof -
  have xs: "xs = take i xs @ xs ! i # drop (Suc i) xs" using assms(1) by (simp add: id_take_nth_drop)
  have l: "length (nths (take i xs) A) = card {k. k < i \<and> k \<in> A}" using assms(1) by (simp add: length_nths)
  have "nths xs A = nths (take i xs) A @ xs ! i # nths (drop (Suc i) xs) {j. j + i + 1 \<in> A}"
    using assms by (subst xs) (simp add: nths_append nths_Cons min_def)
  then show "card {k. k < i \<and> k \<in> A} < length (nths xs A)" "nths xs A ! card {k. k < i \<and> k \<in> A} = xs ! i"
    using l by (simp_all add: nth_append)
qed

lemma delete_get:
  assumes "i < ir_instr_count m" and "i \<notin> D"
  shows "ir_instr_get_by_pos (delete_positions D m) (new_position D i) = ir_instr_get_by_pos m i"
  using nths_kept [of i "instructions m" "- D"] assms
  by (simp add: delete_positions_def ir_instr_get_by_pos_def ir_instr_count_def new_position_def)

lemma new_position_kept:
  assumes "k < new_position D n"
  shows "\<exists>i<n. i \<notin> D \<and> new_position D i = k"
  using assms
proof (induction n)
  case (Suc n)
  show ?case
  proof (cases "k < new_position D n")
    case True
    then show ?thesis using Suc.IH less_SucI by blast
  next
    case False
    then have "n \<notin> D" "k = new_position D n" using Suc.prems by (auto simp: new_position_Suc split: if_splits)
    then show ?thesis by blast
  qed
qed simp

lemma delete_label_get:
  assumes d: "\<And>i j. i < ir_instr_count m \<Longrightarrow> j < ir_instr_count m \<Longrightarrow> type_at m i = IRLABEL \<Longrightarrow>
      type_at m j = IRLABEL \<Longrightarrow> par1v m i = par1v m j \<Longrightarrow> i = j"
    and p: "ir_instr_label_get m l = Some p" "p \<notin> D"
  shows "ir_instr_label_get (delete_positions D m) l = Some (new_position D p)"
proof -
  have pm: "p < ir_instr_count m" "type_at m p = IRLABEL" "par1v m p = take_bit 32 l"
    using p(1) by (auto simp: ir_instr_label_get_def label_like_get_Some)
  have "k = new_position D p" if k: "k < new_position D (ir_instr_count m)" "type_at (delete_positions D m) k = IRLABEL"
      "par1v (delete_positions D m) k = take_bit 32 l" for k
  proof -
    obtain i where i: "i < ir_instr_count m" "i \<notin> D" "new_position D i = k" using new_position_kept [OF k(1)] by blast
    then have "type_at m i = IRLABEL" "par1v m i = take_bit 32 l" using k(2,3) delete_get [OF i(1,2)] by auto
    then have "i = p" using d [OF i(1) pm(1)] pm by simp
    then show ?thesis using i by simp
  qed
  then have "\<not> (type_at (delete_positions D m) k = IRLABEL \<and> par1v (delete_positions D m) k = take_bit 32 l)"
    if "k < new_position D p" for k
    using that new_position_less [OF pm(1) p(2)] by (metis less_irrefl less_trans)
  then show ?thesis
    unfolding ir_instr_label_get_def label_like_get_Some
    using pm delete_get [OF pm(1) p(2)] new_position_less [OF pm(1) p(2)] by simp
qed


lemma deleted_label_get:
  assumes d: "\<And>i j. i < ir_instr_count m \<Longrightarrow> j < ir_instr_count m \<Longrightarrow> type_at m i = IRLABEL \<Longrightarrow>
      type_at m j = IRLABEL \<Longrightarrow> par1v m i = par1v m j \<Longrightarrow> i = j"
    and k: "ir_instr_label_get (delete_positions D m) l = Some k"
  shows "\<exists>p. p \<notin> D \<and> ir_instr_label_get m l = Some p \<and> k = new_position D p"
proof -
  have km: "k < new_position D (ir_instr_count m)" "type_at (delete_positions D m) k = IRLABEL" "par1v (delete_positions D m) k = take_bit 32 l"
    using k by (simp_all add: ir_instr_label_get_def label_like_get_Some)
  obtain p where p: "p < ir_instr_count m" "p \<notin> D" "new_position D p = k" using new_position_kept [OF km(1)] by blast
  then have "type_at m p = IRLABEL" "par1v m p = take_bit 32 l" using km(2,3) delete_get [OF p(1,2)] by auto
  moreover from this have "\<not> (type_at m j = IRLABEL \<and> par1v m j = take_bit 32 l)" if "j < p" for j
    using d [of j p] that p(1) by auto
  ultimately have "ir_instr_label_get m l = Some p" using p(1) by (simp add: ir_instr_label_get_def label_like_get_Some)
  with p show ?thesis by blast
qed

text \<open>
  A deletion that keeps the behaviour. \<open>R\<close> holds of the positions control reaches and \<open>L\<close> gives the variables that matter at a
  position. A deleted instruction does nothing that matters and leads to the next instruction that stays; an instruction that stays
  depends on the variables that matter only, and the label it names stays.
\<close>

definition transparent :: "('v, 'w) meaning \<Rightarrow> nat set \<Rightarrow> ir_method \<Rightarrow> nat set \<Rightarrow> (nat \<Rightarrow> nat set) \<Rightarrow> nat \<Rightarrow> bool" where
  "transparent exec E m D L i \<longleftrightarrow>
     (\<forall>s w x w' c j. exec (ir_instr_get_by_pos m i) s w x w' c \<longrightarrow> c \<in> controls (type_at m i) \<longrightarrow> goto m i c = Some j \<longrightarrow>
        w' = w \<and> new_position D j = new_position D i \<and> L j - E \<subseteq> L i \<and> (\<forall>v\<in>L j - E. assign E (ir_instr_get_by_pos m i) x s v = s v)) \<and>
     (\<forall>s w. \<exists>x w' c j. exec (ir_instr_get_by_pos m i) s w x w' c \<and> c \<in> controls (type_at m i) \<and> goto m i c = Some j \<and> i < j)"

definition safe_deletion :: "('v, 'w) meaning \<Rightarrow> nat set \<Rightarrow> ir_method \<Rightarrow> nat set \<Rightarrow> (nat \<Rightarrow> bool) \<Rightarrow> (nat \<Rightarrow> nat set) \<Rightarrow> bool" where
  "safe_deletion exec E m D R L \<longleftrightarrow> D \<subseteq> {..<ir_instr_count m} \<and> R 0 \<and>
     (\<forall>i<ir_instr_count m. R i \<longrightarrow>
       (\<forall>c\<in>controls (type_at m i). \<forall>j. goto m i c = Some j \<longrightarrow> R j \<and> L j - E \<subseteq> L i \<union> defined_vars (ir_instr_get_by_pos m i)) \<and>
       (if i \<in> D then transparent exec E m D L i
        else (\<forall>s s' w. (\<forall>v\<in>L i - E. s v = s' v) \<longrightarrow> exec (ir_instr_get_by_pos m i) s w = exec (ir_instr_get_by_pos m i) s' w) \<and>
          (\<forall>p. Jump \<in> controls (type_at m i) \<longrightarrow> goto m i Jump = Some p \<longrightarrow> p \<notin> D)))"

lemma transparentD:
  assumes "transparent exec E m D L i"
  shows "exec (ir_instr_get_by_pos m i) s w x w' c \<Longrightarrow> c \<in> controls (type_at m i) \<Longrightarrow> goto m i c = Some j \<Longrightarrow>
      w' = w \<and> new_position D j = new_position D i \<and> L j - E \<subseteq> L i \<and> (\<forall>v\<in>L j - E. assign E (ir_instr_get_by_pos m i) x s v = s v)"
    and "\<exists>x w' c j. exec (ir_instr_get_by_pos m i) s w x w' c \<and> c \<in> controls (type_at m i) \<and> goto m i c = Some j \<and> i < j"
  using assms unfolding transparent_def by blast+

lemma safe_deletionD:
  assumes "safe_deletion exec E m D R L" and "i < ir_instr_count m" and "R i"
  shows "c \<in> controls (type_at m i) \<Longrightarrow> goto m i c = Some j \<Longrightarrow> R j"
    and "c \<in> controls (type_at m i) \<Longrightarrow> goto m i c = Some j \<Longrightarrow> L j - E \<subseteq> L i \<union> defined_vars (ir_instr_get_by_pos m i)"
    and "i \<in> D \<Longrightarrow> transparent exec E m D L i"
    and "i \<notin> D \<Longrightarrow> \<forall>v\<in>L i - E. s v = s' v \<Longrightarrow> exec (ir_instr_get_by_pos m i) s w = exec (ir_instr_get_by_pos m i) s' w"
    and "i \<notin> D \<Longrightarrow> \<forall>p. Jump \<in> controls (type_at m i) \<longrightarrow> goto m i Jump = Some p \<longrightarrow> p \<notin> D"
proof -
  note s = assms(1) [unfolded safe_deletion_def, THEN conjunct2, THEN conjunct2, rule_format, OF assms(2,3)]
  show "c \<in> controls (type_at m i) \<Longrightarrow> goto m i c = Some j \<Longrightarrow> R j"
    "c \<in> controls (type_at m i) \<Longrightarrow> goto m i c = Some j \<Longrightarrow> L j - E \<subseteq> L i \<union> defined_vars (ir_instr_get_by_pos m i)"
    using s [THEN conjunct1] by blast+
  show "i \<in> D \<Longrightarrow> transparent exec E m D L i" using s [THEN conjunct2] by (simp only: if_True)
  show "i \<notin> D \<Longrightarrow> \<forall>v\<in>L i - E. s v = s' v \<Longrightarrow> exec (ir_instr_get_by_pos m i) s w = exec (ir_instr_get_by_pos m i) s' w"
    "i \<notin> D \<Longrightarrow> \<forall>p. Jump \<in> controls (type_at m i) \<longrightarrow> goto m i Jump = Some p \<longrightarrow> p \<notin> D"
    using s [THEN conjunct2] by (simp_all only: if_False simp_thms) blast+
qed

definition deletion_sim :: "nat set \<Rightarrow> ir_method \<Rightarrow> nat set \<Rightarrow> (nat \<Rightarrow> bool) \<Rightarrow> (nat \<Rightarrow> nat set) \<Rightarrow>
    nat \<times> 'v variables \<times> 'w \<Rightarrow> nat \<times> 'v variables \<times> 'w \<Rightarrow> bool" where
  "deletion_sim E m D R L = (\<lambda>(i, s, w) (i', s', w').
     i \<le> ir_instr_count m \<and> R i \<and> i' = new_position D i \<and> w' = w \<and> (\<forall>v\<in>L i - E. s v = s' v))"

lemma goto_le: "i < ir_instr_count m \<Longrightarrow> goto m i c = Some j \<Longrightarrow> j \<le> ir_instr_count m"
  by (auto simp: goto_def ir_instr_label_get_def dest: label_like_get_less split: control.splits)

lemma goto_delete:
  assumes m: "plain_method m" and i: "i < ir_instr_count m" "i \<notin> D" and c: "c \<in> controls (type_at m i)"
    and jump: "\<forall>p. Jump \<in> controls (type_at m i) \<longrightarrow> goto m i Jump = Some p \<longrightarrow> p \<notin> D"
  shows "goto m i c = Some j \<Longrightarrow> goto (delete_positions D m) (new_position D i) c = Some (new_position D j)"
    "goto (delete_positions D m) (new_position D i) c = Some j' \<Longrightarrow> \<exists>j. goto m i c = Some j \<and> j' = new_position D j"
proof -
  note g = delete_get [OF i]
  show "goto m i c = Some j \<Longrightarrow> goto (delete_positions D m) (new_position D i) c = Some (new_position D j)"
  proof (cases c)
    case Jump
    assume "goto m i c = Some j"
    then have "ir_instr_label_get m (label_operand (ir_instr_get_by_pos m i)) = Some j" "j \<notin> D"
      using jump c Jump by (auto simp: goto_def)
    then show ?thesis using delete_label_get [OF plainD(5) [OF m]] Jump g by (simp add: goto_def)
  qed (use i in \<open>auto simp: goto_def new_position_Suc\<close>)
  show "goto (delete_positions D m) (new_position D i) c = Some j' \<Longrightarrow> \<exists>j. goto m i c = Some j \<and> j' = new_position D j"
  proof (cases c)
    case Jump
    assume "goto (delete_positions D m) (new_position D i) c = Some j'"
    then show ?thesis using deleted_label_get [OF plainD(5) [OF m]] Jump g by (fastforce simp: goto_def)
  qed (use i in \<open>auto simp: goto_def new_position_Suc\<close>)
qed

lemma deletion_forward:
  assumes m: "plain_method m" and safe: "safe_deletion exec E m D R L"
    and st: "step exec E m a b" and sim: "deletion_sim E m D R L a a'"
  shows "\<exists>b'. (step exec E (delete_positions D m))\<^sup>*\<^sup>* a' b' \<and> deletion_sim E m D R L b b'"
proof -
  obtain i s w i' s' w' where a: "a = (i, s, w)" "a' = (i', s', w')" by (cases a; cases a') auto
  from st obtain x w1 c j where i: "i < ir_instr_count m" and ex: "exec (ir_instr_get_by_pos m i) s w x w1 c"
    and c: "c \<in> controls (type_at m i)" and j: "goto m i c = Some j" and b: "b = (j, assign E (ir_instr_get_by_pos m i) x s, w1)"
    unfolding a by (elim step_cases)
  from sim have R: "R i" and i': "i' = new_position D i" and w': "w' = w" and ag: "\<forall>v\<in>L i - E. s v = s' v"
    by (simp_all add: a deletion_sim_def)
  note safe = safe_deletionD [OF safe i R]
  note next' = safe(1,2) [OF c j]
  note jn = goto_le [OF i j]
  show ?thesis
  proof (cases "i \<in> D")
    case True
    then have "w1 = w" "new_position D j = new_position D i" "L j - E \<subseteq> L i" "\<forall>v\<in>L j - E. assign E (ir_instr_get_by_pos m i) x s v = s v"
      using transparentD(1) [OF safe(3) [OF True] ex c j] by simp_all
    then have "deletion_sim E m D R L b a'"
      using next' jn i' w' ag by (auto simp: a b deletion_sim_def)
    then show ?thesis by blast
  next
    case False
    note g = delete_get [OF i False]
    have "step exec E (delete_positions D m) (new_position D i, s', w) (new_position D j, assign E (ir_instr_get_by_pos m i) x s', w1)"
      using stepI [where m = "delete_positions D m" and i = "new_position D i" and c = c and s = s' and w = w and x = x and w' = w1
          and exec = exec and E = E and j = "new_position D j"]
        new_position_less [OF i False] ex safe(4) [OF False ag, of w] c goto_delete(1) [OF m i False c safe(5) [OF False] j] g by simp
    moreover have "\<forall>v\<in>L j - E. assign E (ir_instr_get_by_pos m i) x s v = assign E (ir_instr_get_by_pos m i) x s' v"
      using next'(2) ag by (auto simp: assign_def)
    ultimately show ?thesis using next' jn i' w' by (auto simp: a b deletion_sim_def)
  qed
qed


lemma reaches_kept:
  assumes safe: "safe_deletion exec E m D R L"
  shows "deletion_sim E m D R L (i, s, w) a' \<Longrightarrow>
    \<exists>k t. (step exec E m)\<^sup>*\<^sup>* (i, s, w) (k, t, w) \<and> deletion_sim E m D R L (k, t, w) a' \<and> (k = ir_instr_count m \<or> k \<notin> D)"
proof (induction "ir_instr_count m - i" arbitrary: i s rule: less_induct)
  case less
  show ?case
  proof (cases "i = ir_instr_count m \<or> i \<notin> D")
    case True
    then show ?thesis using less.prems by blast
  next
    case False
    obtain i' s' where a': "a' = (i', s', w)" using less.prems by (cases a') (simp add: deletion_sim_def)
    from less.prems False have i: "i < ir_instr_count m" and R: "R i" and i': "i' = new_position D i" and ag: "\<forall>v\<in>L i - E. s v = s' v"
      by (auto simp: deletion_sim_def a')
    note tr = transparentD [OF safe_deletionD(3) [OF safe i R]]
    obtain x w1 c j where ex: "exec (ir_instr_get_by_pos m i) s w x w1 c" "c \<in> controls (type_at m i)" "goto m i c = Some j" "i < j"
      using tr(2) False by blast
    have d: "w1 = w" "new_position D j = new_position D i" "L j - E \<subseteq> L i" "\<forall>v\<in>L j - E. assign E (ir_instr_get_by_pos m i) x s v = s v"
      using tr(1) [OF _ ex(1-3)] False by simp_all
    have j: "j \<le> ir_instr_count m" "R j" using goto_le [OF i ex(3)] safe_deletionD(1) [OF safe i R ex(2,3)] by simp_all
    let ?s = "assign E (ir_instr_get_by_pos m i) x s"
    have "deletion_sim E m D R L (j, ?s, w) a'" using d ag j i' by (auto simp: deletion_sim_def a')
    from less.hyps [OF _ this] ex(4) i obtain k t where
      k: "(step exec E m)\<^sup>*\<^sup>* (j, ?s, w) (k, t, w)" "deletion_sim E m D R L (k, t, w) a'" "k = ir_instr_count m \<or> k \<notin> D"
      by (metis diff_less_mono2)
    have "step exec E m (i, s, w) (j, ?s, w)"
      using stepI [where exec = exec and m = m and i = i and s = s and w = w and x = x and c = c and j = j] i ex(1-3) d(1) by blast
    then have "(step exec E m)\<^sup>*\<^sup>* (i, s, w) (k, t, w)" using k(1) by (rule converse_rtranclp_into_rtranclp)
    with k show ?thesis by blast
  qed
qed

lemma deletion_backward:
  assumes m: "plain_method m" and safe: "safe_deletion exec E m D R L"
    and st: "step exec E (delete_positions D m) a' b'" and sim: "deletion_sim E m D R L a a'"
  shows "\<exists>b. (step exec E m)\<^sup>*\<^sup>* a b \<and> deletion_sim E m D R L b b'"
proof -
  obtain i0 s0 w i' s' where a0: "a = (i0, s0, w)" "a' = (i', s', w)" using sim by (cases a; cases a') (simp add: deletion_sim_def)
  obtain i s where k: "(step exec E m)\<^sup>*\<^sup>* a (i, s, w)" "deletion_sim E m D R L (i, s, w) a'" "i = ir_instr_count m \<or> i \<notin> D"
    using reaches_kept [OF safe, of i0 s0 w a'] sim a0 by blast
  from st obtain x w1 c j' where i': "i' < new_position D (ir_instr_count m)" and ex: "exec (ir_instr_get_by_pos (delete_positions D m) i') s' w x w1 c"
    and c: "c \<in> controls (type_at (delete_positions D m) i')" and j': "goto (delete_positions D m) i' c = Some j'"
    and b': "b' = (j', assign E (ir_instr_get_by_pos (delete_positions D m) i') x s', w1)"
    unfolding a0 by (elim step_cases) simp
  from k(2) have e: "i' = new_position D i" "R i" "i \<le> ir_instr_count m" and ag: "\<forall>v\<in>L i - E. s v = s' v"
    by (simp_all add: a0 deletion_sim_def)
  then have "i \<noteq> ir_instr_count m" using i' by auto
  then have i: "i < ir_instr_count m" "i \<notin> D" using e(3) k(3) by simp_all
  note g = delete_get [OF i]
  note safe' = safe_deletionD [OF safe i(1) e(2)]
  have c': "c \<in> controls (type_at m i)" using c g e(1) by simp
  obtain j where j: "goto m i c = Some j" "j' = new_position D j"
    using goto_delete(2) [OF m i c' safe'(5) [OF i(2)]] j' e(1) by blast
  have "step exec E m (i, s, w) (j, assign E (ir_instr_get_by_pos m i) x s, w1)"
    using stepI [where exec = exec and m = m and i = i and s = s and w = w and x = x and c = c and j = j] i(1) c' j(1) ex safe'(4) [OF i(2) ag, of w] g e(1) by simp
  moreover have "deletion_sim E m D R L (j, assign E (ir_instr_get_by_pos m i) x s, w1) b'"
    using goto_le [OF i(1) j(1)] safe'(1,2) [OF c' j(1)] j(2) ag g e(1) by (auto simp: deletion_sim_def b' assign_def)
  ultimately show ?thesis using k(1) by (meson rtranclp.rtrancl_into_rtrancl)
qed

text \<open>The criterion.\<close>

lemma deletion_keeps_behaviour:
  assumes m: "plain_method m" and safe: "safe_deletion exec E m D R L"
  shows "behaviour exec E (delete_positions D m) s w = behaviour exec E m s w"
proof -
  let ?S = "deletion_sim E m D R L" and ?T = "\<lambda>a b. deletion_sim E m D R L b a"
  have "R 0" using safe by (simp add: safe_deletion_def)
  then have start: "?S (0, s, w) (0, s, w)" by (simp add: deletion_sim_def)
  have world: "snd (snd a) = snd (snd b)" if "?S a b" for a b :: "nat \<times> (nat \<Rightarrow> 'a) \<times> 'b"
    using that by (auto simp: deletion_sim_def)
  have 1: "fst (behaviour exec E m s w) \<subseteq> fst (behaviour exec E (delete_positions D m) s w)"
    "snd (behaviour exec E m s w) \<subseteq> snd (behaviour exec E (delete_positions D m) s w)"
    by (rule behaviour_subset [where sim = ?S, OF start deletion_forward [OF m safe] world]; auto simp: deletion_sim_def)+
  have ends: "\<exists>s'. (step exec E m)\<^sup>*\<^sup>* a (ir_instr_count m, s', w)" if S: "?S a (ir_instr_count (delete_positions D m), s, w)" for a s w
  proof -
    obtain i0 s0 w0 where "a = (i0, s0, w0)" by (cases a) auto
    then have a: "a = (i0, s0, w)" using S by (simp add: deletion_sim_def)
    obtain k t where k: "(step exec E m)\<^sup>*\<^sup>* a (k, t, w)" "?S (k, t, w) (new_position D (ir_instr_count m), s, w)"
      "k = ir_instr_count m \<or> k \<notin> D" using reaches_kept [OF safe] S unfolding a delete_count by blast
    then have "k = ir_instr_count m"
      using new_position_less [of k "ir_instr_count m" D] by (simp add: deletion_sim_def) (metis le_neq_implies_less)
    with k(1) show ?thesis by blast
  qed
  have bwd: "\<exists>b'. (step exec E m)\<^sup>*\<^sup>* a' b' \<and> ?T b b'" if "step exec E (delete_positions D m) a b" "?T a a'"
    for a b a' :: "nat \<times> (nat \<Rightarrow> 'a) \<times> 'b" using deletion_backward [OF m safe that] .
  have world': "snd (snd a) = snd (snd b)" if "?T a b" for a b :: "nat \<times> (nat \<Rightarrow> 'a) \<times> 'b"
    using world [OF that] by simp
  have 2: "fst (behaviour exec E (delete_positions D m) s w) \<subseteq> fst (behaviour exec E m s w)"
    "snd (behaviour exec E (delete_positions D m) s w) \<subseteq> snd (behaviour exec E m s w)"
    by (rule behaviour_subset [where sim = ?T]; use start bwd world' ends in blast)+
  from 1 2 show ?thesis by (metis prod_eqI subset_antisym)
qed

end
