(* ===== verification/DeadCode.thy ===== *)
theory DeadCode
  imports Liveness ReachDefs Variables "HOL-Library.Monad_Syntax"
begin

unbundle bit_operations_syntax

text \<open>
  Dead code elimination, after \<open>optimizer-deadcode/src/method_deadcode.c\<close>, \<open>instructions_cleaning.c\<close> and \<open>optimizer_deadcode.c\<close>. The
  plugin keeps pointers to instructions across deletions, so the instructions of the method carry a handle here, the pointer; the metadata
  of an instruction is that of its handle. \<open>None\<close> is the use of a pointer to a deleted instruction, an access outside
  an array or an undefined shift.
\<close>

section \<open>Instructions with handles\<close>

type_synonym code = "(nat \<times> ir_instruction) list"

definition code_method :: "ir_method \<Rightarrow> code \<Rightarrow> ir_method" where
  "code_method m code = m\<lparr>instructions := map snd code\<rparr>"

definition method_code :: "ir_method \<Rightarrow> code" where
  "method_code m = zip [0..<ir_instr_count m] (instructions m)"

definition IRMETHOD_deleteInstruction :: "nat \<Rightarrow> code \<Rightarrow> code option" where
  "IRMETHOD_deleteInstruction h code = (if h \<in> fst ` set code then Some (filter (\<lambda>p. fst p \<noteq> h) code) else None)"

fun delete_handles :: "nat list \<Rightarrow> code \<Rightarrow> code option" where
  "delete_handles [] code = Some code"
| "delete_handles (h # hs) code = do { code \<leftarrow> IRMETHOD_deleteInstruction h code; delete_handles hs code }"

definition handle_position :: "nat \<Rightarrow> code \<Rightarrow> nat option" where
  "handle_position h code = find_from (\<lambda>i. fst (code ! i) = h) [0..<length code]"

definition handle_at :: "code \<Rightarrow> nat \<Rightarrow> nat" where
  "handle_at code i = fst (code ! i)"

text \<open>The handles of the instructions at the positions that satisfy a test; \<open>xanList_insert\<close> puts the last one first.\<close>

definition handles_where :: "(nat \<Rightarrow> bool) \<Rightarrow> code \<Rightarrow> nat list" where
  "handles_where P code = map (handle_at code) (filter P [0..<length code])"

section \<open>Dead definitions\<close>

definition internal_hasSideEffect :: "ir_instruction \<Rightarrow> bool" where
  "internal_hasSideEffect inst \<longleftrightarrow>
     inst_type inst \<in> {IRICALL, IRNATIVECALL, IRLIBRARYCALL, IRCALL, IRVCALL, IRRET} \<or>
     mayInstructionOfTypeThrowException (inst_type inst)"

definition defines_dead :: "live_data \<Rightarrow> escapes \<Rightarrow> ir_instruction \<Rightarrow> bool option" where
  "defines_dead d esc inst =
    (if inst_type inst = IRNOP then Some True
     else if live_def d \<noteq> -1 then
       (if IRMETHOD_isVariableLiveOUT d (live_def d) then Some False
        else map_option Not (ir_method_escapes_isVariableEscaped esc (unat (ucast (live_def d) :: 32 word))))
     else Some False)"

lemma delete_shorter: "IRMETHOD_deleteInstruction h code = Some code' \<Longrightarrow> length code' < length code"
  by (auto simp: IRMETHOD_deleteInstruction_def length_filter_less split: if_splits)

function delete_dead :: "live_state \<Rightarrow> escapes \<Rightarrow> nat \<Rightarrow> code \<Rightarrow> code option" where
  "delete_dead live esc instID code =
    (if instID < length code then do {
       let h = handle_at code instID;
       let inst = snd (code ! instID);
       toDelete \<leftarrow> defines_dead (live ! h) esc inst;
       if toDelete \<and> \<not> internal_hasSideEffect inst
       then do { code' \<leftarrow> IRMETHOD_deleteInstruction h code; delete_dead live esc instID code' }
       else delete_dead live esc (instID + 1) code
     } else Some code)"
  by pat_completeness auto

termination
  by (relation "measure (\<lambda>(live, esc, i, code). length code - i)") (auto dest!: delete_shorter)

declare delete_dead.simps [simp del]

section \<open>Unreachable code\<close>

definition internal_isInstructionMarked :: "blocks \<Rightarrow> nat \<Rightarrow> bool" where
  "internal_isInstructionMarked instsMarked instID \<longleftrightarrow> instsMarked ! trigger_of instID AND mask_of instID \<noteq> 0"

definition internal_markInstruction :: "blocks \<Rightarrow> nat \<Rightarrow> blocks" where
  "internal_markInstruction instsMarked instID =
     instsMarked[trigger_of instID := instsMarked ! trigger_of instID OR mask_of instID]"

definition IRMETHOD_getSuccessorInstruction :: "ir_method \<Rightarrow> nat \<Rightarrow> nat option \<Rightarrow> nat option" where
  "IRMETHOD_getSuccessorInstruction m inst prevSuccessor = fst (ir_instr_get_successor m inst prevSuccessor None)"

text \<open>The loop over the successors of an instruction, up to the exit node; the worklist grows at its head.\<close>

partial_function (option) mark_successors :: "ir_method \<Rightarrow> nat \<Rightarrow> nat option \<Rightarrow> blocks \<times> nat list \<Rightarrow> (blocks \<times> nat list) option" where
  "mark_successors m inst succ x =
    (case succ of
       None \<Rightarrow> Some x
     | Some j \<Rightarrow>
         if j = exitNode m then Some x
         else mark_successors m inst (IRMETHOD_getSuccessorInstruction m inst (Some j))
           (if internal_isInstructionMarked (fst x) j then x else (internal_markInstruction (fst x) j, j # snd x)))"

partial_function (option) mark_reachable :: "ir_method \<Rightarrow> blocks \<times> nat list \<Rightarrow> blocks option" where
  "mark_reachable m x =
    (case snd x of
       [] \<Rightarrow> Some (fst x)
     | inst # instList \<Rightarrow>
         Option.bind (mark_successors m inst (IRMETHOD_getSuccessorInstruction m inst None) (fst x, instList)) (mark_reachable m))"

fun delete_unreachable :: "ir_method \<Rightarrow> nat list \<Rightarrow> code \<Rightarrow> code option" where
  "delete_unreachable m [] code = Some code"
| "delete_unreachable m (h # hs) code =
    (if length code = 1 then Some code
     else do {
       pos \<leftarrow> handle_position h code;
       code \<leftarrow> (if inst_type (snd (code ! pos)) \<noteq> IRENDFINALLY \<or> IRMETHOD_getSuccessorInstruction (code_method m code) pos None = None
               then IRMETHOD_deleteInstruction h code else Some code);
       delete_unreachable m hs code
     })"

definition internal_deleteCodeUnreachable :: "ir_method \<Rightarrow> code \<Rightarrow> code option" where
  "internal_deleteCodeUnreachable m code =
    (if code = [] then Some code
     else do {
       let instsMarkedLen = (if length code mod 64 > 0 then length code div 64 + 1 else length code div 64);
       instsMarked \<leftarrow> mark_reachable (code_method m code) (internal_markInstruction (replicate instsMarkedLen 0) 0, [0]);
       delete_unreachable m (rev (handles_where (\<lambda>i. \<not> internal_isInstructionMarked instsMarked i) code)) code
     })"

section \<open>Catch blocks, branches, labels and stores\<close>

definition lost_catch_block :: "ir_method \<Rightarrow> nat \<Rightarrow> bool" where
  "lost_catch_block m i \<longleftrightarrow> type_at m i = IRBRANCHIFPCNOTINRANGE \<and>
     (\<exists>l\<in>{par1v m i, par2v m i, par3v m i}. ir_instr_label_get m l = None \<and> ir_instr_finally_get m l = None)"

definition internal_removeCatchBlocks :: "ir_method \<Rightarrow> code \<Rightarrow> code option" where
  "internal_removeCatchBlocks m code = delete_handles (handles_where (lost_catch_block (code_method m code)) code) code"

definition useless_branch :: "ir_method \<Rightarrow> nat \<Rightarrow> bool" where
  "useless_branch m i =
    (if type_at m i = IRBRANCH \<and> i + 1 < ir_instr_count m
     then type_at m (i + 1) = IRLABEL \<and> par1v m (i + 1) = par1v m i
     else if type_at m i = IRBRANCHIF \<or> type_at m i = IRBRANCHIFNOT then
       let succ1 = IRMETHOD_getSuccessorInstruction m i None; succ2 = IRMETHOD_getSuccessorInstruction m i succ1
       in succ2 = None \<or> succ1 = succ2
     else False)"

definition internal_deleteUnusefulBranches :: "ir_method \<Rightarrow> code \<Rightarrow> code option" where
  "internal_deleteUnusefulBranches m code =
     delete_handles (rev (handles_where (useless_branch (code_method m code)) code)) code"

text \<open>A label that another label follows is replaced by it in all branches.\<close>

definition merge_label :: "nat \<Rightarrow> ir_method \<Rightarrow> ir_method" where
  "merge_label label m =
    (case ir_instr_get_next m (Some label) of
       Some nextInst \<Rightarrow>
         if type_at m nextInst = IRLABEL then IRMETHOD_substituteLabelInAllBranches m (par1v m label) (par1v m nextInst) else m
     | None \<Rightarrow> m)"

definition internal_mergeLabels :: "ir_method \<Rightarrow> code \<Rightarrow> code" where
  "internal_mergeLabels m code =
    (let m = code_method m code
     in zip (map fst code) (instructions (fold merge_label (filter (\<lambda>i. type_at m i = IRLABEL) [0..<ir_instr_count m]) m)))"

text \<open>The labels the parameters of an instruction name, as \<open>JITINT32\<close>; the number -1 stands for no label.\<close>

definition named_labels :: "ir_instruction \<Rightarrow> 64 word list" where
  "named_labels inst =
    (if inst_type inst = IRLABEL then []
     else filter (\<lambda>parValue. parValue \<noteq> -1) (map (\<lambda>item. signed_take_bit 31 (val item))
       (filter (\<lambda>item. item_type item = IRLABELITEM) (rev (ir_instr_pars inst)))))"

definition label_named :: "ir_method \<Rightarrow> nat \<Rightarrow> bool" where
  "label_named m i \<longleftrightarrow> list_ex (\<lambda>inst. list_ex (\<lambda>l. ir_instr_label_get m l = Some i) (named_labels inst)) (instructions m)"

definition internal_deleteUnusefulLabels :: "ir_method \<Rightarrow> code \<Rightarrow> code option" where
  "internal_deleteUnusefulLabels m code =
    (let m' = code_method m code
     in delete_handles (handles_where (\<lambda>i. type_at m' i = IRLABEL \<and> \<not> label_named m' i) code) code)"

definition useless_store :: "ir_instruction \<Rightarrow> bool" where
  "useless_store inst \<longleftrightarrow> inst_type inst = IRMOVE \<and> item_type (result inst) = item_type (param_1 inst) \<and>
     val (result inst) = val (param_1 inst)"

definition internal_deleteUnusefulStores :: "ir_method \<Rightarrow> code \<Rightarrow> code option" where
  "internal_deleteUnusefulStores m code =
     delete_handles (rev (handles_where (\<lambda>i. useless_store (snd (code ! i))) code)) code"


section \<open>Conversions\<close>

text \<open>What the conversions take from the rest of the system: the size of \<open>JITNFLOAT\<close> and the names of classes.\<close>

record type_env =
  sizeof_NFLOAT :: nat
  getClassName :: "nat \<Rightarrow> string"

definition native_size :: "type_env \<Rightarrow> nat \<Rightarrow> nat \<Rightarrow> nat \<Rightarrow> nat" where
  "native_size T ty small large = (if IRDATA_getSizeOfIRType (sizeof_NFLOAT T) ty = Some 4 then small else large)"

definition as_constant :: "ir_item \<Rightarrow> ir_item" where
  "as_constant par = (if IRDATA_isAConstant par then par\<lparr>item_type := as_item_type (internal_type par)\<rparr> else par)"

text \<open>The common body of \<open>internal_set_uint_type\<close>, \<open>internal_set_int_type\<close> and \<open>internal_set_float_type\<close>, for one native type.\<close>

definition set_native_type :: "type_env \<Rightarrow> nat \<Rightarrow> nat \<Rightarrow> nat \<Rightarrow> ir_item \<Rightarrow> ir_item" where
  "set_native_type T ty small large par =
    (let sized = native_size T ty small large;
         par = (if internal_type par = ty then par\<lparr>internal_type := sized\<rparr> else par);
         par = (if item_type par = int ty then par\<lparr>item_type := as_item_type (internal_type par)\<rparr> else par);
         par = (if item_type par = IRTYPE \<and> val par = word_of_nat ty then par\<lparr>val := word_of_nat sized\<rparr> else par)
     in as_constant par)"

definition internal_set_uint_type :: "type_env \<Rightarrow> ir_item \<Rightarrow> ir_item" where
  "internal_set_uint_type T = set_native_type T IRNUINT IRUINT32 IRUINT64"

definition internal_set_int_type :: "type_env \<Rightarrow> ir_item \<Rightarrow> ir_item" where
  "internal_set_int_type T = set_native_type T IRNINT IRINT32 IRINT64"

definition internal_set_float_type :: "type_env \<Rightarrow> ir_item \<Rightarrow> ir_item" where
  "internal_set_float_type T = set_native_type T IRNFLOAT IRFLOAT32 IRFLOAT64"

definition is_IntPtr :: "type_env \<Rightarrow> ir_item \<Rightarrow> bool" where
  "is_IntPtr T par \<longleftrightarrow> (case type_infos par of None \<Rightarrow> False | Some cls \<Rightarrow> getClassName T cls = ''System.IntPtr'')"

definition internal_set_pointer_type :: "type_env \<Rightarrow> ir_item \<Rightarrow> ir_item" where
  "internal_set_pointer_type T par =
    (let unsigned = native_size T IRNUINT IRUINT32 IRUINT64
     in as_constant
       (if item_type par \<noteq> IRSYMBOL then
          (if internal_type par = IRMPOINTER \<or> internal_type par = IROBJECT then par\<lparr>internal_type := unsigned\<rparr> else par)
        else if internal_type par = IRNINT then par\<lparr>internal_type := native_size T IRNINT IRINT32 IRINT64\<rparr>
        else if internal_type par = IRVALUETYPE \<and> type_infos par \<noteq> None then
          (if is_IntPtr T par then par\<lparr>internal_type := unsigned, item_type := as_item_type unsigned, type_infos := None\<rparr> else par)
        else if internal_type par = IRTYPE \<and> val par = IRVALUETYPE \<and> type_infos par \<noteq> None then
          (if is_IntPtr T par then par\<lparr>val := word_of_nat unsigned, type_infos := None\<rparr> else par)
        else par))"

definition internal_set_type :: "type_env \<Rightarrow> ir_item \<Rightarrow> ir_item" where
  "internal_set_type T par = internal_set_pointer_type T (internal_set_int_type T (internal_set_uint_type T par))"

definition change_items :: "(ir_item \<Rightarrow> ir_item) \<Rightarrow> ir_instruction \<Rightarrow> ir_instruction" where
  "change_items f inst = inst\<lparr>param_1 := f (param_1 inst), param_2 := f (param_2 inst), param_3 := f (param_3 inst),
     result := f (result inst)\<rparr>"

text \<open>The target type of a conversion, parameter 2, when it is one of the native types.\<close>

definition set_target :: "type_env \<Rightarrow> nat \<Rightarrow> nat \<Rightarrow> nat \<Rightarrow> ir_instruction \<Rightarrow> ir_instruction" where
  "set_target T ty small large inst =
    (if inst_type inst = IRCONV \<and> val (param_2 inst) = word_of_nat ty
     then inst\<lparr>param_2 := (param_2 inst)\<lparr>val := word_of_nat (native_size T ty small large)\<rparr>\<rparr> else inst)"

definition internal_convertNativeTypes :: "type_env \<Rightarrow> ir_instruction \<Rightarrow> ir_instruction" where
  "internal_convertNativeTypes T inst =
    (let inst = change_items (internal_set_type T) inst;
         inst = inst\<lparr>callParameters := map_option (map (internal_set_type T)) (callParameters inst)\<rparr>
     in set_target T IRNFLOAT IRFLOAT32 IRFLOAT64 (set_target T IRNINT IRINT32 IRINT64 (set_target T IRNUINT IRUINT32 IRUINT64 inst)))"

definition conversion_to_move :: "(ir_item \<Rightarrow> ir_item \<Rightarrow> bool) \<Rightarrow> ir_instruction \<Rightarrow> ir_instruction" where
  "conversion_to_move useless inst =
    (if inst_type inst = IRCONV \<and> useless (param_1 inst) (param_2 inst)
     then inst\<lparr>inst_type := IRMOVE, param_2 := nopar_item, param_3 := nopar_item\<rparr> else inst)"

definition same_type :: "ir_item \<Rightarrow> ir_item \<Rightarrow> bool" where
  "same_type par1 par2 \<longleftrightarrow> word_of_nat (internal_type par1) = val par2"

definition internal_deleteUnusefulFloatConversion :: "type_env \<Rightarrow> ir_instruction \<Rightarrow> ir_instruction" where
  "internal_deleteUnusefulFloatConversion T inst =
     conversion_to_move same_type (set_target T IRNFLOAT IRFLOAT32 IRFLOAT64 (change_items (internal_set_float_type T) inst))"

definition internal_deleteUnusefulIntConversion :: "ir_instruction \<Rightarrow> ir_instruction" where
  "internal_deleteUnusefulIntConversion = conversion_to_move same_type"

definition internal_deleteUnusefulPointerConversion :: "ir_instruction \<Rightarrow> ir_instruction" where
  "internal_deleteUnusefulPointerConversion =
     conversion_to_move (\<lambda>par1 par2. internal_type par1 = IRMPOINTER \<and> val par2 = IROBJECT)"

text \<open>
  The definitions of a variable. For a parameter the code looks for the last instruction of the method, not for the dummy instruction of the
  parameter, before it adds that.
\<close>

definition internal_getDefinitions :: "ir_method \<Rightarrow> live_state \<Rightarrow> 64 word \<Rightarrow> nat list" where
  "internal_getDefinitions m live varID =
    (let n = ir_instr_count m; l = rev (filter (\<lambda>instID. live_def (live ! instID) = varID) [0..<n])
     in if varID < word_of_nat (parametersNumber m) \<and> n - 1 \<notin> set l then unat varID # l else l)"

definition internal_getSingleDefinitionReachedIn :: "ir_method \<Rightarrow> live_state \<Rightarrow> rd_state \<Rightarrow> 64 word \<Rightarrow> nat \<Rightarrow> nat option" where
  "internal_getSingleDefinitionReachedIn m live rd varID instToCheck =
    (let (champion_inst, count) = fold (\<lambda>inst (champion_inst, count).
           if ir_instr_reaching_definitions_reached_in_is (rd ! instToCheck) inst then (Some inst, count + 1)
           else (champion_inst, count)) (internal_getDefinitions m live varID) (None, 0 :: nat)
     in if count = 1 then champion_inst else None)"

text \<open>The branch and the instruction whose first parameter will replace its condition; the condition is not tested to be a variable.\<close>

definition useless_conversion :: "ir_method \<Rightarrow> live_state \<Rightarrow> rd_state \<Rightarrow> nat \<Rightarrow> (nat \<times> nat) list option" where
  "useless_conversion m live rd i =
    (if type_at m i \<noteq> IRBRANCHIF \<and> type_at m i \<noteq> IRBRANCHIFNOT then Some []
     else if \<not> trigger_of (unat (par1v m i)) < length (live_out (live ! i)) then None
     else if IRMETHOD_isVariableLiveOUT (live ! i) (par1v m i) then Some []
     else case internal_getSingleDefinitionReachedIn m live rd (par1v m i) i of
       None \<Rightarrow> Some []
     | Some convInst \<Rightarrow>
         if internal_type (param_1 (ir_instr_get_by_pos m convInst)) \<noteq> IRINT8 then Some [] else Some [(i, convInst)])"

fun useless_conversions :: "ir_method \<Rightarrow> live_state \<Rightarrow> rd_state \<Rightarrow> nat list \<Rightarrow> (nat \<times> nat) list option" where
  "useless_conversions m live rd [] = Some []"
| "useless_conversions m live rd (i # is) = do {
     t \<leftarrow> useless_conversion m live rd i;
     ts \<leftarrow> useless_conversions m live rd is;
     Some (t @ ts)
   }"

definition internal_fetchUselessBoolToIntConversion :: "ir_method \<Rightarrow> live_state \<Rightarrow> rd_state \<Rightarrow> (nat \<times> nat) list option" where
  "internal_fetchUselessBoolToIntConversion m live rd = useless_conversions m live rd [0..<ir_instr_count m]"

definition set_instruction :: "nat \<Rightarrow> ir_instruction \<Rightarrow> code \<Rightarrow> code" where
  "set_instruction pos inst code = code[pos := (handle_at code pos, inst)]"

fun internal_deleteUnusefulBoolToIntConversion :: "(nat \<times> nat) list \<Rightarrow> code \<Rightarrow> code option" where
  "internal_deleteUnusefulBoolToIntConversion [] code = Some code"
| "internal_deleteUnusefulBoolToIntConversion ((inst, convInst) # uselessConvs) code = do {
     i \<leftarrow> handle_position inst code;
     c \<leftarrow> handle_position convInst code;
     internal_deleteUnusefulBoolToIntConversion uselessConvs
       (set_instruction i ((snd (code ! i))\<lparr>param_1 := param_1 (snd (code ! c))\<rparr>) code)
   }"

definition map_code :: "(ir_instruction \<Rightarrow> ir_instruction) \<Rightarrow> code \<Rightarrow> code" where
  "map_code f = map (\<lambda>(h, inst). (h, f inst))"

definition internal_deleteUnusefulConversion :: "type_env \<Rightarrow> (nat \<times> nat) list \<Rightarrow> code \<Rightarrow> code option" where
  "internal_deleteUnusefulConversion T uselessConvs code = do {
     code \<leftarrow> internal_deleteUnusefulBoolToIntConversion uselessConvs
       (map_code (internal_deleteUnusefulFloatConversion T) (map_code (internal_convertNativeTypes T) code));
     Some (map_code internal_deleteUnusefulPointerConversion (map_code internal_deleteUnusefulIntConversion code))
   }"

section \<open>The plugin\<close>

text \<open>The steps that delete instructions and merge labels, in the order of the plugin.\<close>

definition delete_dead_code :: "ir_method \<Rightarrow> live_state \<Rightarrow> escapes \<Rightarrow> code \<Rightarrow> code option" where
  "delete_dead_code m live esc code = do {
     code \<leftarrow> delete_dead live esc (parametersNumber m) code;
     code \<leftarrow> internal_deleteCodeUnreachable m code;
     code \<leftarrow> internal_removeCatchBlocks m code;
     code \<leftarrow> internal_deleteUnusefulBranches m code;
     code \<leftarrow> internal_deleteUnusefulLabels m (internal_mergeLabels m code);
     internal_deleteUnusefulStores m code
   }"

definition eliminate_deadcode_within_method :: "type_env \<Rightarrow> ir_method \<Rightarrow> live_state \<Rightarrow> rd_state \<Rightarrow> escapes \<Rightarrow> ir_method option" where
  "eliminate_deadcode_within_method T m live rd esc =
    (if ir_instr_count m = 0 then Some m
     else do {
       uselessConvs \<leftarrow> internal_fetchUselessBoolToIntConversion m live rd;
       code \<leftarrow> delete_dead_code m live esc (method_code m);
       code \<leftarrow> internal_deleteUnusefulConversion T uselessConvs code;
       Some (code_method m code)
     })"

definition erase_useless_parameters :: "ir_method \<Rightarrow> ir_method" where
  "erase_useless_parameters m = m\<lparr>instructions := map (\<lambda>inst.
     if inst_type inst = IRLOADREL \<and> ir_instr_pars_count_get inst > 2 then inst\<lparr>param_3 := nopar_item\<rparr> else inst) (instructions m)\<rparr>"

text \<open>The elimination of whole methods is off unless an environment variable is set, and is not part of the model.\<close>

definition deadcode_do_job :: "type_env \<Rightarrow> ir_method \<Rightarrow> live_state \<Rightarrow> rd_state \<Rightarrow> escapes \<Rightarrow> ir_method option" where
  "deadcode_do_job T m live rd esc =
    (if ir_instr_count m = 0 then Some m
     else map_option erase_useless_parameters (eliminate_deadcode_within_method T m live rd esc))"

end
