(* ===== verification/DeadCodeSteps.thy ===== *)
theory DeadCodeSteps
  imports DeadCode Execution
begin

text \<open>
  The steps of dead code elimination that delete single instructions or merge labels keep the behaviour of a method
  (\<open>keeps\<close>). Every step but the merging of labels is an instance of the criterion of theory \<open>Execution\<close>; the merging
  is a simulation of its own. The marking of unreachable code and the whole plugin follow in \<open>DeadCodeCorrect\<close>.
\<close>

unbundle bit_operations_syntax

section \<open>Deletion by handles and by positions\<close>

lemma count_code_method [simp]: "ir_instr_count (code_method m code) = length code"
  by (simp add: code_method_def ir_instr_count_def)

lemma get_code_method: "i < length code \<Longrightarrow> ir_instr_get_by_pos (code_method m code) i = snd (code ! i)"
  by (simp add: ir_instr_get_by_pos_def) (simp add: code_method_def)

lemma delete_handles_filter:
  "distinct hs \<Longrightarrow> set hs \<subseteq> fst ` set code \<Longrightarrow> delete_handles hs code = Some (filter (\<lambda>p. fst p \<notin> set hs) code)"
proof (induction hs arbitrary: code)
  case (Cons h hs)
  then have "delete_handles (h # hs) code = delete_handles hs (filter (\<lambda>p. fst p \<noteq> h) code)"
    by (simp add: IRMETHOD_deleteInstruction_def)
  also have "\<dots> = Some (filter (\<lambda>p. fst p \<notin> set hs) (filter (\<lambda>p. fst p \<noteq> h) code))"
  proof (rule Cons.IH)
    show "set hs \<subseteq> fst ` set (filter (\<lambda>p. fst p \<noteq> h) code)"
    proof
      fix x assume x: "x \<in> set hs"
      then have "x \<in> fst ` set code" "x \<noteq> h" using Cons.prems by auto
      then obtain b where "(x, b) \<in> set code" "x \<noteq> h" by force
      then show "x \<in> fst ` set (filter (\<lambda>p. fst p \<noteq> h) code)" by (auto intro!: image_eqI [of _ fst "(x, b)"])
    qed
  qed (use Cons.prems in simp)
  also have "filter (\<lambda>p. fst p \<notin> set hs) (filter (\<lambda>p. fst p \<noteq> h) code) = filter (\<lambda>p. fst p \<notin> set (h # hs)) code"
    by (simp add: conj_commute)
  finally show ?case .
qed simp

lemma handles_where_facts:
  assumes "distinct (map fst code)"
  shows "distinct (handles_where P code)" "set (handles_where P code) \<subseteq> fst ` set code"
    "i < length code \<Longrightarrow> fst (code ! i) \<in> set (handles_where P code) \<longleftrightarrow> P i"
proof -
  have inj: "i < length code \<Longrightarrow> j < length code \<Longrightarrow> fst (code ! i) = fst (code ! j) \<Longrightarrow> i = j" for i j
    using nth_eq_iff_index_eq [OF assms, of i j] by simp
  show "distinct (handles_where P code)"
    unfolding handles_where_def handle_at_def distinct_map by (auto intro!: inj_onI inj)
  show "set (handles_where P code) \<subseteq> fst ` set code" by (auto simp: handles_where_def handle_at_def)
  show "i < length code \<Longrightarrow> fst (code ! i) \<in> set (handles_where P code) \<longleftrightarrow> P i"
    using inj by (auto simp: handles_where_def handle_at_def)
qed

definition removed :: "ir_method \<Rightarrow> code \<Rightarrow> nat set \<Rightarrow> code \<Rightarrow> bool" where
  "removed m code D code' \<longleftrightarrow> code' = nths code (- D) \<and> distinct (map fst code') \<and>
     code_method m code' = delete_positions D (code_method m code)"

lemma removed_nths:
  assumes "distinct (map fst code)"
  shows "removed m code D (nths code (- D))"
  using assms by (simp add: removed_def code_method_def delete_positions_def nths_map distinct_nthsI flip: nths_map)

lemma nths_cong:
  assumes "\<And>i. i < length xs \<Longrightarrow> i \<in> A \<longleftrightarrow> i \<in> B"
  shows "nths xs A = nths xs B"
  unfolding nths_def by (rule arg_cong [where f = "map fst"], rule filter_cong) (auto simp: set_zip assms)

lemma filter_positions: "filter P xs = nths xs (- {i. i < length xs \<and> \<not> P (xs ! i)})"
  unfolding filter_eq_nths by (rule nths_cong) auto

lemma delete_where:
  assumes d: "distinct (map fst code)" and hs: "hs = handles_where P code \<or> hs = rev (handles_where P code)"
  shows "\<exists>code'. delete_handles hs code = Some code' \<and> removed m code {i. i < length code \<and> P i} code'"
proof -
  note f = handles_where_facts [OF d, where P = P]
  have "delete_handles hs code = Some (filter (\<lambda>p. fst p \<notin> set hs) code)"
    by (rule delete_handles_filter) (use hs f in auto)
  also have "filter (\<lambda>p. fst p \<notin> set hs) code = nths code (- {i. i < length code \<and> P i})"
    unfolding filter_positions by (rule nths_cong) (use hs f in auto)
  finally show ?thesis using removed_nths [OF d] by blast
qed

section \<open>The methods the plugin handles, and the meaning of instructions\<close>

text \<open>
  Jumps and labels define no variable, the label a branch names exists and is an operand of the branch, the last instruction does not
  fall through, and no label has the number the plugin takes for none.
\<close>

definition jump_ok :: "ir_instruction \<Rightarrow> bool" where
  "jump_ok inst \<longleftrightarrow>
     (inst_type inst \<in> {IRNOP, IRLABEL, IRBRANCH, IRBRANCHIF, IRBRANCHIFNOT} \<longrightarrow> item_type (result inst) \<noteq> IROFFSET) \<and>
     (inst_type inst = IRBRANCH \<longrightarrow> item_type (param_1 inst) = IRLABELITEM) \<and>
     (inst_type inst \<in> {IRBRANCHIF, IRBRANCHIFNOT} \<longrightarrow> item_type (param_1 inst) \<noteq> NOPARAM \<and> item_type (param_2 inst) = IRLABELITEM) \<and>
     (inst_type inst = IRLABEL \<longrightarrow> val (param_1 inst) < 0xFFFFFFFF)"

definition final_types :: "nat set" where
  "final_types = {IRRET, IRBRANCH, IRTHROW}"

definition optimizable :: "ir_method \<Rightarrow> bool" where
  "optimizable m \<longleftrightarrow> plain_method m \<and> list_all jump_ok (instructions m) \<and>
     (\<forall>i<ir_instr_count m. Jump \<in> controls (type_at m i) \<longrightarrow> goto m i Jump \<noteq> None) \<and>
     inst_type (last (instructions m)) \<in> final_types"

definition removable :: "nat set \<Rightarrow> ir_instruction \<Rightarrow> bool" where
  "removable E inst \<longleftrightarrow> \<not> internal_hasSideEffect inst \<and> inst_type inst \<notin> {IRBRANCH, IRBRANCHIF, IRBRANCHIFNOT} \<and>
     (inst_type inst \<in> {IRNOP, IRLABEL} \<or> defined_vars inst - E \<noteq> {})"

text \<open>
  The laws of the meaning of instructions: an instruction depends on the variables it uses; an instruction without side effects
  that only defines a variable, and a branch, leave the world alone and can always be executed; a move of a variable to itself
  changes nothing; labels are no values.
\<close>

definition lawful :: "('v, 'w) meaning \<Rightarrow> nat set \<Rightarrow> bool" where
  "lawful exec E \<longleftrightarrow>
     (\<forall>inst s s' w. (\<forall>v\<in>live_uses inst - E. s v = s' v) \<longrightarrow> exec inst s w = exec inst s' w) \<and>
     (\<forall>inst s w. removable E inst \<longrightarrow> (\<exists>x. exec inst s w x w Fall) \<and> (\<forall>x w'. exec inst s w x w' Fall \<longrightarrow> w' = w)) \<and>
     (\<forall>inst s w. inst_type inst \<in> {IRBRANCH, IRBRANCHIF, IRBRANCHIFNOT} \<longrightarrow>
        (\<exists>x. \<exists>c\<in>controls (inst_type inst). exec inst s w x w c) \<and> (\<forall>x w' c. exec inst s w x w' c \<longrightarrow> w' = w)) \<and>
     (\<forall>inst s w. useless_store inst \<longrightarrow> (\<exists>x. exec inst s w x w Fall) \<and>
        (\<forall>x w'. exec inst s w x w' Fall \<longrightarrow> w' = w \<and> (\<forall>v\<in>defined_vars inst - E. x = s v))) \<and>
     (\<forall>inst a b. exec (IRMETHOD_substituteLabel inst a b) = exec inst)"

lemma lawfulD:
  assumes "lawful exec E"
  shows "\<forall>v\<in>live_uses inst - E. s v = s' v \<Longrightarrow> exec inst s w = exec inst s' w"
    and "removable E inst \<Longrightarrow> \<exists>x. exec inst s w x w Fall"
    and "removable E inst \<Longrightarrow> exec inst s w x w' Fall \<Longrightarrow> w' = w"
    and "inst_type inst \<in> {IRBRANCH, IRBRANCHIF, IRBRANCHIFNOT} \<Longrightarrow> \<exists>x. \<exists>c\<in>controls (inst_type inst). exec inst s w x w c"
    and "inst_type inst \<in> {IRBRANCH, IRBRANCHIF, IRBRANCHIFNOT} \<Longrightarrow> exec inst s w x w' c \<Longrightarrow> w' = w"
    and "useless_store inst \<Longrightarrow> \<exists>x. exec inst s w x w Fall"
    and "useless_store inst \<Longrightarrow> exec inst s w x w' Fall \<Longrightarrow> w' = w \<and> (\<forall>v\<in>defined_vars inst - E. x = s v)"
    and "exec (IRMETHOD_substituteLabel inst a b) = exec inst"
proof -
  note l = assms [unfolded lawful_def]
  note l1 = l [THEN conjunct1] and l2 = l [THEN conjunct2, THEN conjunct1] and l3 = l [THEN conjunct2, THEN conjunct2, THEN conjunct1]
    and l4 = l [THEN conjunct2, THEN conjunct2, THEN conjunct2, THEN conjunct1] and l5 = l [THEN conjunct2, THEN conjunct2, THEN conjunct2, THEN conjunct2]
  show "\<forall>v\<in>live_uses inst - E. s v = s' v \<Longrightarrow> exec inst s w = exec inst s' w" using l1 by simp
  show "removable E inst \<Longrightarrow> \<exists>x. exec inst s w x w Fall" using l2 by simp
  show "removable E inst \<Longrightarrow> exec inst s w x w' Fall \<Longrightarrow> w' = w" using l2 by simp
  show "inst_type inst \<in> {IRBRANCH, IRBRANCHIF, IRBRANCHIFNOT} \<Longrightarrow> \<exists>x. \<exists>c\<in>controls (inst_type inst). exec inst s w x w c" using l3 by blast
  show "inst_type inst \<in> {IRBRANCH, IRBRANCHIF, IRBRANCHIFNOT} \<Longrightarrow> exec inst s w x w' c \<Longrightarrow> w' = w" using l3 by blast
  show "useless_store inst \<Longrightarrow> \<exists>x. exec inst s w x w Fall" using l4 by simp
  show "useless_store inst \<Longrightarrow> exec inst s w x w' Fall \<Longrightarrow> w' = w \<and> (\<forall>v\<in>defined_vars inst - E. x = s v)" using l4 by simp
  show "exec (IRMETHOD_substituteLabel inst a b) = exec inst" using l5 by simp
qed

lemma optimizableD:
  assumes "optimizable m"
  shows "plain_method m" and "i < ir_instr_count m \<Longrightarrow> jump_ok (ir_instr_get_by_pos m i)"
    and "i < ir_instr_count m \<Longrightarrow> Jump \<in> controls (type_at m i) \<Longrightarrow> \<exists>p. goto m i Jump = Some p"
    and "0 < ir_instr_count m" and "type_at m (ir_instr_count m - 1) \<in> final_types"
proof -
  show p: "plain_method m" using assms by (simp add: optimizable_def)
  then show n: "0 < ir_instr_count m" by (rule plainD(1))
  show "type_at m (ir_instr_count m - 1) \<in> final_types"
    using assms n by (simp add: optimizable_def last_conv_nth ir_instr_count_def ir_instr_get_by_pos_def)
qed (use assms in \<open>auto simp: optimizable_def all_instructions\<close>)

lemma jump_target:
  assumes m: "plain_method m" and i: "i < ir_instr_count m" and j: "Jump \<in> controls (type_at m i)"
  shows "goto m i Jump = Some p \<longleftrightarrow>
    p < ir_instr_count m \<and> type_at m p = IRLABEL \<and> par1v m p = label_operand (ir_instr_get_by_pos m i)"
  using label_get_plain [OF m plainD(3) [OF m i], of p] label_get_plain [OF m plainD(4) [OF m i], of p] j
  by (auto simp: goto_def label_operand_def controls_def split: if_splits)

lemma jump_to_label:
  assumes "plain_method m" and "i < ir_instr_count m" and "Jump \<in> controls (type_at m i)" and "goto m i Jump = Some p"
  shows "p < ir_instr_count m" "type_at m p = IRLABEL"
  using jump_target [OF assms(1-3), of p] assms(4) by simp_all

lemma distinct_map_filter_nths: "distinct (map f (filter P xs)) \<Longrightarrow> distinct (map f (filter P (nths xs A)))"
proof (induction xs arbitrary: A)
  case (Cons x xs)
  have "set (map f (filter P (nths xs {j. Suc j \<in> A}))) \<subseteq> set (map f (filter P xs))"
    using set_nths_subset [of xs "{j. Suc j \<in> A}"] by auto
  with Cons show ?case by (auto simp: nths_Cons split: if_splits)
qed simp

lemma new_position_same: "a \<le> b \<Longrightarrow> (\<And>j. a \<le> j \<Longrightarrow> j < b \<Longrightarrow> j \<in> D) \<Longrightarrow> new_position D b = new_position D a"
proof (induction b)
  case (Suc b)
  then show ?case by (cases "a = Suc b") (auto simp: new_position_Suc)
qed simp

lemma optimizable_delete:
  assumes m: "optimizable m"
    and jumps: "\<And>i p. i < ir_instr_count m \<Longrightarrow> i \<notin> D \<Longrightarrow> Jump \<in> controls (type_at m i) \<Longrightarrow> goto m i Jump = Some p \<Longrightarrow> p \<notin> D"
    and k: "k < ir_instr_count m" "k \<notin> D" "type_at m k \<in> final_types" "\<And>j. k < j \<Longrightarrow> j < ir_instr_count m \<Longrightarrow> j \<in> D"
  shows "optimizable (delete_positions D m)"
proof -
  let ?m = "delete_positions D m" and ?xs = "nths (instructions m) (- D)"
  note p = optimizableD(1) [OF m]
  have sub: "set ?xs \<subseteq> set (instructions m)" by (rule set_nths_subset)
  have all: "list_all P (instructions m) \<Longrightarrow> list_all P ?xs" for P using sub by (auto simp: list_all_iff)
  have "new_position D (ir_instr_count m) = new_position D (Suc k)" by (rule new_position_same) (use k in auto)
  then have n: "ir_instr_count ?m = new_position D k + 1" using k(2) by (simp add: new_position_Suc)
  have ne: "?xs \<noteq> []" using n by (auto simp: delete_positions_def ir_instr_count_def)
  have "length ?xs = Suc (new_position D k)" using n unfolding ir_instr_count_def by (simp add: delete_positions_def)
  then have "last ?xs = ir_instr_get_by_pos ?m (new_position D k)"
    using ne by (simp add: last_conv_nth ir_instr_get_by_pos_def ir_instr_count_def) (simp add: delete_positions_def)
  then have l: "last ?xs = ir_instr_get_by_pos m k" using delete_get [OF k(1,2)] by simp
  have "plain_method ?m"
    unfolding plain_method_def using p ne l k(3) all distinct_map_filter_nths
    by (simp add: plain_method_def delete_positions_def) (auto simp: final_types_def)
  moreover have "goto ?m i Jump \<noteq> None" if i: "i < ir_instr_count ?m" and J: "Jump \<in> controls (type_at ?m i)" for i
  proof -
    obtain i0 where i0: "i0 < ir_instr_count m" "i0 \<notin> D" "new_position D i0 = i" using new_position_kept [of i D "ir_instr_count m"] i by auto
    have J0: "Jump \<in> controls (type_at m i0)" using J delete_get [OF i0(1,2)] i0(3) by simp
    then obtain q where "goto m i0 Jump = Some q" using optimizableD(3) [OF m i0(1)] by blast
    then show ?thesis using goto_delete(1) [OF p i0(1,2) J0] jumps [OF i0(1,2)] i0(3) by auto
  qed
  ultimately show ?thesis
    using m all l k(3) by (auto simp: optimizable_def) (simp_all add: delete_positions_def)
qed

text \<open>The last instruction stays when it is none of those a step deletes.\<close>

lemma optimizable_delete_last:
  assumes m: "optimizable m"
    and jumps: "\<And>i p. i < ir_instr_count m \<Longrightarrow> i \<notin> D \<Longrightarrow> Jump \<in> controls (type_at m i) \<Longrightarrow> goto m i Jump = Some p \<Longrightarrow> p \<notin> D"
    and l: "ir_instr_count m - 1 \<notin> D"
  shows "optimizable (delete_positions D m)"
  using optimizableD(4,5) [OF m] by (intro optimizable_delete [OF m jumps _ l]) auto

lemma controls_transparent: "removable E inst \<Longrightarrow> controls (inst_type inst) = {Fall}"
  by (auto simp: removable_def internal_hasSideEffect_def controls_def mayInstructionOfTypeThrowException_def)

section \<open>Dead definitions\<close>

definition deletes :: "live_state \<Rightarrow> nat set \<Rightarrow> nat \<times> ir_instruction \<Rightarrow> bool" where
  "deletes live E = (\<lambda>(h, inst). \<not> internal_hasSideEffect inst \<and>
     (inst_type inst = IRNOP \<or> live_def (live ! h) \<noteq> -1 \<and> \<not> IRMETHOD_isVariableLiveOUT (live ! h) (live_def (live ! h)) \<and>
        unat (live_def (live ! h)) \<notin> E))"

lemma delete_dead_eq:
  assumes "distinct (map fst code)"
    and "\<And>h inst. (h, inst) \<in> set code \<Longrightarrow> live_def (live ! h) \<noteq> -1 \<Longrightarrow>
      ir_method_escapes_isVariableEscaped esc (unat (ucast (live_def (live ! h)) :: 32 word)) = Some (unat (live_def (live ! h)) \<in> E)"
  shows "delete_dead live esc i code = Some (take i code @ filter (\<lambda>p. \<not> deletes live E p) (drop i code))"
  using assms
proof (induction live esc i code rule: delete_dead.induct)
  case (1 live esc i code)
  show ?case
  proof (cases "i < length code")
    case False
    then show ?thesis by (simp add: delete_dead.simps [of live esc i code])
  next
    case i: True
    obtain h inst where hi: "code ! i = (h, inst)" by fastforce
    have mem: "(h, inst) \<in> set code" using hi i by (metis nth_mem)
    have split: "code = take i code @ (h, inst) # drop (Suc i) code" using hi i by (metis id_take_nth_drop)
    have test: "\<exists>b. defines_dead (live ! h) esc inst = Some b \<and> (b \<and> \<not> internal_hasSideEffect inst \<longleftrightarrow> deletes live E (h, inst))"
      using 1(4) [OF mem] by (auto simp: defines_dead_def deletes_def)
    then obtain b where b: "defines_dead (live ! h) esc inst = Some b" "b \<and> \<not> internal_hasSideEffect inst \<longleftrightarrow> deletes live E (h, inst)" by blast
    have at: "handle_at code i = h" "snd (code ! i) = inst" using hi by (simp_all add: handle_at_def)
    show ?thesis
    proof (cases "deletes live E (h, inst)")
      case True
      have d: "distinct (map fst (take i code @ (h, inst) # drop (Suc i) code))" using 1(3) unfolding split [symmetric] .
      have "filter (\<lambda>p. fst p \<noteq> h) code = filter (\<lambda>p. fst p \<noteq> h) (take i code) @ filter (\<lambda>p. fst p \<noteq> h) (drop (Suc i) code)"
        by (subst split) simp
      also have "\<dots> = take i code @ drop (Suc i) code" using d by (auto intro!: arg_cong2 [where f = "(@)"] filter_True)
      finally have del: "IRMETHOD_deleteInstruction h code = Some (take i code @ drop (Suc i) code)"
        using mem by (force simp: IRMETHOD_deleteInstruction_def)
      let ?c = "take i code @ drop (Suc i) code"
      have c: "distinct (map fst ?c)" "\<And>x. x \<in> set ?c \<Longrightarrow> x \<in> set code" using d by (auto dest: in_set_takeD in_set_dropD)
      have "delete_dead live esc i code = delete_dead live esc i ?c"
        using i b True del at by (simp add: delete_dead.simps [of live esc i code])
      also have "\<dots> = Some (take i ?c @ filter (\<lambda>p. \<not> deletes live E p) (drop i ?c))"
        using 1(1) [OF i at(1) [symmetric] at(2) [symmetric] b(1)] b(2) True del c 1(4) by blast
      finally show ?thesis using i True by (subst (2) split) simp
    next
      case False
      have "delete_dead live esc i code = delete_dead live esc (i + 1) code"
        using i b False at by (subst delete_dead.simps) auto
      also have "\<dots> = Some (take (i + 1) code @ filter (\<lambda>p. \<not> deletes live E p) (drop (i + 1) code))"
        using 1(2) [OF i at(1) [symmetric] at(2) [symmetric] b(1)] b(2) False 1(3,4) by blast
      finally show ?thesis using i False hi by (simp add: take_Suc_conv_app_nth flip: Cons_nth_drop_Suc)
    qed
  qed
qed


lemma live_facts:
  assumes v: "variables_ok m" and vm: "0 < var_max m" and live: "liveness_do_job m old = Some live" and i: "i < ir_instr_count m"
  defines "d \<equiv> live_def (live ! i)"
  shows "method_defines m i = (if d = -1 then {} else {unat d})"
    and "d \<noteq> -1 \<Longrightarrow> unat d < var_max m"
    and "d \<noteq> -1 \<Longrightarrow> IRMETHOD_isVariableLiveOUT (live ! i) d \<longleftrightarrow>
      arrives (live_edges m) (method_uses m) (method_defines m) i (unat d)"
proof -
  have ok: "live_ok (init_def_use m) (live_blocks m) live"
    and out: "\<And>v. unat v < var_max m \<Longrightarrow> IRMETHOD_isVariableLiveOUT (live ! i) v \<longleftrightarrow>
          arrives (live_edges m) (method_uses m) (method_defines m) i (unat v)"
    using liveness_result [OF v vm, of old] live i by auto
  let ?r = "result (ir_instr_get_by_pos m i)"
  have d: "d = (if i < parametersNumber m then word_of_nat i else if item_type ?r = IROFFSET then val ?r else -1)"
    using ok i by (auto simp: live_ok_def d_def init_def_use_nth init_def_use_par_def init_def_use_inst_fields)
  have b: "var_max m < 2 ^ 32" "parametersNumber m \<le> var_max m" using v by (simp_all add: variables_ok_def)
  have par: "unat (word_of_nat i :: 64 word) = i" if "i < parametersNumber m"
    using that b by (simp add: unat_of_nat take_bit_nat_eq_self)
  have less: "unat d < var_max m \<and> d \<noteq> -1" if "i < parametersNumber m \<or> item_type ?r = IROFFSET"
  proof -
    have "unat d \<in> method_defines m i" using that i par by (auto simp: d method_defines_def defined_vars_def)
    then have "unat d < var_max m" using defined_vars_less [OF v i] by auto
    then show ?thesis using small_not_minus_one [of d] b by simp
  qed
  show "method_defines m i = (if d = -1 then {} else {unat d})"
    using less i par by (auto simp: d method_defines_def defined_vars_def)
  show "d \<noteq> -1 \<Longrightarrow> unat d < var_max m" using less by (auto simp: d split: if_splits)
  then show "d \<noteq> -1 \<Longrightarrow> IRMETHOD_isVariableLiveOUT (live ! i) d \<longleftrightarrow>
      arrives (live_edges m) (method_uses m) (method_defines m) i (unat d)" using out by blast
qed

definition deleted_definitions :: "ir_method \<Rightarrow> live_state \<Rightarrow> nat set \<Rightarrow> nat set" where
  "deleted_definitions m live E = {i. parametersNumber m \<le> i \<and> i < ir_instr_count m \<and> deletes live E (i, ir_instr_get_by_pos m i)}"

lemma delete_dead_positions:
  assumes v: "variables_ok m" and vm: "0 < var_max m" and live: "liveness_do_job m old = Some live"
    and esc: "\<forall>v<var_max m. ir_method_escapes_isVariableEscaped esc v = Some (v \<in> E)"
  shows "\<exists>code. delete_dead live esc (parametersNumber m) (method_code m) = Some code \<and>
    removed m (method_code m) (deleted_definitions m live E) code"
proof -
  let ?c = "method_code m" and ?p = "parametersNumber m"
  have n: "length ?c = ir_instr_count m" by (simp add: method_code_def ir_instr_count_def)
  have nth: "?c ! i = (i, ir_instr_get_by_pos m i)" if "i < ir_instr_count m" for i
    using that by (simp add: method_code_def ir_instr_get_by_pos_def ir_instr_count_def)
  have d: "distinct (map fst ?c)" by (simp add: method_code_def ir_instr_count_def)
  have p: "?p \<le> ir_instr_count m" using v by (simp add: variables_ok_def)
  have e: "ir_method_escapes_isVariableEscaped esc (unat (ucast (live_def (live ! h)) :: 32 word)) = Some (unat (live_def (live ! h)) \<in> E)"
    if h: "(h, inst) \<in> set ?c" and ne: "live_def (live ! h) \<noteq> -1" for h inst
  proof -
    have "h < ir_instr_count m" using h n nth by (metis Pair_inject in_set_conv_nth)
    from live_facts(2) [OF v vm live this ne] have u: "unat (live_def (live ! h)) < var_max m" .
    moreover have "var_max m < 2 ^ 32" using v by (simp add: variables_ok_def)
    ultimately have "unat (ucast (live_def (live ! h)) :: 32 word) = unat (live_def (live ! h))"
      by (simp add: unsigned_ucast_eq take_bit_nat_eq_self)
    then show ?thesis using u esc by simp
  qed
  let ?Q = "\<lambda>q. fst q < ?p \<or> \<not> deletes live E q"
  have t: "fst x < ?p" if "x \<in> set (take ?p ?c)" for x using that nth n p by (auto simp: in_set_conv_nth)
  have dr: "\<not> fst x < ?p" if "x \<in> set (drop ?p ?c)" for x using that nth n p by (auto simp: in_set_conv_nth)
  have "take ?p ?c @ filter (\<lambda>q. \<not> deletes live E q) (drop ?p ?c) = filter ?Q (take ?p ?c) @ filter ?Q (drop ?p ?c)"
    using t dr by (intro arg_cong2 [where f = "(@)"] filter_cong [OF refl]) (auto simp: filter_True)
  also have "\<dots> = filter ?Q ?c" by (simp flip: filter_append)
  also have "\<dots> = nths ?c (- deleted_definitions m live E)"
    unfolding filter_positions by (rule nths_cong) (auto simp: deleted_definitions_def nth n)
  finally show ?thesis using delete_dead_eq [OF d e] removed_nths [OF d] by auto
qed


text \<open>What every step keeps.\<close>

definition keeps :: "('v, 'w) meaning \<Rightarrow> nat set \<Rightarrow> ir_method \<Rightarrow> code \<Rightarrow> code \<Rightarrow> bool" where
  "keeps exec E m code code' \<longleftrightarrow> optimizable (code_method m code') \<and> distinct (map fst code') \<and>
     behaviour exec E (code_method m code') = behaviour exec E (code_method m code)"

lemma keeps_removed:
  assumes m: "optimizable (code_method m code)" and r: "removed m code D code'"
    and safe: "safe_deletion exec E (code_method m code) D R L" and o: "optimizable (delete_positions D (code_method m code))"
  shows "keeps exec E m code code'"
  using r o deletion_keeps_behaviour [OF optimizableD(1) [OF m] safe] unfolding keeps_def removed_def by (auto simp: fun_eq_iff)

lemma keeps_trans: "keeps exec E m a b \<Longrightarrow> keeps exec E m b c \<Longrightarrow> keeps exec E m a c"
  by (simp add: keeps_def)

lemma jump_ok_defines:
  "jump_ok inst \<Longrightarrow> inst_type inst \<in> {IRNOP, IRLABEL, IRBRANCH, IRBRANCHIF, IRBRANCHIFNOT} \<Longrightarrow> defined_vars inst = {}"
  by (auto simp: jump_ok_def defined_vars_def)

lemma plain_no_endfinally: "plain_method m \<Longrightarrow> i < ir_instr_count m \<Longrightarrow> type_at m i \<noteq> IRENDFINALLY"
  using plainD(2) by (auto simp: handler_types_def)

lemma transparent_fall:
  assumes i: "i < ir_instr_count m" "i \<in> D" and c: "controls (type_at m i) = {Fall}"
    and ex: "\<And>s w. \<exists>x. exec (ir_instr_get_by_pos m i) s w x w Fall"
    and only: "\<And>s w x w'. exec (ir_instr_get_by_pos m i) s w x w' Fall \<Longrightarrow>
      w' = w \<and> (\<forall>v\<in>L (i + 1) - E. assign E (ir_instr_get_by_pos m i) x s v = s v)"
    and L: "L (i + 1) - E \<subseteq> L i"
  shows "transparent exec E m D L i"
  unfolding transparent_def
proof (intro conjI allI impI)
  fix s w
  show "\<exists>x w' c j. exec (ir_instr_get_by_pos m i) s w x w' c \<and> c \<in> controls (type_at m i) \<and> goto m i c = Some j \<and> i < j"
    using ex [of s w] by (auto simp: c goto_def)
qed (use i c only L in \<open>auto simp: goto_def new_position_Suc\<close>)

lemma deleted_definition:
  assumes m: "optimizable m" and v: "variables_ok m" and vm: "0 < var_max m" and live: "liveness_do_job m old = Some live"
    and i: "i \<in> deleted_definitions m live E"
  shows "i < ir_instr_count m" "parametersNumber m \<le> i" "removable E (ir_instr_get_by_pos m i)" "type_at m i \<noteq> IRLABEL"
    "type_at m i \<notin> final_types"
    "x \<in> defined_vars (ir_instr_get_by_pos m i) \<Longrightarrow> \<not> arrives (live_edges m) (method_uses m) (method_defines m) i x"
proof -
  show n: "i < ir_instr_count m" and p: "parametersNumber m \<le> i" using i by (auto simp: deleted_definitions_def)
  let ?inst = "ir_instr_get_by_pos m i" and ?d = "live_def (live ! i)"
  have del: "\<not> internal_hasSideEffect ?inst"
    "inst_type ?inst = IRNOP \<or> ?d \<noteq> -1 \<and> \<not> IRMETHOD_isVariableLiveOUT (live ! i) ?d \<and> unat ?d \<notin> E"
    using i by (auto simp: deleted_definitions_def deletes_def)
  have df: "defined_vars ?inst = (if ?d = -1 then {} else {unat ?d})"
    using live_facts(1) [OF v vm live n] n p by (simp add: method_defines_def)
  have j: "jump_ok ?inst" using optimizableD(2) [OF m n] .
  have ty: "inst_type ?inst \<notin> {IRLABEL, IRBRANCH, IRBRANCHIF, IRBRANCHIFNOT}"
    using del(2) df jump_ok_defines [OF j] by (auto split: if_splits)
  then show "type_at m i \<noteq> IRLABEL" by simp
  show "removable E ?inst" using del ty df by (auto simp: removable_def)
  show "type_at m i \<notin> final_types"
    using del(1) ty by (auto simp: final_types_def internal_hasSideEffect_def mayInstructionOfTypeThrowException_def)
  show "\<not> arrives (live_edges m) (method_uses m) (method_defines m) i x" if x: "x \<in> defined_vars ?inst"
  proof -
    have "inst_type ?inst \<noteq> IRNOP" using x jump_ok_defines [OF j] by auto
    then show ?thesis using del(2) x df live_facts(3) [OF v vm live n] by auto
  qed
qed

definition live_at :: "ir_method \<Rightarrow> nat \<Rightarrow> nat set" where
  "live_at m i = (if i < parametersNumber m then UNIV else {x. flows (live_edges m) (method_uses m) (method_defines m) i x})"

lemma live_at_edge:
  assumes m: "optimizable m" and dummies: "\<forall>i<parametersNumber m. type_at m i = IRNOP" and i: "i < ir_instr_count m"
    and c: "c \<in> controls (type_at m i)" "goto m i c = Some j" and x: "x \<in> live_at m j" "parametersNumber m \<le> i"
  shows "arrives (live_edges m) (method_uses m) (method_defines m) i x"
proof -
  note p = optimizableD(1) [OF m]
  have j: "j \<in> set (successors m i)" using successors_controls [OF p i] c by blast
  have e: "live_edges m i = set (successors m i)" using live_edges_all i plain_no_endfinally [OF p i] by blast
  have "\<not> j < parametersNumber m"
  proof
    assume "j < parametersNumber m"
    then have "type_at m j = IRNOP" "j < i + 1" using dummies x(2) by auto
    then show False using c jump_target [OF p i, of j] i x(2) by (cases c) (simp_all add: goto_def [of _ _ Fall] goto_def [of _ _ Leave])
  qed
  then have "flows (live_edges m) (method_uses m) (method_defines m) j x" using x(1) by (simp add: live_at_def)
  then show ?thesis using j e unfolding arrives_def by blast
qed


lemma dead_definitions_safe:
  fixes exec :: "('v, 'w) meaning"
  assumes m: "optimizable m" and v: "variables_ok m" and vm: "0 < var_max m" and dummies: "\<forall>i<parametersNumber m. type_at m i = IRNOP"
    and live: "liveness_do_job m old = Some live" and law: "lawful exec E"
  shows "safe_deletion exec E m (deleted_definitions m live E) (\<lambda>_. True) (live_at m)"
  unfolding safe_deletion_def
proof (intro conjI allI impI ballI)
  let ?D = "deleted_definitions m live E"
  note p = optimizableD(1) [OF m] and del = deleted_definition [OF m v vm live]
  show "?D \<subseteq> {..<ir_instr_count m}" by (auto simp: deleted_definitions_def)
  fix i assume i: "i < ir_instr_count m"
  let ?inst = "ir_instr_get_by_pos m i"
  have at: "live_at m i = UNIV" if "i < parametersNumber m" using that by (simp add: live_at_def)
  have df: "method_defines m i = defined_vars ?inst" "method_uses m i = live_uses ?inst" if "\<not> i < parametersNumber m"
    using that i by (simp_all add: method_defines_def method_uses_def)
  show "live_at m j - E \<subseteq> live_at m i \<union> defined_vars ?inst" if "c \<in> controls (type_at m i)" "goto m i c = Some j" for c j
    using live_at_edge [OF m dummies i that] df at
    by (cases "i < parametersNumber m") (auto simp: live_at_def flows_unfold [of _ _ _ i])
  show "if i \<in> ?D then transparent exec E m ?D (live_at m) i
     else (\<forall>s s' w. (\<forall>v\<in>live_at m i - E. s v = s' v) \<longrightarrow> exec ?inst s w = exec ?inst s' w) \<and>
       (\<forall>q. Jump \<in> controls (type_at m i) \<longrightarrow> goto m i Jump = Some q \<longrightarrow> q \<notin> ?D)"
  proof (cases "i \<in> ?D")
    case True
    note d = del [OF True]
    have fall: "controls (type_at m i) = {Fall}" by (rule controls_transparent [OF d(3)])
    have dead: "x \<notin> defined_vars ?inst" "x \<in> live_at m i" if "x \<in> live_at m (i + 1)" for x
    proof -
      have a: "arrives (live_edges m) (method_uses m) (method_defines m) i x"
        using live_at_edge [OF m dummies i, of Fall "i + 1" x] that fall d(2) by (simp add: goto_def)
      then show "x \<notin> defined_vars ?inst" using d(6) by blast
      then show "x \<in> live_at m i" using a d(2) df by (auto simp: live_at_def flows_unfold [of _ _ _ i])
    qed
    have "transparent exec E m ?D (live_at m) i"
      by (rule transparent_fall [OF i True fall])
        (use dead lawfulD(2,3) [OF law d(3)] in \<open>auto simp: assign_def\<close>)
    then show ?thesis using True by simp
  next
    case False
    have "live_uses ?inst \<subseteq> live_at m i" using at df by (auto simp: live_at_def flows_gen)
    then have 1: "\<forall>s s' w. (\<forall>v\<in>live_at m i - E. s v = s' v) \<longrightarrow> exec ?inst s w = exec ?inst s' w"
      using lawfulD(1) [OF law] by blast
    have 2: "q \<notin> ?D" if "Jump \<in> controls (type_at m i)" "goto m i Jump = Some q" for q
      using jump_target [OF p i that(1)] that(2) del(4) by blast
    from 1 2 False show ?thesis by simp
  qed
qed simp

lemma delete_dead_keeps:
  assumes m: "optimizable m" and v: "variables_ok m" and vm: "0 < var_max m" and dummies: "\<forall>i<parametersNumber m. type_at m i = IRNOP"
    and live: "liveness_do_job m old = Some live" and law: "lawful exec E"
    and esc: "\<forall>v<var_max m. ir_method_escapes_isVariableEscaped esc v = Some (v \<in> E)"
  shows "\<exists>code. delete_dead live esc (parametersNumber m) (method_code m) = Some code \<and> keeps exec E m (method_code m) code \<and>
    code = nths (method_code m) (- deleted_definitions m live E)"
proof -
  note del = deleted_definition [OF m v vm live]
  have c: "code_method m (method_code m) = m" by (simp add: code_method_def method_code_def ir_instr_count_def)
  obtain code where code: "delete_dead live esc (parametersNumber m) (method_code m) = Some code"
    "removed m (method_code m) (deleted_definitions m live E) code" using delete_dead_positions [OF v vm live esc] by blast
  have "optimizable (delete_positions (deleted_definitions m live E) m)"
    by (rule optimizable_delete_last [OF m])
      (use del(4) jump_target [OF optimizableD(1) [OF m]] del(5) optimizableD(5) [OF m] in blast)+
  then have "keeps exec E m (method_code m) code"
    using keeps_removed [OF _ code(2)] dead_definitions_safe [OF m v vm dummies live law] m unfolding c by blast
  with code show ?thesis by (auto simp: removed_def)
qed


section \<open>The steps that delete single instructions\<close>

lemma keeps_refl: "optimizable (code_method m code) \<Longrightarrow> distinct (map fst code) \<Longrightarrow> keeps exec E m code code"
  by (simp add: keeps_def)

text \<open>A step that deletes the instructions a test selects, each of them transparent where it stands.\<close>

lemma where_keeps:
  fixes exec :: "('v, 'w) meaning"
  assumes law: "lawful exec E" and o: "optimizable (code_method m code)" and d: "distinct (map fst code)"
    and hs: "hs = handles_where P code \<or> hs = rev (handles_where P code)"
    and tr: "\<And>i. i < length code \<Longrightarrow> P i \<Longrightarrow> transparent exec E (code_method m code) {i. i < length code \<and> P i} (\<lambda>_. UNIV) i"
    and jumps: "\<And>i p. i < length code \<Longrightarrow> \<not> P i \<Longrightarrow> Jump \<in> controls (type_at (code_method m code) i) \<Longrightarrow>
      goto (code_method m code) i Jump = Some p \<Longrightarrow> \<not> P p"
    and final: "\<not> P (length code - 1)"
  shows "\<exists>code'. delete_handles hs code = Some code' \<and> keeps exec E m code code' \<and> code' = nths code (- {i. i < length code \<and> P i})"
proof -
  let ?D = "{i. i < length code \<and> P i}" and ?m = "code_method m code"
  obtain code' where c: "delete_handles hs code = Some code'" "removed m code ?D code'" using delete_where [OF d hs] by blast
  have "safe_deletion exec E ?m ?D (\<lambda>_. True) (\<lambda>_. UNIV)"
    unfolding safe_deletion_def
  proof (intro conjI allI impI ballI)
    fix i assume i: "i < ir_instr_count ?m"
    have agree: "\<forall>s s' w. (\<forall>v\<in>UNIV - E. s v = s' v) \<longrightarrow> exec (ir_instr_get_by_pos ?m i) s w = exec (ir_instr_get_by_pos ?m i) s' w"
      by (intro allI impI lawfulD(1) [OF law]) simp
    show "if i \<in> ?D then transparent exec E ?m ?D (\<lambda>_. UNIV) i
      else (\<forall>s s' w. (\<forall>v\<in>UNIV - E. s v = s' v) \<longrightarrow> exec (ir_instr_get_by_pos ?m i) s w = exec (ir_instr_get_by_pos ?m i) s' w) \<and>
        (\<forall>p. Jump \<in> controls (type_at ?m i) \<longrightarrow> goto ?m i Jump = Some p \<longrightarrow> p \<notin> ?D)"
      proof (cases "P i")
      case True
      then show ?thesis using tr i by simp
    next
      case False
      have "\<forall>p. Jump \<in> controls (type_at ?m i) \<longrightarrow> goto ?m i Jump = Some p \<longrightarrow> p \<notin> ?D" using jumps [of i] False i by simp
      with False agree show ?thesis by (simp only: mem_Collect_eq simp_thms if_False)
    qed
  qed auto
  moreover have "optimizable (delete_positions ?D ?m)"
    by (rule optimizable_delete_last [OF o]) (use jumps final in auto)
  ultimately have "keeps exec E m code code'" using keeps_removed [OF o c(2)] by blast
  with c show ?thesis by (auto simp: removed_def)
qed

lemma removeCatchBlocks_keeps:
  assumes o: "optimizable (code_method m code)" and d: "distinct (map fst code)"
  shows "internal_removeCatchBlocks m code = Some code"
proof -
  have "\<not> lost_catch_block (code_method m code) i" if "i < length code" for i
    using plainD(2) [OF optimizableD(1) [OF o], of i] that by (auto simp: lost_catch_block_def handler_types_def)
  then have "handles_where (lost_catch_block (code_method m code)) code = []" by (simp add: handles_where_def)
  then show ?thesis by (simp add: internal_removeCatchBlocks_def)
qed

lemma getSuccessorInstruction_eq: "IRMETHOD_getSuccessorInstruction m i = succ_step m i"
  by (simp add: fun_eq_iff IRMETHOD_getSuccessorInstruction_def succ_step_def)

lemma useless_branch_target:
  assumes m: "optimizable m" and i: "i < ir_instr_count m" and u: "useless_branch m i" and c: "c \<in> controls (type_at m i)"
    and g: "goto m i c = Some j"
  shows "j = i + 1"
proof -
  note p = optimizableD(1) [OF m]
  consider (branch) "type_at m i = IRBRANCH" "i + 1 < ir_instr_count m" "type_at m (i + 1) = IRLABEL" "par1v m (i + 1) = par1v m i"
    | (cond) "type_at m i \<in> {IRBRANCHIF, IRBRANCHIFNOT}"
      "succ_step m i (succ_step m i None) = None \<or> succ_step m i None = succ_step m i (succ_step m i None)"
    using u by (auto simp: useless_branch_def getSuccessorInstruction_eq Let_def split: if_splits)
  then show ?thesis
  proof cases
    case branch
    then have "c = Jump" using c by (simp add: controls_def)
    then have "j < ir_instr_count m" "type_at m j = IRLABEL" "par1v m j = par1v m (i + 1)"
      using jump_target [OF p i, of j] g branch c by (auto simp: label_operand_def)
    then show ?thesis using plainD(5) [OF p, of j "i + 1"] branch by blast
  next
    case cond
    have "\<exists>x. set (successors m i) \<subseteq> {x}"
    proof -
      have "length (successors m i) \<le> 2"
        using cond(1) unfolding successors_def Let_def by (auto simp: option_list_def split: option.split)
      moreover have "enumerates (succ_step m i) None (successors m i)" using enumerates_successors i by simp
      ultimately show ?thesis
        using cond(2) by (cases "successors m i"; cases "tl (successors m i)") auto
    qed
    then obtain x where x: "set (successors m i) \<subseteq> {x}" ..
    have "i + 1 \<in> set (successors m i)" "j \<in> set (successors m i)"
      using successors_controls [OF p i] c g cond(1) by (auto simp: controls_def goto_def [of _ _ Fall] intro!: bexI [of _ Fall])
    then show ?thesis using x by auto
  qed
qed


lemma useless_branch_type:
  "useless_branch m i \<Longrightarrow> type_at m i \<in> {IRBRANCH, IRBRANCHIF, IRBRANCHIFNOT}"
  "useless_branch m i \<Longrightarrow> type_at m i \<in> {IRBRANCHIF, IRBRANCHIFNOT} \<or> i + 1 < ir_instr_count m"
  by (auto simp: useless_branch_def split: if_splits)

lemma deleteUnusefulBranches_keeps:
  assumes law: "lawful exec E" and o: "optimizable (code_method m code)" and d: "distinct (map fst code)"
  shows "\<exists>code'. internal_deleteUnusefulBranches m code = Some code' \<and> keeps exec E m code code' \<and>
    code' = nths code (- {i. i < length code \<and> useless_branch (code_method m code) i})"
  unfolding internal_deleteUnusefulBranches_def
proof (rule where_keeps [OF law o d])
  let ?m = "code_method m code"
  note p = optimizableD(1) [OF o]
  show "\<not> useless_branch ?m (length code - 1)"
    using plainD(6) [OF p] optimizableD(4) [OF o] useless_branch_type(2) [of ?m "length code - 1"] by auto
  show "\<not> useless_branch ?m q" if "i < length code" "Jump \<in> controls (type_at ?m i)" "goto ?m i Jump = Some q" for i q
    using jump_to_label [OF p _ that(2,3)] that(1) useless_branch_type(1) [of ?m q] by auto
  fix i assume i: "i < length code" and u: "useless_branch ?m i"
  let ?inst = "ir_instr_get_by_pos ?m i"
  note t = useless_branch_type(1) [OF u] and target = useless_branch_target [OF o _ u]
  have none: "defined_vars ?inst = {}" using jump_ok_defines [OF optimizableD(2) [OF o]] i t by auto
  show "transparent exec E ?m {i. i < length code \<and> useless_branch ?m i} (\<lambda>_. UNIV) i"
    unfolding transparent_def
  proof (intro conjI allI impI)
    fix s w x w' c j assume x: "exec ?inst s w x w' c" and c: "c \<in> controls (type_at ?m i)" "goto ?m i c = Some j"
    show "w' = w" using lawfulD(5) [OF law t x] .
    have "j = i + 1" using target [OF _ c] i by simp
    then show "new_position {i. i < length code \<and> useless_branch ?m i} j = new_position {i. i < length code \<and> useless_branch ?m i} i"
      using i u by (simp add: new_position_Suc)
  next
    fix s w
    obtain x w' c where c: "exec ?inst s w x w' c" "c \<in> controls (type_at ?m i)" using lawfulD(4) [OF law t] by blast
    obtain j where j: "goto ?m i c = Some j"
      using c(2) t optimizableD(3) [OF o, of i] i by (cases c) (auto simp: goto_def [of _ _ Fall] goto_def [of _ _ Leave])
    then show "\<exists>x w' c j. exec ?inst s w x w' c \<and> c \<in> controls (type_at ?m i) \<and> goto ?m i c = Some j \<and> i < j"
      using c target [OF _ c(2) j] i by auto
  qed (simp_all add: none assign_def)
qed simp

lemma label_get_signed: "ir_instr_label_get m (signed_take_bit 31 v) = ir_instr_label_get m v"
  by (simp add: ir_instr_label_get_def ir_instr_label_like_get_def take_bit_signed_take_bit)

lemma jump_label_named:
  assumes m: "optimizable m" and i: "i < ir_instr_count m" and j: "Jump \<in> controls (type_at m i)" and g: "goto m i Jump = Some p"
  shows "label_named m p"
proof -
  let ?inst = "ir_instr_get_by_pos m i" and ?l = "label_operand (ir_instr_get_by_pos m i)"
  have t: "p < ir_instr_count m" "type_at m p = IRLABEL" "par1v m p = ?l"
    using jump_target [OF optimizableD(1) [OF m] i j] g by auto
  then have less: "?l < 0xFFFFFFFF" using optimizableD(2) [OF m t(1)] by (simp add: jump_ok_def)
  have neg: "signed_take_bit 31 ?l \<noteq> -1"
  proof
    assume "signed_take_bit 31 ?l = -1"
    moreover have "take_bit 32 (signed_take_bit 31 ?l) = take_bit 32 ?l" by (simp add: take_bit_signed_take_bit)
    ultimately have "take_bit 32 ?l = take_bit 32 (- 1)" by simp
    moreover have "take_bit 32 ?l = ?l"
      using plainD(3,4) [OF optimizableD(1) [OF m] i] j by (auto simp: small_value_def label_operand_def controls_def split: if_splits)
    ultimately show False using less by (simp add: mask_eq_exp_minus_1)
  qed
  have ok: "jump_ok ?inst" using optimizableD(2) [OF m i] .
  have type: "inst_type ?inst = IRBRANCH \<or> inst_type ?inst \<in> {IRBRANCHIF, IRBRANCHIFNOT}" using j by (simp add: controls_def split: if_splits)
  then have "\<exists>item\<in>set (ir_instr_pars ?inst). item_type item = IRLABELITEM \<and> val item = ?l"
  proof
    assume "inst_type ?inst = IRBRANCH"
    then show ?thesis using ok by (auto simp: jump_ok_def label_operand_def ir_instr_pars_def ir_instr_pars_count_get_def)
  next
    assume "inst_type ?inst \<in> {IRBRANCHIF, IRBRANCHIFNOT}"
    then have "item_type (param_1 ?inst) \<noteq> NOPARAM" "item_type (param_2 ?inst) = IRLABELITEM" "?l = val (param_2 ?inst)"
      using ok by (auto simp: jump_ok_def label_operand_def)
    then show ?thesis by (auto simp: ir_instr_pars_def ir_instr_pars_count_get_def)
  qed
  then obtain item where "item \<in> set (ir_instr_pars ?inst)" "item_type item = IRLABELITEM" "val item = ?l" by blast
  then have "signed_take_bit 31 ?l \<in> set (named_labels ?inst)"
    using type neg by (auto simp: named_labels_def image_iff intro!: bexI [of _ item])
  moreover have "ir_instr_label_get m (signed_take_bit 31 ?l) = Some p" using g by (simp add: label_get_signed goto_def)
  ultimately have "list_ex (\<lambda>l. ir_instr_label_get m l = Some p) (named_labels ?inst)" by (auto simp: list_ex_iff)
  then show ?thesis using i unfolding label_named_def ex_instruction by blast
qed

lemma deleteUnusefulLabels_keeps:
  assumes law: "lawful exec E" and o: "optimizable (code_method m code)" and d: "distinct (map fst code)"
  shows "\<exists>code'. internal_deleteUnusefulLabels m code = Some code' \<and> keeps exec E m code code' \<and>
    code' = nths code (- {i. i < length code \<and> type_at (code_method m code) i = IRLABEL \<and> \<not> label_named (code_method m code) i})"
  unfolding internal_deleteUnusefulLabels_def Let_def
proof (rule where_keeps [OF law o d])
  let ?m = "code_method m code"
  show "\<not> (type_at ?m (length code - 1) = IRLABEL \<and> \<not> label_named ?m (length code - 1))"
    using optimizableD(5) [OF o] by (auto simp: final_types_def)
  show "\<not> (type_at ?m q = IRLABEL \<and> \<not> label_named ?m q)"
    if "i < length code" "Jump \<in> controls (type_at ?m i)" "goto ?m i Jump = Some q" for i q
    using jump_label_named [OF o _ that(2,3)] that(1) by auto
  fix i assume i: "i < length code" and u: "type_at ?m i = IRLABEL \<and> \<not> label_named ?m i"
  then have r: "removable E (ir_instr_get_by_pos ?m i)"
    by (simp add: removable_def internal_hasSideEffect_def mayInstructionOfTypeThrowException_def)
  have none: "defined_vars (ir_instr_get_by_pos ?m i) = {}" using jump_ok_defines [OF optimizableD(2) [OF o]] i u by auto
  show "transparent exec E ?m {i. i < length code \<and> type_at ?m i = IRLABEL \<and> \<not> label_named ?m i} (\<lambda>_. UNIV) i"
    by (rule transparent_fall [OF _ _ controls_transparent [OF r]])
      (use i u lawfulD(2,3) [OF law r] none in \<open>auto simp: assign_def\<close>)
qed simp

lemma deleteUnusefulStores_keeps:
  assumes law: "lawful exec E" and o: "optimizable (code_method m code)" and d: "distinct (map fst code)"
  shows "\<exists>code'. internal_deleteUnusefulStores m code = Some code' \<and> keeps exec E m code code' \<and>
    code' = nths code (- {i. i < length code \<and> useless_store (snd (code ! i))})"
  unfolding internal_deleteUnusefulStores_def
proof (rule where_keeps [OF law o d])
  let ?m = "code_method m code"
  have get: "ir_instr_get_by_pos ?m i = snd (code ! i)" if "i < length code" for i using get_code_method [OF that] .
  have n: "length code - 1 < length code" using optimizableD(4) [OF o] by simp
  show "\<not> useless_store (snd (code ! (length code - 1)))"
    using optimizableD(5) [OF o] get [OF n] by (auto simp: final_types_def useless_store_def)
  show "\<not> useless_store (snd (code ! q))" if "i < length code" "Jump \<in> controls (type_at ?m i)" "goto ?m i Jump = Some q" for i q
    using jump_to_label [OF optimizableD(1) [OF o] _ that(2,3)] that(1) get [of q] by (auto simp: useless_store_def)
  fix i assume i: "i < length code" and u: "useless_store (snd (code ! i))"
  have u': "useless_store (ir_instr_get_by_pos ?m i)" using u get [OF i] by simp
  then have c: "controls (type_at ?m i) = {Fall}"
    by (simp add: useless_store_def controls_def mayInstructionOfTypeThrowException_def)
  show "transparent exec E ?m {i. i < length code \<and> useless_store (snd (code ! i))} (\<lambda>_. UNIV) i"
  proof (rule transparent_fall [OF _ _ c])
    show "\<exists>x. exec (ir_instr_get_by_pos ?m i) s w x w Fall" for s w by (rule lawfulD(6) [OF law u'])
    show "w' = w \<and> (\<forall>v\<in>UNIV - E. assign E (ir_instr_get_by_pos ?m i) x s v = s v)"
      if "exec (ir_instr_get_by_pos ?m i) s w x w' Fall" for s w x w'
      using lawfulD(7) [OF law u' that] by (auto simp: assign_def)
  qed (use i u in simp_all)
qed simp


section \<open>The merging of labels\<close>

definition retarget :: "64 word \<Rightarrow> 64 word \<Rightarrow> ir_instruction \<Rightarrow> ir_instruction" where
  "retarget a b inst = (if inst_type inst = IRLABEL then inst else IRMETHOD_substituteLabel inst a b)"

lemma substituteLabelInAllBranches_retarget:
  "IRMETHOD_substituteLabelInAllBranches m a b = m\<lparr>instructions := map (retarget a b) (instructions m)\<rparr>"
  by (simp add: IRMETHOD_substituteLabelInAllBranches_def retarget_def)

lemma subst_label_type [simp]: "item_type (subst_label a b item) = item_type item"
  by (simp add: subst_label_def)

lemma retarget_simps [simp]:
  "inst_type (retarget a b inst) = inst_type inst" "result (retarget a b inst) = result inst"
  "item_type (param_1 (retarget a b inst)) = item_type (param_1 inst)"
  "item_type (param_2 (retarget a b inst)) = item_type (param_2 inst)"
  "inst_type inst = IRLABEL \<Longrightarrow> retarget a b inst = inst"
  by (simp_all add: retarget_def IRMETHOD_substituteLabel_def change_call_pars_def change_pars_def Let_def)

lemma retarget_defined [simp]: "defined_vars (retarget a b inst) = defined_vars inst"
  by (simp add: defined_vars_def)

lemma retarget_jump_ok [simp]: "jump_ok (retarget a b inst) = jump_ok inst"
  by (cases "inst_type inst = IRLABEL") (simp_all add: jump_ok_def)

lemma retarget_operand:
  assumes "jump_ok inst"
  shows "inst_type inst = IRBRANCH \<Longrightarrow>
      val (param_1 (retarget a b inst)) = (if val (param_1 inst) = a then b else val (param_1 inst))"
    and "inst_type inst \<in> {IRBRANCHIF, IRBRANCHIFNOT} \<Longrightarrow>
      val (param_2 (retarget a b inst)) = (if val (param_2 inst) = a then b else val (param_2 inst))"
  using assms
  by (auto simp: jump_ok_def retarget_def IRMETHOD_substituteLabel_def change_call_pars_def change_pars_def Let_def
      subst_label_def ir_instr_pars_count_get_def)

definition retarget_all :: "64 word \<Rightarrow> 64 word \<Rightarrow> ir_method \<Rightarrow> ir_method" where
  "retarget_all a b m = m\<lparr>instructions := map (retarget a b) (instructions m)\<rparr>"

lemma retarget_all_simps [simp]:
  "ir_instr_count (retarget_all a b m) = ir_instr_count m"
  "i < ir_instr_count m \<Longrightarrow> ir_instr_get_by_pos (retarget_all a b m) i = retarget a b (ir_instr_get_by_pos m i)"
  by (simp_all add: retarget_all_def ir_instr_count_def ir_instr_get_by_pos_def)

lemma retarget_label_get [simp]: "ir_instr_label_get (retarget_all a b m) l = ir_instr_label_get m l"
proof -
  have "ir_instr_label_get (retarget_all a b m) l = Some i \<longleftrightarrow> ir_instr_label_get m l = Some i" for i
    unfolding ir_instr_label_get_def label_like_get_Some
    by auto
  then show ?thesis by (metis not_None_eq)
qed


lemma small_label: "v < 0xFFFFFFFF \<Longrightarrow> small_value v"
  by (simp add: small_value_def word_unat_eq_iff unsigned_take_bit_eq take_bit_nat_eq_self word_less_nat_alt)

text \<open>The labels at \<open>p\<close> and \<open>p + 1\<close>: jumps to the first go to the second.\<close>

lemma retarget_goto:
  assumes m: "optimizable m" and p: "p + 1 < ir_instr_count m" "type_at m p = IRLABEL" "type_at m (p + 1) = IRLABEL"
    and i: "i < ir_instr_count m" and c: "c \<in> controls (type_at m i)" and g: "goto m i c = Some j"
  shows "goto (retarget_all (par1v m p) (par1v m (p + 1)) m) i c = Some (if c = Jump \<and> j = p then p + 1 else j)"
proof (cases "c = Jump")
  case True
  let ?a = "par1v m p" and ?b = "par1v m (p + 1)" and ?inst = "ir_instr_get_by_pos m i"
  note pl = optimizableD(1) [OF m]
  have J: "Jump \<in> controls (type_at m i)" using True c by simp
  have t: "j < ir_instr_count m" "type_at m j = IRLABEL" "par1v m j = label_operand ?inst"
    using jump_target [OF pl i J, of j] g True by simp_all
  have op: "label_operand (retarget ?a ?b ?inst) = (if label_operand ?inst = ?a then ?b else label_operand ?inst)"
    using retarget_operand [OF optimizableD(2) [OF m i], of ?a ?b] J by (auto simp: label_operand_def controls_def split: if_splits)
  have "small_value ?b" using optimizableD(2) [OF m p(1)] p(3) by (simp add: jump_ok_def small_label)
  then have b: "ir_instr_label_get m ?b = Some (p + 1)" using label_get_plain [OF pl] p by blast
  have jp: "label_operand ?inst = ?a \<longleftrightarrow> j = p" using plainD(5) [OF pl t(1) _ t(2) p(2)] t(3) p(1) by auto
  show ?thesis using g True op b jp i by (auto simp: goto_def)
qed (use g in \<open>auto simp: goto_def split: control.splits\<close>)

lemma retarget_optimizable:
  assumes m: "optimizable m" and p: "p + 1 < ir_instr_count m" "type_at m p = IRLABEL" "type_at m (p + 1) = IRLABEL"
  shows "optimizable (retarget_all (par1v m p) (par1v m (p + 1)) m)"
proof -
  let ?a = "par1v m p" and ?b = "par1v m (p + 1)"
  let ?m = "retarget_all ?a ?b m"
  note pl = optimizableD(1) [OF m]
  have small: "small_value ?b" using optimizableD(2) [OF m p(1)] p(3) by (simp add: jump_ok_def small_label)
  have labels: "map (\<lambda>i. val (param_1 i)) (filter (\<lambda>i. inst_type i = IRLABEL) (instructions ?m)) =
      map (\<lambda>i. val (param_1 i)) (filter (\<lambda>i. inst_type i = IRLABEL) (instructions m))"
    by (simp add: retarget_all_def filter_map comp_def cong: filter_cong)
  have jo: "\<forall>inst\<in>set (instructions m). jump_ok inst" using m by (simp add: optimizable_def list_all_iff)
  have "plain_method ?m"
    using pl small retarget_operand jo
    unfolding plain_method_def labels
    by (auto simp: retarget_all_def list_all_iff last_map)
  moreover have "goto ?m i Jump \<noteq> None" if "i < ir_instr_count ?m" "Jump \<in> controls (type_at ?m i)" for i
    using optimizableD(3) [OF m, of i] retarget_goto [OF m p, of i Jump] that by fastforce
  ultimately show ?thesis
    using m plainD(1) [OF pl] by (auto simp: optimizable_def retarget_all_def list_all_iff last_map ir_instr_count_def)
qed


definition label_sim :: "nat \<Rightarrow> nat \<times> 'v variables \<times> 'w \<Rightarrow> nat \<times> 'v variables \<times> 'w \<Rightarrow> bool" where
  "label_sim p = (\<lambda>(i, s, w) (i', s', w'). s' = s \<and> w' = w \<and> (i' = i \<or> i = p \<and> i' = p + 1))"

lemma label_step:
  assumes law: "lawful exec E" and m: "optimizable m" and p: "p < ir_instr_count m" "type_at m p = IRLABEL"
  shows "step exec E m (p, s, w) b \<longleftrightarrow> b = (p + 1, s, w)"
proof -
  let ?inst = "ir_instr_get_by_pos m p"
  have r: "removable E ?inst" using p by (simp add: removable_def internal_hasSideEffect_def mayInstructionOfTypeThrowException_def)
  have c: "controls (type_at m p) = {Fall}" using controls_transparent [OF r] .
  have "defined_vars ?inst = {}" using jump_ok_defines [OF optimizableD(2) [OF m p(1)]] p(2) by simp
  then have a: "assign E ?inst x s = s" for x by (simp add: assign_def)
  show ?thesis
  proof
    assume "step exec E m (p, s, w) b"
    then show "b = (p + 1, s, w)" by (elim step_cases) (use c a lawfulD(3) [OF law r] in \<open>auto simp: goto_def\<close>)
  next
    obtain x where "exec ?inst s w x w Fall" using lawfulD(2) [OF law r] by blast
    then have "step exec E m (p, s, w) (p + 1, assign E ?inst x s, w)" by (rule stepI [OF p(1)]) (simp_all add: c goto_def)
    then show "step exec E m (p, s, w) b" if "b = (p + 1, s, w)" using a that by simp
  qed
qed

lemma retarget_step:
  assumes law: "lawful exec E" and m: "optimizable m" and p: "p + 1 < ir_instr_count m" "type_at m p = IRLABEL" "type_at m (p + 1) = IRLABEL"
  defines "m' \<equiv> retarget_all (par1v m p) (par1v m (p + 1)) m"
  shows "step exec E m (i, s, w) (j, t, u) \<Longrightarrow> \<exists>j'. step exec E m' (i, s, w) (j', t, u) \<and> (j' = j \<or> j = p \<and> j' = p + 1)"
    and "step exec E m' (i, s, w) (j', t, u) \<Longrightarrow> \<exists>j. step exec E m (i, s, w) (j, t, u) \<and> (j' = j \<or> j = p \<and> j' = p + 1)"
proof -
  have get: "ir_instr_get_by_pos m' i = retarget a b (ir_instr_get_by_pos m i)"
    if "i < ir_instr_count m" "a = par1v m p" "b = par1v m (p + 1)" for i a b using that by (simp add: m'_def)
  have ex: "exec (retarget a b inst) = exec inst" for a b inst using lawfulD(8) [OF law] by (simp add: retarget_def)
  have as: "assign E (retarget a b inst) x s = assign E inst x s" for a b inst x and s :: "nat \<Rightarrow> 'a" by (simp add: assign_def)
  note gt = retarget_goto [OF m p, folded m'_def]
  show "\<exists>j'. step exec E m' (i, s, w) (j', t, u) \<and> (j' = j \<or> j = p \<and> j' = p + 1)" if S: "step exec E m (i, s, w) (j, t, u)"
  proof -
    from S obtain x c where i: "i < ir_instr_count m" and c: "exec (ir_instr_get_by_pos m i) s w x u c" "c \<in> controls (type_at m i)"
      "goto m i c = Some j" "t = assign E (ir_instr_get_by_pos m i) x s" by (elim step_cases) auto
    have "step exec E m' (i, s, w) (if c = Jump \<and> j = p then p + 1 else j, assign E (ir_instr_get_by_pos m' i) x s, u)"
      by (rule stepI [where c = c]) (use i c get [OF i refl refl] gt [OF i c(2,3)] ex in \<open>simp_all add: m'_def\<close>)
    then show ?thesis using c(4) get [OF i refl refl] as by (auto split: if_splits)
  qed
  show "\<exists>j. step exec E m (i, s, w) (j, t, u) \<and> (j' = j \<or> j = p \<and> j' = p + 1)" if S: "step exec E m' (i, s, w) (j', t, u)"
  proof -
    from S obtain x c where i: "i < ir_instr_count m'" and c: "exec (ir_instr_get_by_pos m' i) s w x u c" "c \<in> controls (type_at m' i)"
      "goto m' i c = Some j'" "t = assign E (ir_instr_get_by_pos m' i) x s" by (elim step_cases) auto
    then have i: "i < ir_instr_count m" by (simp add: m'_def)
    have c': "c \<in> controls (type_at m i)" "exec (ir_instr_get_by_pos m i) s w x u c" using c get [OF i refl refl] ex by simp_all
    obtain j where j: "goto m i c = Some j" using optimizableD(3) [OF m i] c'(1) by (cases c) (auto simp: goto_def [of _ _ Fall] goto_def [of _ _ Leave])
    have "j' = (if c = Jump \<and> j = p then p + 1 else j)" using gt [OF i c'(1) j] c(3) by simp
    moreover have "step exec E m (i, s, w) (j, assign E (ir_instr_get_by_pos m i) x s, u)" by (rule stepI [where c = c, OF i]) (use c' j in simp_all)
    ultimately show ?thesis using c(4) get [OF i refl refl] as by (auto split: if_splits)
  qed
qed

lemma retarget_behaviour:
  fixes exec :: "('v, 'w) meaning"
  assumes law: "lawful exec E" and m: "optimizable m" and p: "p + 1 < ir_instr_count m" "type_at m p = IRLABEL" "type_at m (p + 1) = IRLABEL"
  shows "behaviour exec E (retarget_all (par1v m p) (par1v m (p + 1)) m) = behaviour exec E m"
proof -
  let ?m = "retarget_all (par1v m p) (par1v m (p + 1)) m"
  note rs = retarget_step [OF law m p]
  have o: "optimizable ?m" by (rule retarget_optimizable [OF m p])
  have p': "p < ir_instr_count m" "p < ir_instr_count ?m" "type_at ?m p = IRLABEL" using p by simp_all
  note ls = label_step [OF law m p'(1) p(2)] and ls' = label_step [OF law o p'(2,3)]
  have f: "\<exists>b'. (step exec E ?m)\<^sup>*\<^sup>* a' b' \<and> label_sim p b b'" if S: "step exec E m a b" "label_sim p a a'" for a b a'
  proof -
    obtain i s w i' where a: "a = (i, s, w)" "a' = (i', s, w)" "i' = i \<or> i = p \<and> i' = p + 1"
      using S(2) by (cases a; cases a') (auto simp: label_sim_def)
    obtain j t u where b: "b = (j, t, u)" by (cases b)
    show ?thesis
    proof (cases "i' = i")
      case True
      obtain j' where "step exec E ?m (i, s, w) (j', t, u)" "j' = j \<or> j = p \<and> j' = p + 1" using rs(1) S(1) a b by blast
      then show ?thesis using True a b by (auto simp: label_sim_def intro!: exI [of _ "(j', t, u)"])
    next
      case False
      then have "b = a'" using a S(1) ls by auto
      then show ?thesis by (auto simp: label_sim_def split: prod.split intro!: exI [of _ a'])
    qed
  qed
  have g: "\<exists>b'. (step exec E m)\<^sup>*\<^sup>* a b' \<and> label_sim p b' b" if S: "step exec E ?m a' b" "label_sim p a a'" for a b a'
  proof -
    obtain i s w i' where a: "a = (i, s, w)" "a' = (i', s, w)" "i' = i \<or> i = p \<and> i' = p + 1"
      using S(2) by (cases a; cases a') (auto simp: label_sim_def)
    obtain j' t u where b: "b = (j', t, u)" by (cases b)
    obtain j where j: "step exec E m (i', s, w) (j, t, u)" "j' = j \<or> j = p \<and> j' = p + 1" using rs(2) S(1) a b by blast
    have "(step exec E m)\<^sup>*\<^sup>* a (i', s, w)" using a ls by auto
    then have "(step exec E m)\<^sup>*\<^sup>* a (j, t, u)" using j(1) by (rule rtranclp.rtrancl_into_rtrancl)
    then show ?thesis using j(2) b by (auto simp: label_sim_def intro!: exI [of _ "(j, t, u)"])
  qed
  have start: "label_sim p (0, s, w) (0, s, w)" for s :: "'v variables" and w :: 'w by (simp add: label_sim_def)
  have world: "snd (snd a) = snd (snd b)" if "label_sim p a b" for a b :: "nat \<times> 'v variables \<times> 'w"
    using that by (auto simp: label_sim_def)
  have ends: "\<exists>s'. (step exec E ?m)\<^sup>*\<^sup>* a' (ir_instr_count ?m, s', w)" if "label_sim p (ir_instr_count m, s, w) a'"
    for a' and s :: "'v variables" and w :: 'w using that p(1) by (cases a') (auto simp: label_sim_def)
  have ends': "\<exists>s'. (step exec E m)\<^sup>*\<^sup>* a' (ir_instr_count m, s', w)" if "label_sim p a' (ir_instr_count ?m, s, w)"
    for a' and s :: "'v variables" and w :: 'w using that p(1) by (cases a') (auto simp: label_sim_def)
  show ?thesis
  proof (intro ext prod_eqI subset_antisym)
    fix s w
    show "fst (behaviour exec E m s w) \<subseteq> fst (behaviour exec E ?m s w)" "snd (behaviour exec E m s w) \<subseteq> snd (behaviour exec E ?m s w)"
      using behaviour_subset [where sim = "label_sim p" and ma = m and mb = ?m and exec = exec and E = E, OF start f world ends] by auto
    show "fst (behaviour exec E ?m s w) \<subseteq> fst (behaviour exec E m s w)" "snd (behaviour exec E ?m s w) \<subseteq> snd (behaviour exec E m s w)"
      using behaviour_subset [where sim = "\<lambda>a b. label_sim p b a" and ma = ?m and mb = m and exec = exec and E = E, OF start g world [symmetric] ends'] by auto
  qed
qed


lemma merge_label_keeps:
  assumes law: "lawful exec E" and m: "optimizable m" and p: "p < ir_instr_count m" "type_at m p = IRLABEL"
  shows "optimizable (merge_label p m)" "behaviour exec E (merge_label p m) = behaviour exec E m"
    "merge_label p m = m\<lparr>instructions := instructions (merge_label p m)\<rparr>" "ir_instr_count (merge_label p m) = ir_instr_count m"
    "i < ir_instr_count m \<Longrightarrow> type_at (merge_label p m) i = type_at m i"
proof -
  have "p \<noteq> ir_instr_count m - 1" using optimizableD(5) [OF m] p by (auto simp: final_types_def)
  then have n: "ir_instr_get_next m (Some p) = Some (p + 1)" "p + 1 < ir_instr_count m"
    using p by (auto simp: ir_instr_get_next_def ir_instr_get_last_def)
  have e: "merge_label p m = (if type_at m (p + 1) = IRLABEL then retarget_all (par1v m p) (par1v m (p + 1)) m else m)"
    by (simp add: merge_label_def n substituteLabelInAllBranches_retarget retarget_all_def)
  show "optimizable (merge_label p m)" using retarget_optimizable [OF m n(2) p(2)] m by (simp add: e)
  show "behaviour exec E (merge_label p m) = behaviour exec E m" using retarget_behaviour [OF law m n(2) p(2)] by (simp add: e)
  show "merge_label p m = m\<lparr>instructions := instructions (merge_label p m)\<rparr>" by (simp add: e) (simp add: retarget_all_def)
  show "ir_instr_count (merge_label p m) = ir_instr_count m"
    "i < ir_instr_count m \<Longrightarrow> type_at (merge_label p m) i = type_at m i" by (simp_all add: e)
qed

lemma merge_labels_keeps:
  assumes law: "lawful exec E"
  shows "optimizable m \<Longrightarrow> \<forall>p\<in>set ps. p < ir_instr_count m \<and> type_at m p = IRLABEL \<Longrightarrow>
    optimizable (fold merge_label ps m) \<and> behaviour exec E (fold merge_label ps m) = behaviour exec E m \<and>
    fold merge_label ps m = m\<lparr>instructions := instructions (fold merge_label ps m)\<rparr> \<and>
    ir_instr_count (fold merge_label ps m) = ir_instr_count m"
proof (induction ps arbitrary: m)
  case (Cons p ps)
  let ?m = "merge_label p m"
  have p: "p < ir_instr_count m" "type_at m p = IRLABEL" using Cons.prems(2) by simp_all
  note k = merge_label_keeps [OF law Cons.prems(1) p]
  have "\<forall>q\<in>set ps. q < ir_instr_count ?m \<and> type_at ?m q = IRLABEL" using Cons.prems(2) k(4,5) by simp
  from Cons.IH [OF k(1) this] have ih: "optimizable (fold merge_label ps ?m)" "behaviour exec E (fold merge_label ps ?m) = behaviour exec E ?m"
    "fold merge_label ps ?m = ?m\<lparr>instructions := instructions (fold merge_label ps ?m)\<rparr>"
    "ir_instr_count (fold merge_label ps ?m) = ir_instr_count ?m" by blast+
  have "fold merge_label ps ?m = m\<lparr>instructions := instructions (fold merge_label ps ?m)\<rparr>"
    by (subst ih(3), subst k(3)) simp
  then show ?case using ih(1,2,4) k(2,4) by simp
qed simp

lemma mergeLabels_keeps:
  assumes law: "lawful exec E" and o: "optimizable (code_method m code)" and d: "distinct (map fst code)"
  shows "keeps exec E m code (internal_mergeLabels m code)" "map fst (internal_mergeLabels m code) = map fst code"
proof -
  let ?m = "code_method m code"
  let ?f = "fold merge_label (filter (\<lambda>i. type_at ?m i = IRLABEL) [0..<ir_instr_count ?m]) ?m"
  have k: "optimizable ?f" "behaviour exec E ?f = behaviour exec E ?m" "?f = ?m\<lparr>instructions := instructions ?f\<rparr>"
    "ir_instr_count ?f = ir_instr_count ?m"
    using merge_labels_keeps [OF law o, of "filter (\<lambda>i. type_at ?m i = IRLABEL) [0..<ir_instr_count ?m]"] by auto
  have len: "length (instructions ?f) = length code" using k(4) unfolding count_code_method by (simp add: ir_instr_count_def)
  have e: "internal_mergeLabels m code = zip (map fst code) (instructions ?f)" by (simp add: internal_mergeLabels_def Let_def)
  show f: "map fst (internal_mergeLabels m code) = map fst code" using len by (simp add: e)
  have "code_method m (internal_mergeLabels m code) = m\<lparr>instructions := instructions ?f\<rparr>" using len by (simp add: e code_method_def)
  also have "\<dots> = ?f" by (subst (2) k(3)) (simp add: code_method_def)
  finally have "code_method m (internal_mergeLabels m code) = ?f" .
  with k d f show "keeps exec E m code (internal_mergeLabels m code)" by (simp add: keeps_def)
qed

end
