(* ===== verification/DeadCodeCorrect.thy ===== *)
theory DeadCodeCorrect
  imports DeadCodeSteps
begin

text \<open>
  The elimination of unreachable code and of dead code as a whole keep the behaviour of a method.
\<close>

section \<open>The marking of the reachable instructions\<close>

abbreviation mark_one :: "nat \<Rightarrow> blocks \<times> nat list \<Rightarrow> blocks \<times> nat list" where
  "mark_one j x \<equiv> (if internal_isInstructionMarked (fst x) j then x else (internal_markInstruction (fst x) j, j # snd x))"

lemma isInstructionMarked_iff: "i < 64 * length b \<Longrightarrow> internal_isInstructionMarked b i \<longleftrightarrow> i \<in> blk_set b"
  by (simp add: internal_isInstructionMarked_def and_mask_of_neq_0 mem_blk_set trigger_of_less_iff)

lemma markInstruction_set:
  "i < 64 * length b \<Longrightarrow> blk_set (internal_markInstruction b i) = insert i (blk_set b)"
  "length (internal_markInstruction b i) = length b"
  using blk_set_add [of i b] by (simp_all add: internal_markInstruction_def blk_add_def trigger_of_less_iff)

lemma mark_successors_eq:
  "enumerates (succ_step m i) prev js \<Longrightarrow>
   mark_successors m i (succ_step m i prev) x = Some (fold mark_one (takeWhile (\<lambda>j. j \<noteq> ir_instr_count m) js) x)"
proof (induction js arbitrary: prev x)
  case Nil
  then show ?case by (subst mark_successors.simps) simp
next
  case (Cons j js)
  then show ?case
    by (subst mark_successors.simps) (simp add: getSuccessorInstruction_eq exitNode_def)
qed

lemma fold_mark:
  assumes "set js \<subseteq> {..<64 * length b}"
  shows "blk_set (fst (fold mark_one js (b, wl))) = blk_set b \<union> set js \<and> length (fst (fold mark_one js (b, wl))) = length b \<and>
    set (snd (fold mark_one js (b, wl))) = set wl \<union> (set js - blk_set b) \<and>
    card (blk_set (fst (fold mark_one js (b, wl)))) + length wl = card (blk_set b) + length (snd (fold mark_one js (b, wl)))"
  using assms
proof (induction js arbitrary: b wl)
  case (Cons j js)
  show ?case
  proof (cases "j \<in> blk_set b")
    case True
    then show ?thesis using Cons.IH [of b wl] Cons.prems by (auto simp: isInstructionMarked_iff)
  next
    case False
    let ?b = "internal_markInstruction b j"
    have "set js \<subseteq> {..<64 * length ?b}" using Cons.prems by (simp add: markInstruction_set)
    note ih = Cons.IH [OF this, of "j # wl"]
    have c: "card (blk_set ?b) = Suc (card (blk_set b))" using False Cons.prems by (simp add: markInstruction_set)
    show ?thesis using ih c False Cons.prems by (auto simp: isInstructionMarked_iff markInstruction_set)
  qed
qed simp

text \<open>The edges of the control flow graph, and the positions they reach.\<close>

definition cfg_edge :: "ir_method \<Rightarrow> nat \<Rightarrow> nat \<Rightarrow> bool" where
  "cfg_edge m i j \<longleftrightarrow> i < ir_instr_count m \<and> j < ir_instr_count m \<and> j \<in> set (successors m i)"

lemma successors_shape:
  assumes m: "plain_method m" and i: "i < ir_instr_count m"
  shows "(\<exists>j. successors m i = [j]) \<or> (\<exists>l. successors m i = option_list l) \<or>
    i + 1 \<noteq> ir_instr_count m \<and> (\<exists>l. successors m i = (i + 1) # option_list l)"
proof -
  have t: "type_at m i \<notin> handler_types" by (rule plainD(2) [OF m i])
  then have t': "type_at m i \<noteq> IRCALLFINALLY" "type_at m i \<noteq> IRCALLFILTER" "type_at m i \<noteq> IRENDFINALLY" "type_at m i \<noteq> IRENDFILTER"
    "type_at m i \<noteq> IRBRANCHIFPCNOTINRANGE" "type_at m i \<noteq> IREXITNODE" by (auto simp: handler_types_def)
  have one: "\<exists>l. [ir_instr_count m] = option_list l" by (rule exI [of _ "Some (ir_instr_count m)"]) (simp add: option_list_def)
  consider (ret) "type_at m i \<in> {IRRET, IRTHROW}" | (branch) "type_at m i = IRBRANCH" | (cond) "type_at m i \<in> {IRBRANCHIF, IRBRANCHIFNOT}"
    | (other) "type_at m i \<notin> {IRRET, IRTHROW, IRBRANCH, IRBRANCHIF, IRBRANCHIFNOT}" by blast
  then show ?thesis
  proof cases
    case ret
    then have "successors m i = [ir_instr_count m]" using plain_no_catcher [OF m] by (auto simp: successors_def)
    then show ?thesis by blast
  next
    case branch
    then show ?thesis by (auto simp: successors_def)
  next
    case cond
    then have "successors m i = (if i + 1 = ir_instr_count m \<or> ir_instr_label_get m (par2v m i) = Some (i + 1) then [i + 1]
      else (i + 1) # option_list (ir_instr_label_get m (par2v m i)))" by (auto simp: successors_def)
    then show ?thesis by (cases "i + 1 = ir_instr_count m") (auto split: if_splits)
  next
    case other
    then have "successors m i = (if mayInstructionOfTypeThrowException (type_at m i) \<and> i + 1 \<noteq> ir_instr_count m
      then [i + 1, ir_instr_count m] else [i + 1])"
      using t' plain_no_catcher [OF m] by (simp add: successors_def Let_def)
    then show ?thesis using one by (auto split: if_splits)
  qed
qed

lemma takeWhile_successors:
  assumes m: "plain_method m" and i: "i < ir_instr_count m"
  shows "set (takeWhile (\<lambda>j. j \<noteq> ir_instr_count m) (successors m i)) = {j. cfg_edge m i j}"
proof -
  let ?n = "ir_instr_count m"
  have le: "j \<in> set (successors m i) \<Longrightarrow> j \<le> ?n" for j using successors_le [of i m j] i by simp
  have "set (takeWhile (\<lambda>j. j \<noteq> ?n) (successors m i)) = set (successors m i) - {?n}"
    using successors_shape [OF m i] by (elim disjE exE conjE) (auto simp: option_list_def split: option.split)
  then show ?thesis using le i unfolding cfg_edge_def by (auto simp: order_le_less)
qed


text \<open>The marking ends, with exactly the positions reachable from the first one.\<close>

definition mark_inv :: "ir_method \<Rightarrow> blocks \<times> nat list \<Rightarrow> bool" where
  "mark_inv m x \<longleftrightarrow> ir_instr_count m \<le> 64 * length (fst x) \<and> 0 \<in> blk_set (fst x) \<and>
     blk_set (fst x) \<subseteq> {i. i < ir_instr_count m \<and> (cfg_edge m)\<^sup>*\<^sup>* 0 i} \<and> set (snd x) \<subseteq> blk_set (fst x) \<and>
     (\<forall>i\<in>blk_set (fst x) - set (snd x). \<forall>j. cfg_edge m i j \<longrightarrow> j \<in> blk_set (fst x))"

lemma mark_invD:
  assumes "mark_inv m (b, wl)"
  shows "ir_instr_count m \<le> 64 * length b" "0 \<in> blk_set b" "blk_set b \<subseteq> {i. i < ir_instr_count m \<and> (cfg_edge m)\<^sup>*\<^sup>* 0 i}"
    "set wl \<subseteq> blk_set b" "i \<in> blk_set b \<Longrightarrow> i \<notin> set wl \<Longrightarrow> cfg_edge m i j \<Longrightarrow> j \<in> blk_set b"
  using assms unfolding mark_inv_def fst_conv snd_conv by blast+

lemma mark_inv_step:
  assumes m: "plain_method m" and inv: "mark_inv m (b, i # wl)"
  defines "js \<equiv> takeWhile (\<lambda>j. j \<noteq> ir_instr_count m) (successors m i)"
  defines "y \<equiv> fold mark_one js (b, wl)"
  shows "mark_inv m y" "length (fst y) = length b"
    "ir_instr_count m - card (blk_set (fst y)) + length (snd y) < ir_instr_count m - card (blk_set b) + length (i # wl)"
    "mark_reachable m (b, i # wl) = mark_reachable m y"
proof -
  let ?n = "ir_instr_count m" and ?R = "{i. i < ir_instr_count m \<and> (cfg_edge m)\<^sup>*\<^sup>* 0 i}"
  note inv = mark_invD [OF inv]
  have "i \<in> blk_set b" using inv(4) by simp
  then have i: "i < ?n" "(cfg_edge m)\<^sup>*\<^sup>* 0 i" using subsetD [OF inv(3)] by simp_all
  have js: "set js = {j. cfg_edge m i j}" unfolding js_def by (rule takeWhile_successors [OF m i(1)])
  have "set js \<subseteq> {..<?n}" unfolding js by (simp add: cfg_edge_def subset_iff)
  then have jn: "set js \<subseteq> {..<64 * length b}" using inv(1) by (meson lessThan_subset_iff subset_trans)
  have y: "blk_set (fst y) = blk_set b \<union> set js" "length (fst y) = length b" "set (snd y) = set wl \<union> (set js - blk_set b)"
    "card (blk_set (fst y)) + length wl = card (blk_set b) + length (snd y)"
    using fold_mark [OF jn, of wl, folded y_def] by blast+
  show "length (fst y) = length b" by (rule y(2))
  have "set js \<subseteq> ?R"
  proof
    fix j assume "j \<in> set js"
    then have "cfg_edge m i j" using js by blast
    then show "j \<in> ?R" using rtranclp.rtrancl_into_rtrancl [OF i(2)] by (simp add: cfg_edge_def)
  qed
  then have R: "blk_set (fst y) \<subseteq> ?R" using inv(3) y(1) by simp
  have "card (blk_set (fst y)) \<le> card {..<?n}" using R by (intro card_mono) auto
  then show "?n - card (blk_set (fst y)) + length (snd y) < ?n - card (blk_set b) + length (i # wl)" using y(4) by simp
  have "enumerates (succ_step m i) None (successors m i)" using enumerates_successors i(1) by simp
  note ms = mark_successors_eq [OF this, of "(b, wl)", folded js_def, folded y_def]
  show "mark_reachable m (b, i # wl) = mark_reachable m y"
    by (subst mark_reachable.simps) (simp add: getSuccessorInstruction_eq ms)
  show "mark_inv m y"
    unfolding mark_inv_def
  proof (intro conjI ballI allI impI)
    show "j \<in> blk_set (fst y)" if "k \<in> blk_set (fst y) - set (snd y)" "cfg_edge m k j" for k j
    proof (cases "k = i")
      case True
      then show ?thesis using that(2) y(1) js by blast
    next
      case False
      then have "k \<in> blk_set b" "k \<notin> set (i # wl)" using that(1) y(1,3) by auto
      then show ?thesis using inv(5) that(2) y(1) by blast
    qed
    show "?n \<le> 64 * length (fst y)" using inv(1) y(2) by simp
    show "0 \<in> blk_set (fst y)" using inv(2) y(1) by simp
    show "set (snd y) \<subseteq> blk_set (fst y)" using y(1,3) inv(4) by auto
  qed (rule R)
qed

lemma mark_reachable_result:
  assumes m: "plain_method m"
  shows "mark_inv m (b, wl) \<Longrightarrow> \<exists>b'. mark_reachable m (b, wl) = Some b' \<and> length b' = length b \<and>
    blk_set b' = {i. i < ir_instr_count m \<and> (cfg_edge m)\<^sup>*\<^sup>* 0 i}"
proof (induction "ir_instr_count m - card (blk_set b) + length wl" arbitrary: b wl rule: less_induct)
  case less
  show ?case
  proof (cases wl)
    case Nil
    note inv = mark_invD [OF less.prems]
    have "i \<in> blk_set b" if "(cfg_edge m)\<^sup>*\<^sup>* 0 i" for i
      using that
    proof induction
      case (step i j)
      then show ?case using inv(5) [of i j] Nil by simp
    qed (rule inv(2))
    then have "blk_set b = {i. i < ir_instr_count m \<and> (cfg_edge m)\<^sup>*\<^sup>* 0 i}" using inv(3) by auto
    moreover have "mark_reachable m (b, wl) = Some b" by (subst mark_reachable.simps) (simp add: Nil)
    ultimately show ?thesis by simp
  next
    case (Cons i wl')
    note st = mark_inv_step [OF m less.prems [unfolded Cons]]
    obtain b1 wl1 where y: "fold mark_one (takeWhile (\<lambda>j. j \<noteq> ir_instr_count m) (successors m i)) (b, wl') = (b1, wl1)" by fastforce
    show ?thesis using less.hyps [of b1 wl1] st unfolding y Cons by simp
  qed
qed

section \<open>The deletion of unreachable code\<close>

definition reachable :: "ir_method \<Rightarrow> nat \<Rightarrow> bool" where
  "reachable m i \<longleftrightarrow> (cfg_edge m)\<^sup>*\<^sup>* 0 i"

lemma handle_position_Some:
  "h \<in> fst ` set code \<Longrightarrow> \<exists>pos. handle_position h code = Some pos \<and> pos < length code"
proof (cases "handle_position h code")
  case None
  assume "h \<in> fst ` set code"
  then obtain i where "i < length code" "fst (code ! i) = h" by (auto simp: in_set_conv_nth)
  then show ?thesis using None by (auto simp: handle_position_def find_from_None)
qed (auto simp: handle_position_def find_from_upt)

lemma delete_unreachable_eq:
  assumes "\<forall>p\<in>set code. inst_type (snd p) \<noteq> IRENDFINALLY" and "distinct hs" and "set hs \<subseteq> fst ` set code"
    and "k \<in> fst ` set code" "k \<notin> set hs" and "distinct (map fst code)"
  shows "delete_unreachable m hs code = delete_handles hs code"
  using assms
proof (induction hs arbitrary: code)
  case (Cons h hs)
  have "card {h, k} \<le> card (fst ` set code)" using Cons.prems(3,4) by (intro card_mono) auto
  then have "length code \<noteq> 1" using Cons.prems(4,5) card_image_le [of "set code" fst] card_length [of code] by auto
  moreover obtain pos where pos: "handle_position h code = Some pos" "pos < length code"
    using handle_position_Some [of h code] Cons.prems(3) by auto
  moreover have "inst_type (snd (code ! pos)) \<noteq> IRENDFINALLY" using Cons.prems(1) pos(2) by simp
  moreover have "h \<in> fst ` set code" using Cons.prems(3) by simp
  moreover have "delete_unreachable m hs (filter (\<lambda>p. fst p \<noteq> h) code) = delete_handles hs (filter (\<lambda>p. fst p \<noteq> h) code)"
  proof (rule Cons.IH)
    show "set hs \<subseteq> fst ` set (filter (\<lambda>p. fst p \<noteq> h) code)" "k \<in> fst ` set (filter (\<lambda>p. fst p \<noteq> h) code)"
      using Cons.prems by force+
    show "distinct (map fst (filter (\<lambda>p. fst p \<noteq> h) code))" using Cons.prems(6) by (rule distinct_map_filter)
  qed (use Cons.prems in auto)
  ultimately show ?case by (simp add: IRMETHOD_deleteInstruction_def)
qed simp


lemma reachable_step: "reachable m i \<Longrightarrow> cfg_edge m i j \<Longrightarrow> reachable m j"
  by (simp add: reachable_def)

lemma marked_reachable:
  assumes m: "plain_method m"
  shows "\<exists>b. mark_reachable m (internal_markInstruction (replicate (if ir_instr_count m mod 64 > 0 then ir_instr_count m div 64 + 1
      else ir_instr_count m div 64) 0) 0, [0]) = Some b \<and>
    (\<forall>i<ir_instr_count m. internal_isInstructionMarked b i \<longleftrightarrow> reachable m i)"
proof -
  let ?n = "ir_instr_count m"
  define len where "len = (if ?n mod 64 > 0 then ?n div 64 + 1 else ?n div 64)"
  let ?b = "internal_markInstruction (replicate len 0) 0"
  have n: "?n \<le> 64 * len"
    using div_mult_mod_eq [of ?n 64] mod_less_divisor [of 64 ?n] by (auto simp: len_def)
  then have n0: "0 < 64 * len" using plainD(1) [OF m] by linarith
  have b: "blk_set ?b = {0}" "length ?b = len" using markInstruction_set [where i = 0 and b = "replicate len 0"] n0 by (simp_all add: blk_set_replicate_0)
  have "mark_inv m (?b, [0])" unfolding mark_inv_def fst_conv snd_conv b using n plainD(1) [OF m] by simp
  from mark_reachable_result [OF m this] obtain b' where b': "mark_reachable m (?b, [0]) = Some b'" "length b' = len"
    "blk_set b' = {i. i < ?n \<and> (cfg_edge m)\<^sup>*\<^sup>* 0 i}" unfolding b(2) by blast
  have "internal_isInstructionMarked b' i \<longleftrightarrow> reachable m i" if "i < ?n" for i
    using isInstructionMarked_iff [of i b'] that n b'(2,3) by (simp add: reachable_def)
  then show ?thesis using b'(1) unfolding len_def by blast
qed

text \<open>Control never leaves the reachable positions, except to the exit node.\<close>

lemma reachable_goto:
  assumes m: "plain_method m" and i: "i < ir_instr_count m" "reachable m i" and c: "c \<in> controls (type_at m i)" "goto m i c = Some j"
  shows "reachable m j \<or> j = ir_instr_count m"
proof (cases "j = ir_instr_count m")
  case False
  have "j \<le> ir_instr_count m" using goto_le [OF i(1) c(2)] .
  then have "cfg_edge m i j" using False successors_controls [OF m i(1)] c i(1) by (auto simp: cfg_edge_def)
  then show ?thesis using reachable_step [OF i(2)] by blast
qed simp

lemma last_reachable:
  assumes m: "optimizable m"
  shows "\<exists>k<ir_instr_count m. reachable m k \<and> type_at m k \<in> final_types \<and> (\<forall>j. k < j \<longrightarrow> j < ir_instr_count m \<longrightarrow> \<not> reachable m j)"
proof -
  note p = optimizableD(1) [OF m]
  define k where "k = Max {j. j < ir_instr_count m \<and> reachable m j}"
  have fin: "finite {j. j < ir_instr_count m \<and> reachable m j}" by simp
  have "0 \<in> {j. j < ir_instr_count m \<and> reachable m j}" using optimizableD(4) [OF m] by (simp add: reachable_def)
  then have k: "k < ir_instr_count m" "reachable m k" using Max_in [OF fin] unfolding k_def by blast+
  have top: "\<not> reachable m j" if "k < j" "j < ir_instr_count m" for j
    using Max_ge [OF fin, of j] that unfolding k_def by (metis (mono_tags) mem_Collect_eq not_le)
  have "type_at m k \<in> final_types"
  proof (rule ccontr)
    assume f: "type_at m k \<notin> final_types"
    then have "Fall \<in> controls (type_at m k)" by (auto simp: final_types_def controls_def)
    then have "reachable m (k + 1) \<or> k + 1 = ir_instr_count m" using reachable_goto [OF p k] by (simp add: goto_def)
    moreover have "k \<noteq> ir_instr_count m - 1" using f optimizableD(5) [OF m] by auto
    ultimately show False using top [of "k + 1"] k(1) by simp
  qed
  then show ?thesis using k top by blast
qed

lemma deleteCodeUnreachable_keeps:
  assumes law: "lawful exec E" and o: "optimizable (code_method m code)" and d: "distinct (map fst code)"
  shows "\<exists>code'. internal_deleteCodeUnreachable m code = Some code' \<and> keeps exec E m code code' \<and>
    code' = nths code (- {i. i < length code \<and> \<not> reachable (code_method m code) i})"
proof -
  let ?m = "code_method m code" and ?D = "{i. i < length code \<and> \<not> reachable (code_method m code) i}"
  note p = optimizableD(1) [OF o]
  have ne: "code \<noteq> []" using optimizableD(4) [OF o] by auto
  obtain b where b: "mark_reachable ?m (internal_markInstruction (replicate (if length code mod 64 > 0 then length code div 64 + 1
      else length code div 64) 0) 0, [0]) = Some b" "\<And>i. i < length code \<Longrightarrow> internal_isInstructionMarked b i \<longleftrightarrow> reachable ?m i"
    using marked_reachable [OF p] unfolding count_code_method by blast
  define hs where "hs = rev (handles_where (\<lambda>i. \<not> internal_isInstructionMarked b i) code)"
  note hw = handles_where_facts [OF d, where P = "\<lambda>i. \<not> internal_isInstructionMarked b i"]
  obtain code' where c: "delete_handles hs code = Some code'" "removed m code {i. i < length code \<and> \<not> internal_isInstructionMarked b i} code'"
    using delete_where [OF d] unfolding hs_def by blast
  have D: "{i. i < length code \<and> \<not> internal_isInstructionMarked b i} = ?D" using b(2) by auto
  have type: "\<forall>q\<in>set code. inst_type (snd q) \<noteq> IRENDFINALLY"
  proof
    fix q assume "q \<in> set code"
    then obtain i where "i < length code" "q = code ! i" by (metis in_set_conv_nth)
    then show "inst_type (snd q) \<noteq> IRENDFINALLY" using plain_no_endfinally [OF p, of i] get_code_method [of i code m] by simp
  qed
  have zero: "fst (code ! 0) \<in> fst ` set code" "fst (code ! 0) \<notin> set hs"
    using hw(3) [of 0] b(2) [of 0] ne by (simp_all add: hs_def reachable_def)
  have "distinct hs" "set hs \<subseteq> fst ` set code" using hw(1,2) by (simp_all add: hs_def)
  then have "delete_unreachable m hs code = Some code'"
    using delete_unreachable_eq [OF type _ _ zero d, of m] c(1) by simp
  then have e: "internal_deleteCodeUnreachable m code = Some code'"
    using b(1) ne by (simp add: internal_deleteCodeUnreachable_def Let_def hs_def)
  have jump: "q \<notin> ?D" if "i < ir_instr_count ?m" "reachable ?m i" "Jump \<in> controls (type_at ?m i)" "goto ?m i Jump = Some q" for i q
    using reachable_goto [OF p that] jump_to_label(1) [OF p that(1,3,4)] by auto
  have "safe_deletion exec E ?m ?D (\<lambda>i. reachable ?m i \<or> i = ir_instr_count ?m) (\<lambda>_. UNIV)"
    unfolding safe_deletion_def
  proof (intro conjI allI impI ballI)
    fix i assume i: "i < ir_instr_count ?m" "reachable ?m i \<or> i = ir_instr_count ?m"
    then have r: "reachable ?m i" by simp
    show "reachable ?m j \<or> j = ir_instr_count ?m" if "c \<in> controls (type_at ?m i)" "goto ?m i c = Some j" for c j
      by (rule reachable_goto [OF p i(1) r that])
    have agree: "\<forall>s s' w. (\<forall>v\<in>UNIV - E. s v = s' v) \<longrightarrow> exec (ir_instr_get_by_pos ?m i) s w = exec (ir_instr_get_by_pos ?m i) s' w"
      by (intro allI impI lawfulD(1) [OF law]) simp
    have J: "\<forall>q. Jump \<in> controls (type_at ?m i) \<longrightarrow> goto ?m i Jump = Some q \<longrightarrow> q \<notin> ?D"
      by (intro allI impI jump [OF i(1) r])
    have "i \<notin> ?D" using r by simp
    then show "if i \<in> ?D then transparent exec E ?m ?D (\<lambda>_. UNIV) i
      else (\<forall>s s' w. (\<forall>v\<in>UNIV - E. s v = s' v) \<longrightarrow> exec (ir_instr_get_by_pos ?m i) s w = exec (ir_instr_get_by_pos ?m i) s' w) \<and>
        (\<forall>p. Jump \<in> controls (type_at ?m i) \<longrightarrow> goto ?m i Jump = Some p \<longrightarrow> p \<notin> ?D)"
      using agree J by (simp only: if_False simp_thms)
  qed (auto simp: reachable_def)
  moreover obtain k where k: "k < ir_instr_count ?m" "reachable ?m k" "type_at ?m k \<in> final_types"
    "\<And>j. k < j \<Longrightarrow> j < ir_instr_count ?m \<Longrightarrow> \<not> reachable ?m j" using last_reachable [OF o] by blast
  have "optimizable (delete_positions ?D ?m)"
  proof (rule optimizable_delete [OF o _ k(1) _ k(3)])
    show "q \<notin> ?D" if "i < ir_instr_count ?m" "i \<notin> ?D" "Jump \<in> controls (type_at ?m i)" "goto ?m i Jump = Some q" for i q
      by (rule jump [OF that(1) _ that(3,4)]) (use that(1,2) in simp)
    show "k \<notin> ?D" using k(2) by simp
    show "j \<in> ?D" if "k < j" "j < ir_instr_count ?m" for j using k(4) [OF that] that(2) by simp
  qed
  ultimately have "keeps exec E m code code'" by (rule keeps_removed [OF o c(2) [unfolded D]])
  moreover have "code' = nths code (- ?D)" using c(2) unfolding D removed_def by (rule conjunct1)
  ultimately show ?thesis using e by blast
qed


section \<open>Dead code elimination\<close>

lemma keepsD: "keeps exec E m a b \<Longrightarrow> optimizable (code_method m b)" "keeps exec E m a b \<Longrightarrow> distinct (map fst b)"
  "keeps exec E m a b \<Longrightarrow> behaviour exec E (code_method m b) = behaviour exec E (code_method m a)"
  by (simp_all add: keeps_def)

lemma handles_nths: "fst ` set (nths code A) \<subseteq> fst ` set code"
  using set_nths_subset by fast

text \<open>The steps after the deletion of dead definitions.\<close>

lemma cleaning_keeps:
  assumes law: "lawful exec E" and o: "optimizable (code_method m code)" and d: "distinct (map fst code)"
  shows "\<exists>code'. do {
      code \<leftarrow> internal_deleteCodeUnreachable m code;
      code \<leftarrow> internal_removeCatchBlocks m code;
      code \<leftarrow> internal_deleteUnusefulBranches m code;
      code \<leftarrow> internal_deleteUnusefulLabels m (internal_mergeLabels m code);
      internal_deleteUnusefulStores m code
    } = Some code' \<and> keeps exec E m code code' \<and> fst ` set code' \<subseteq> fst ` set code \<and> (\<forall>p\<in>set code'. \<not> useless_store (snd p))"
proof -
  obtain c1 where c1: "internal_deleteCodeUnreachable m code = Some c1" "keeps exec E m code c1" "fst ` set c1 \<subseteq> fst ` set code"
    using deleteCodeUnreachable_keeps [OF law o d] handles_nths by metis
  note k1 = keepsD(1,2) [OF c1(2)]
  obtain c2 where c2: "internal_deleteUnusefulBranches m c1 = Some c2" "keeps exec E m c1 c2" "fst ` set c2 \<subseteq> fst ` set c1"
    using deleteUnusefulBranches_keeps [OF law k1] handles_nths by metis
  note k2 = keepsD(1,2) [OF c2(2)]
  define c3 where "c3 = internal_mergeLabels m c2"
  have c3: "keeps exec E m c2 c3" "fst ` set c3 = fst ` set c2"
    unfolding c3_def using mergeLabels_keeps [OF law k2] by (simp_all flip: set_map)
  note k3 = keepsD(1,2) [OF c3(1)]
  obtain c4 where c4: "internal_deleteUnusefulLabels m c3 = Some c4" "keeps exec E m c3 c4" "fst ` set c4 \<subseteq> fst ` set c3"
    using deleteUnusefulLabels_keeps [OF law k3] handles_nths by metis
  note k4 = keepsD(1,2) [OF c4(2)]
  obtain c5 where c5: "internal_deleteUnusefulStores m c4 = Some c5" "keeps exec E m c4 c5"
    "c5 = nths c4 (- {i. i < length c4 \<and> useless_store (snd (c4 ! i))})"
    using deleteUnusefulStores_keeps [OF law k4] by blast
  have f: "c5 = filter (\<lambda>p. \<not> useless_store (snd p)) c4" unfolding c5(3) filter_positions by simp
  have "fst ` set c5 \<subseteq> fst ` set code" using f c1(3) c2(3) c3(2) c4(3) by (metis c5(3) handles_nths subset_trans)
  moreover have "keeps exec E m code c5" using c1(2) c2(2) c3(1) c4(2) c5(2) by (meson keeps_trans)
  moreover have "\<forall>p\<in>set c5. \<not> useless_store (snd p)" using f by simp
  ultimately show ?thesis
    using c1(1) c2(1) c4(1) c5(1) removeCatchBlocks_keeps [OF k1] c3_def by (intro exI [of _ c5]) simp
qed



text \<open>
  A meaning of instructions for the example: moves copy a value and returns append theirs to the list that is the world.
  \<open>0: nop; 1: v1 = 7; 2: br L1; 3: v0 = v0; 4: L1: ; 5: ret v0\<close>
\<close>

definition item_meaning :: "nat variables \<Rightarrow> ir_item \<Rightarrow> nat" where
  "item_meaning s item = (if item_type item = IROFFSET then s (unat (val item)) else if item_type item = IRLABELITEM then 0 else unat (val item))"

definition demo_meaning :: "(nat, nat list) meaning" where
  "demo_meaning inst s w x w' c \<longleftrightarrow> x = (if inst_type inst = IRMOVE then item_meaning s (param_1 inst) else 0) \<and>
     w' = (if inst_type inst = IRRET then w @ [item_meaning s (param_1 inst)] else w)"

lemma demo_meaning_lawful: "lawful demo_meaning {}"
  unfolding lawful_def
proof (intro conjI allI impI)
  fix inst :: ir_instruction and s s' :: "nat variables" and w assume eq: "\<forall>v\<in>live_uses inst - {}. s v = s' v"
  have "item_meaning s (param_1 inst) = item_meaning s' (param_1 inst)" if "inst_type inst \<noteq> IRGETADDRESS"
    using eq that by (simp add: item_meaning_def live_uses_def)
  then show "demo_meaning inst s w = demo_meaning inst s' w" by (simp add: fun_eq_iff demo_meaning_def)
next
  fix inst a b
  have "item_meaning s (param_1 (IRMETHOD_substituteLabel inst a b)) = item_meaning s (param_1 inst)" for s
    by (simp add: item_meaning_def IRMETHOD_substituteLabel_def change_call_pars_def change_pars_def subst_label_def Let_def)
  moreover have "inst_type (IRMETHOD_substituteLabel inst a b) = inst_type inst"
    by (simp add: IRMETHOD_substituteLabel_def change_call_pars_def change_pars_def Let_def)
  ultimately show "demo_meaning (IRMETHOD_substituteLabel inst a b) = demo_meaning inst" by (simp add: fun_eq_iff demo_meaning_def)
qed (auto simp: demo_meaning_def removable_def internal_hasSideEffect_def useless_store_def controls_def defined_vars_def item_meaning_def split: if_splits)

definition dead_demo :: ir_method where
  "dead_demo = mk_method 1 2
    [mk_inst IRNOP nopar_item nopar_item nopar_item, mk_inst IRMOVE (var_item 1) (const_item 7) nopar_item,
     mk_inst IRBRANCH nopar_item (label_item 1) nopar_item, mk_inst IRMOVE (var_item 0) (var_item 0) nopar_item,
     mk_inst IRLABEL nopar_item (label_item 1) nopar_item, mk_inst IRRET nopar_item (var_item 0) nopar_item]"

lemma dead_demo_ok:
  "ir_instr_count dead_demo = 6" "parametersNumber dead_demo = 1" "var_max dead_demo = 2" "optimizable dead_demo" "variables_ok dead_demo"
proof -
  show n: "ir_instr_count dead_demo = 6" "parametersNumber dead_demo = 1" "var_max dead_demo = 2" by (simp_all add: dead_demo_def demo_simps)
  have "plain_method dead_demo" by (simp add: dead_demo_def demo_simps plain_method_def handler_types_def small_value_def)
  moreover have "list_all jump_ok (instructions dead_demo)" by (simp add: dead_demo_def demo_simps jump_ok_def)
  moreover have "goto dead_demo i Jump \<noteq> None" if "i < ir_instr_count dead_demo" "Jump \<in> controls (type_at dead_demo i)" for i
  proof -
    have "i \<in> {0, 1, 2, 3, 4, 5}" using that(1) n by auto
    then show ?thesis using that(2)
      by (elim insertE emptyE) (simp_all add: dead_demo_def demo_simps controls_def goto_def label_operand_def ir_instr_label_get_def
          ir_instr_label_like_get_def upt_rec mayInstructionOfTypeThrowException_def)
  qed
  ultimately show "optimizable dead_demo" by (simp add: optimizable_def) (simp add: dead_demo_def demo_simps final_types_def)
  show "variables_ok dead_demo" by (simp add: dead_demo_def demo_simps variables_ok_def items_of_def)
qed


end
