(* ===== verification/BoolConversion.thy ===== *)
theory BoolConversion
  imports DeadCodeSteps
begin

text \<open>
  The elimination of the conversions from booleans to integers in branch conditions, the last step of the dead code plugin, and the
  comparison it takes for a conversion.
\<close>

section \<open>Conversions of branch conditions\<close>

lemma map_code_simps [simp]:
  "length (map_code f code) = length code" "i < length code \<Longrightarrow> map_code f code ! i = (fst (code ! i), f (snd (code ! i)))"
  by (simp_all add: map_code_def split: prod.split)

lemma method_code_simps [simp]:
  "length (method_code m) = ir_instr_count m" "i < ir_instr_count m \<Longrightarrow> method_code m ! i = (i, ir_instr_get_by_pos m i)"
  by (simp_all add: method_code_def ir_instr_count_def ir_instr_get_by_pos_def)

lemma handle_position_eq:
  assumes "\<And>i. i < length code \<Longrightarrow> fst (code ! i) = i" and "h < length code"
  shows "handle_position h code = Some h"
  using assms by (auto simp: handle_position_def find_from_upt)

text \<open>The instructions after the conversions, when the condition of one branch is replaced.\<close>

lemma deleteUnusefulConversion_nth:
  fixes T m
  defines "f \<equiv> \<lambda>i. internal_deleteUnusefulFloatConversion T (internal_convertNativeTypes T (ir_instr_get_by_pos m i))"
  assumes b: "b < ir_instr_count m" and c: "c < ir_instr_count m"
  shows "\<exists>code. internal_deleteUnusefulConversion T [(b, c)] (method_code m) = Some code \<and>
    (\<forall>i<ir_instr_count m. snd (code ! i) = internal_deleteUnusefulPointerConversion (internal_deleteUnusefulIntConversion
       (if i = b then (f b)\<lparr>param_1 := param_1 (f c)\<rparr> else f i)))"
proof -
  define cs where "cs = map_code (internal_deleteUnusefulFloatConversion T) (map_code (internal_convertNativeTypes T) (method_code m))"
  have len: "length cs = ir_instr_count m" by (simp add: cs_def)
  have h: "handle_position k cs = Some k" if "k < ir_instr_count m" for k
    by (rule handle_position_eq) (use that in \<open>simp_all add: cs_def\<close>)
  have at: "snd (cs ! k) = f k" if "k < ir_instr_count m" for k using that by (simp add: f_def cs_def)
  define cs' where "cs' = set_instruction b ((f b)\<lparr>param_1 := param_1 (f c)\<rparr>) cs"
  have "internal_deleteUnusefulBoolToIntConversion [(b, c)] cs = Some cs'"
    using h [OF b] h [OF c] at [OF b] at [OF c] by (simp add: cs'_def)
  then have e: "internal_deleteUnusefulConversion T [(b, c)] (method_code m) =
      Some (map_code internal_deleteUnusefulPointerConversion (map_code internal_deleteUnusefulIntConversion cs'))"
    by (simp add: internal_deleteUnusefulConversion_def flip: cs_def)
  have len': "length cs' = ir_instr_count m" by (simp add: cs'_def set_instruction_def len)
  have "snd (cs' ! i) = (if i = b then (f b)\<lparr>param_1 := param_1 (f c)\<rparr> else f i)" if "i < ir_instr_count m" for i
    using that at by (simp add: cs'_def set_instruction_def nth_list_update len)
  then show ?thesis using e len' by simp
qed

lemma set_type_variable:
  assumes "item_type par = IROFFSET" and "internal_type par \<in> {IRINT8, IRINT32}"
  shows "internal_set_type T par = par" "internal_set_float_type T par = par"
proof -
  from assms(2) have "internal_set_type T par = par \<and> internal_set_float_type T par = par"
    by (elim insertE emptyE) (simp_all add: assms(1) internal_set_type_def internal_set_pointer_type_def internal_set_int_type_def
      internal_set_uint_type_def internal_set_float_type_def set_native_type_def as_constant_def IRDATA_isAConstant_def Let_def)
  then show "internal_set_type T par = par" "internal_set_float_type T par = par" by simp_all
qed

lemma conversions_keep:
  assumes "inst_type inst \<noteq> IRCONV"
  shows "inst_type (internal_deleteUnusefulFloatConversion T (internal_convertNativeTypes T inst)) = inst_type inst"
    "param_1 (internal_deleteUnusefulFloatConversion T (internal_convertNativeTypes T inst)) =
      internal_set_float_type T (internal_set_type T (param_1 inst))"
    "result (internal_deleteUnusefulFloatConversion T (internal_convertNativeTypes T inst)) =
      internal_set_float_type T (internal_set_type T (result inst))"
    "internal_deleteUnusefulPointerConversion (internal_deleteUnusefulIntConversion inst) = inst"
  using assms by (simp_all add: internal_deleteUnusefulFloatConversion_def internal_convertNativeTypes_def conversion_to_move_def
      internal_deleteUnusefulIntConversion_def internal_deleteUnusefulPointerConversion_def set_target_def change_items_def Let_def)

text \<open>\<open>0: nop; 1: v1 = (v0 == 0); 2: if v1 goto L1; 3: ret 2; 4: L1: ; 5: ret 3\<close>, where \<open>v0\<close> is a byte.\<close>

definition byte_demo :: ir_method where
  "byte_demo = mk_method 1 2
    [mk_inst IRNOP nopar_item nopar_item nopar_item,
     mk_inst IREQ (var_item 1) ((var_item 0)\<lparr>internal_type := IRINT8\<rparr>) (const_item 0),
     mk_inst IRBRANCHIF nopar_item (var_item 1) (label_item 1), mk_inst IRRET nopar_item (const_item 2) nopar_item,
     mk_inst IRLABEL nopar_item (label_item 1) nopar_item, mk_inst IRRET nopar_item (const_item 3) nopar_item]"

lemma byte_demo_ok:
  "ir_instr_count byte_demo = 6" "parametersNumber byte_demo = 1" "var_max byte_demo = 2" "simple_method byte_demo" "variables_ok byte_demo"
  by (simp_all add: byte_demo_def demo_simps simple_method_def plain_method_def handler_types_def small_value_def variables_ok_def items_of_def)

lemma byte_demo_cases: "i < 6 \<Longrightarrow> i \<in> {0, 1, 2, 3, 4, 5 :: nat}"
  by auto

lemma byte_demo_defines: "i < 6 \<Longrightarrow> method_defines byte_demo i = (if i = 0 then {0} else if i = 1 then {1} else {})"
  by (drule byte_demo_cases, elim insertE emptyE) (simp_all add: method_defines_def defined_vars_def byte_demo_def demo_simps)

lemma byte_demo_uses: "1 \<in> method_uses byte_demo i \<Longrightarrow> i = 2"
proof -
  assume u: "1 \<in> method_uses byte_demo i"
  then have "i < 6" by (auto simp: method_uses_def byte_demo_ok(1) split: if_splits)
  then show ?thesis using u
    by (drule_tac byte_demo_cases, elim insertE emptyE)
      (simp_all add: method_uses_def live_uses_def call_items_def IRMETHOD_isACallInstruction_def ir_instr_pars_count_get_def byte_demo_def demo_simps)
qed

lemma byte_demo_branch: "live_edges byte_demo 2 = {3, 4}"
  by (simp add: live_edges_def successors_def byte_demo_def demo_simps ir_instr_label_get_def ir_instr_label_like_get_def upt_rec option_list_def)
    (simp add: numeral_eq_Suc)

lemma byte_demo_edges: "live_edges byte_demo 3 = {6}" "live_edges byte_demo 4 = {5}" "live_edges byte_demo 5 = {6}"
  "live_edges byte_demo 6 = {}"
  by (simp_all add: live_edges_def successors_def mayInstructionOfTypeThrowException_def byte_demo_def demo_simps
      ir_instr_label_get_def ir_instr_label_like_get_def upt_rec option_list_def)

lemma byte_demo_not_live: "\<not> arrives (live_edges byte_demo) (method_uses byte_demo) (method_defines byte_demo) 2 1"
proof -
  let ?flows = "flows (live_edges byte_demo) (method_uses byte_demo) (method_defines byte_demo)"
  have unused: "1 \<notin> method_uses byte_demo i" if "i \<noteq> 2" for i using byte_demo_uses that by blast
  note unused = unused [simplified]
  have "\<not> ?flows 6 1" by (subst flows_unfold) (simp add: arrives_def byte_demo_edges unused)
  then have "\<not> ?flows 3 1" "\<not> ?flows 5 1" by (subst flows_unfold, simp add: arrives_def byte_demo_edges unused)+
  moreover from this have "\<not> ?flows 4 1" by (subst flows_unfold) (simp add: arrives_def byte_demo_edges unused)
  ultimately show ?thesis by (simp add: arrives_def byte_demo_branch)
qed

lemma byte_demo_at:
  "type_at byte_demo 0 = IRNOP" "type_at byte_demo 1 = IREQ" "type_at byte_demo 2 = IRBRANCHIF" "type_at byte_demo 3 = IRRET"
  "type_at byte_demo 4 = IRLABEL" "type_at byte_demo 5 = IRRET" "par1v byte_demo 2 = 1"
  "param_1 (ir_instr_get_by_pos byte_demo 1) = (var_item 0)\<lparr>internal_type := IRINT8\<rparr>" "result (ir_instr_get_by_pos byte_demo 1) = var_item 1"
  by (simp_all add: byte_demo_def demo_simps)

lemma byte_demo_reaches:
  "\<exists>rd. reaching_definitions_do_job byte_demo = Some rd \<and> ir_instr_reaching_definitions_reached_in_is (rd ! 2) 1"
proof -
  obtain rd where rd: "reaching_definitions_do_job byte_demo = Some rd"
    and r: "\<forall>i<6. \<forall>d<6. ir_instr_reaching_definitions_reached_in_is (rd ! i) d \<longleftrightarrow>
      arrives (cfg_preds byte_demo) (rd_gens byte_demo) (rd_kills byte_demo) i d"
    using reaching_definitions_result [OF byte_demo_ok(4,5)] unfolding byte_demo_ok(1) by blast
  have "method_defines byte_demo 1 \<noteq> {}" using byte_demo_defines [of 1] by simp
  then have "flows (cfg_preds byte_demo) (rd_gens byte_demo) (rd_kills byte_demo) 1 1"
    by (intro flows_gen) (simp add: rd_gens_def byte_demo_ok(1))
  moreover have "1 \<in> cfg_preds byte_demo 2"
    by (simp add: cfg_preds_def successors_def mayInstructionOfTypeThrowException_def byte_demo_def demo_simps)
  ultimately have "arrives (cfg_preds byte_demo) (rd_gens byte_demo) (rd_kills byte_demo) 2 1" unfolding arrives_def by blast
  then show ?thesis using rd r by auto
qed

lemma byte_demo_definitions:
  assumes live: "liveness_do_job byte_demo [] = Some live"
  shows "internal_getDefinitions byte_demo live 1 = [1]" "\<not> IRMETHOD_isVariableLiveOUT (live ! 2) 1" "length (live_out (live ! 2)) = 1"
proof -
  note ok = byte_demo_ok
  have vm: "0 < var_max byte_demo" by (simp add: ok(3))
  have upt: "[0..<6] = [0, 1, 2, 3, 4, 5 :: nat]" by (simp add: upt_rec)
  have one: "unat v = 1 \<longleftrightarrow> v = 1" for v :: "64 word" by (simp add: word_unat_eq_iff)
  have def1: "live_def (live ! i) = 1 \<longleftrightarrow> i = 1" if "i < 6" for i
    using live_facts(1) [OF ok(5) vm live, of i] byte_demo_defines [OF that] that one [of "live_def (live ! i)"]
    by (auto simp: ok(1) split: if_splits)
  then show "internal_getDefinitions byte_demo live 1 = [1]" by (simp add: internal_getDefinitions_def Let_def ok(1,2) upt)
  have lo: "live_ok (init_def_use byte_demo) (live_blocks byte_demo) live"
    and out: "IRMETHOD_isVariableLiveOUT (live ! 2) 1 \<longleftrightarrow> arrives (live_edges byte_demo) (method_uses byte_demo) (method_defines byte_demo) 2 (unat (1 :: 64 word))"
    using liveness_result [OF ok(5) vm, of "[]"] live by (auto simp: ok(1,3))
  show "\<not> IRMETHOD_isVariableLiveOUT (live ! 2) 1" using out byte_demo_not_live by simp
  have "length live = 7" using lo init_def_use_eq [of byte_demo] by (simp add: live_ok_def ok(1,2))
  then show "length (live_out (live ! 2)) = 1" using lo by (simp add: live_ok_def live_blocks_def ok(3))
qed

lemma byte_demo_fetch:
  assumes live: "liveness_do_job byte_demo [] = Some live" and rd: "ir_instr_reaching_definitions_reached_in_is (rd ! 2) 1"
  shows "internal_fetchUselessBoolToIntConversion byte_demo live rd = Some [(2, 1)]"
proof -
  note d = byte_demo_definitions [OF live] and at = byte_demo_at
  have upt: "[0..<6] = [0, 1, 2, 3, 4, 5 :: nat]" by (simp add: upt_rec)
  have single: "internal_getSingleDefinitionReachedIn byte_demo live rd 1 2 = Some 1"
    using rd by (simp add: internal_getSingleDefinitionReachedIn_def d(1))
  have "useless_conversion byte_demo live rd i = Some []" if "i \<in> {0, 1, 3, 4, 5}" for i
    using that by (elim insertE emptyE) (simp_all add: useless_conversion_def at del: One_nat_def)
  moreover have "useless_conversion byte_demo live rd 2 = Some [(2, 1)]"
    by (simp add: useless_conversion_def at d(2,3) single trigger_of_def del: One_nat_def)
  ultimately show ?thesis by (simp add: internal_fetchUselessBoolToIntConversion_def byte_demo_ok(1) upt del: One_nat_def)
qed

text \<open>
  C39: The plugin replaces the condition of a branch by the first operand of the only definition that reaches it, whenever that operand is
  a byte; it does not test that the definition is a conversion. In the example the branch on \<open>v0 == 0\<close> becomes a branch on \<open>v0\<close>.
\<close>

theorem comparison_taken_for_conversion:
  "\<exists>live rd code. liveness_do_job byte_demo [] = Some live \<and> reaching_definitions_do_job byte_demo = Some rd \<and>
    internal_fetchUselessBoolToIntConversion byte_demo live rd = Some [(2, 1)] \<and>
    internal_deleteUnusefulConversion T [(2, 1)] (method_code byte_demo) = Some code \<and>
    inst_type (snd (code ! 1)) = IREQ \<and> val (result (snd (code ! 1))) = 1 \<and>
    inst_type (snd (code ! 2)) = IRBRANCHIF \<and> item_type (param_1 (snd (code ! 2))) = IROFFSET \<and> val (param_1 (snd (code ! 2))) = 0"
proof -
  let ?f = "\<lambda>i. internal_deleteUnusefulFloatConversion T (internal_convertNativeTypes T (ir_instr_get_by_pos byte_demo i))"
  obtain live where live: "liveness_do_job byte_demo [] = Some live"
    using liveness_result [OF byte_demo_ok(5), of "[]"] byte_demo_ok(3) by auto
  obtain rd where rd: "reaching_definitions_do_job byte_demo = Some rd" "ir_instr_reaching_definitions_reached_in_is (rd ! 2) 1"
    using byte_demo_reaches by blast
  obtain code where code: "internal_deleteUnusefulConversion T [(2, 1)] (method_code byte_demo) = Some code"
    and nth: "\<And>i. i < 6 \<Longrightarrow> snd (code ! i) = internal_deleteUnusefulPointerConversion (internal_deleteUnusefulIntConversion
       (if i = 2 then (?f 2)\<lparr>param_1 := param_1 (?f 1)\<rparr> else ?f i))"
    using deleteUnusefulConversion_nth [of 2 byte_demo 1 T] unfolding byte_demo_ok(1) by auto
  note at = byte_demo_at
  have item: "item_type (var_item v) = IROFFSET" "internal_type (var_item v) = IRINT32" for v by (simp_all add: var_item_def)
  have p: "param_1 (?f 1) = (var_item 0)\<lparr>internal_type := IRINT8\<rparr>" "result (?f 1) = var_item 1" "inst_type (?f 1) = IREQ" "inst_type (?f 2) = IRBRANCHIF"
    by (simp_all add: conversions_keep at item set_type_variable del: One_nat_def)
  have 1: "snd (code ! 1) = ?f 1" using nth [of 1] conversions_keep(4) [of "?f 1"] p(3) by (simp del: One_nat_def)
  have 2: "snd (code ! 2) = (?f 2)\<lparr>param_1 := (var_item 0)\<lparr>internal_type := IRINT8\<rparr>\<rparr>"
    using nth [of 2] conversions_keep(4) [of "(?f 2)\<lparr>param_1 := param_1 (?f 1)\<rparr>"] p(1,4) by (simp del: One_nat_def)
  have "inst_type (snd (code ! 1)) = IREQ \<and> val (result (snd (code ! 1))) = 1 \<and>
    inst_type (snd (code ! 2)) = IRBRANCHIF \<and> item_type (param_1 (snd (code ! 2))) = IROFFSET \<and> val (param_1 (snd (code ! 2))) = 0"
    unfolding 1 2 using p by (simp add: var_item_def del: One_nat_def)
  with live rd(1) code byte_demo_fetch [OF live rd(2)] show ?thesis by blast
qed

end
