(* ===== verification/Algebraic.thy ===== *)
theory Algebraic
  imports ConstFold
begin

text \<open>
  Algebraic simplification, after \<open>optimizer-algebraic_simplification/src/optimizer_algebraic.c\<close>: operations with a neutral or an absorbing
  constant become moves. The constant is read as an integer and, from the same eight bytes, as a \<open>double\<close>.
\<close>

section \<open>The plugin\<close>

definition f_is_one :: "64 word \<Rightarrow> bool" where
  "f_is_one f \<longleftrightarrow> f = 0x3FF0000000000000"

definition f_is_zero :: "64 word \<Rightarrow> bool" where
  "f_is_zero f \<longleftrightarrow> f = 0 \<or> f = 0x8000000000000000"

definition internal_translate_into_store :: "ir_instruction \<Rightarrow> ir_item \<Rightarrow> ir_instruction" where
  "internal_translate_into_store inst value' =
     IRMETHOD_setInstructionType IRMOVE ir_instr_init\<lparr>result := result inst, param_1 := value'\<rparr>"

definition internal_translate_into_store_to_value :: "ir_instruction \<Rightarrow> ir_item \<Rightarrow> ir_instruction" where
  "internal_translate_into_store_to_value inst value' =
     IRMETHOD_setInstructionType IRMOVE ir_instr_init\<lparr>result := result inst, param_1 := value'\<rparr>"

text \<open>The constant and the other operand.\<close>

definition constant_operand :: "ir_instruction \<Rightarrow> (ir_item \<times> ir_item) option" where
  "constant_operand inst =
    (if item_type (param_1 inst) \<noteq> IROFFSET then Some (param_1 inst, param_2 inst)
     else if item_type (param_2 inst) \<noteq> IROFFSET then Some (param_2 inst, param_1 inst)
     else None)"

definition zero_constant :: "ir_item \<Rightarrow> bool" where
  "zero_constant item \<longleftrightarrow>
    (if item_type item \<in> {IRFLOAT32, IRFLOAT64, IRNFLOAT} then f_is_zero (val item) else val item = 0)"

definition simplify_product :: "ir_instruction \<Rightarrow> ir_instruction" where
  "simplify_product inst =
    (case constant_operand inst of
       None \<Rightarrow> inst
     | Some (item, var) \<Rightarrow>
         if val item = 1 \<or> f_is_one (val item) then internal_translate_into_store inst var
         else if val item = 0 \<and> f_is_zero (val item) then internal_translate_into_store_to_value inst (item\<lparr>val := 0\<rparr>)
         else inst)"

definition simplify_quotient :: "ir_instruction \<Rightarrow> ir_instruction" where
  "simplify_quotient inst =
    (if item_type (param_2 inst) \<noteq> IROFFSET \<and> (val (param_2 inst) = 1 \<or> f_is_one (val (param_2 inst)))
     then internal_translate_into_store inst (param_1 inst) else inst)"

definition simplify_sum :: "ir_instruction \<Rightarrow> ir_instruction" where
  "simplify_sum inst =
    (case constant_operand inst of
       None \<Rightarrow> inst
     | Some (item, var) \<Rightarrow> if zero_constant item then internal_translate_into_store inst var else inst)"

definition simplify_remainder :: "ir_instruction \<Rightarrow> ir_instruction" where
  "simplify_remainder inst =
    (if item_type (param_2 inst) \<noteq> IROFFSET \<and> zero_constant (param_2 inst)
     then internal_translate_into_store_to_value inst ((param_2 inst)\<lparr>val := 0\<rparr>) else inst)"

definition simplify_difference :: "ir_instruction \<Rightarrow> ir_instruction" where
  "simplify_difference inst =
    (if item_type (param_2 inst) \<noteq> IROFFSET \<and> zero_constant (param_2 inst)
     then internal_translate_into_store inst (param_1 inst) else inst)"

definition algebraic_simplify :: "ir_instruction \<Rightarrow> ir_instruction" where
  "algebraic_simplify inst =
    (let ty = inst_type inst in
     if ty \<in> {IRMUL, IRMULOVF, IRPOW} then simplify_product inst
     else if ty = IRDIV then simplify_quotient inst
     else if ty \<in> {IRADD, IRADDOVF} then simplify_sum inst
     else if ty = IRREM then simplify_remainder inst
     else if ty \<in> {IRSHL, IRSHR, IRSUB, IRSUBOVF} then simplify_difference inst
     else inst)"

definition algebric_do_job :: "ir_method \<Rightarrow> ir_method" where
  "algebric_do_job m = m\<lparr>instructions := map algebraic_simplify (instructions m)\<rparr>"

lemma algebric_do_job_simps:
  "ir_instr_count (algebric_do_job m) = ir_instr_count m"
  "i < ir_instr_count m \<Longrightarrow> ir_instr_get_by_pos (algebric_do_job m) i = algebraic_simplify (ir_instr_get_by_pos m i)"
  by (simp_all add: algebric_do_job_def ir_instr_count_def ir_instr_get_by_pos_def)

section \<open>Integer operations\<close>

text \<open>An operand of an integer type, and its value.\<close>

definition int_operand :: "nat \<Rightarrow> ir_item \<Rightarrow> bool" where
  "int_operand ty item \<longleftrightarrow> item_type item = IROFFSET \<or> int_constant ty item"

definition operand_value :: "(nat \<Rightarrow> int) \<Rightarrow> nat \<Rightarrow> ir_item \<Rightarrow> int" where
  "operand_value env ty item = (if item_type item = IROFFSET then env (unat (val item)) else value_of_type ty (val item))"

text \<open>The operation that traps on overflow has the same result where it does not trap.\<close>

definition plain_opcode :: "nat \<Rightarrow> nat" where
  "plain_opcode ty = (if ty = IRADDOVF then IRADD else if ty = IRSUBOVF then IRSUB else if ty = IRMULOVF then IRMUL else ty)"

definition looks_like_one :: "ir_item \<Rightarrow> bool" where
  "looks_like_one item \<longleftrightarrow> item_type item \<noteq> IROFFSET \<and> f_is_one (val item)"

definition stores_value :: "(nat \<Rightarrow> int) \<Rightarrow> nat \<Rightarrow> ir_instruction \<Rightarrow> int \<Rightarrow> ir_instruction \<Rightarrow> bool" where
  "stores_value env ty inst r inst' \<longleftrightarrow> inst_type inst' = IRMOVE \<and> result inst' = result inst \<and> operand_value env ty (param_1 inst') = r"

lemma value_of_constants [simp]: "value_of_type ty 0 = 0" "value_of_type ty 1 = 1"
  by (simp_all add: value_of_type_def)

lemma int_constant_type:
  assumes "int_constant ty item" and "ty \<in> int_types"
  shows "item_type item \<noteq> IROFFSET" "item_type item \<notin> {IRFLOAT32, IRFLOAT64, IRNFLOAT}"
  using assms by (auto simp: int_constant_def int_types_def)

lemma store_stores [simp]:
  "stores_value env ty inst r (internal_translate_into_store inst item) \<longleftrightarrow> operand_value env ty item = r"
  "stores_value env ty inst r (internal_translate_into_store_to_value inst item) \<longleftrightarrow> operand_value env ty item = r"
  by (simp_all add: stores_value_def internal_translate_into_store_def internal_translate_into_store_to_value_def IRMETHOD_setInstructionType_def)

lemma zero_int_constant:
  assumes "int_operand ty item" "ty \<in> int_types" "item_type item \<noteq> IROFFSET"
  shows "zero_constant item \<longleftrightarrow> val item = 0" "operand_value env ty item = value_of_type ty (val item)"
  using assms int_constant_type(2) [of ty item] by (auto simp: int_operand_def zero_constant_def operand_value_def)


text \<open>\<open>0: v1 = v0 * 1; 1: ret v1\<close> on 32-bit integers.\<close>

definition product_demo :: ir_method where
  "product_demo = mk_method 0 2
    [mk_inst IRMUL (int_variable IRINT32 1) (int_variable IRINT32 0) (int_item IRINT32 1), mk_inst IRRET nopar_item (int_variable IRINT32 1) nopar_item]"


section \<open>Where the simplification is wrong\<close>

text \<open>
  C40: An integer constant is also read as a \<open>double\<close>, so a product with 4607182418800017408, the bits of 1, becomes the other
  operand; a power is treated like a product, so the power with exponent 0 becomes 0 and the power of 1 becomes the exponent; and a remainder
  by the constant 0, which may throw, becomes 0 (the neutral constant would be 1).
\<close>

theorem simplification_of_other_operations:
  "algebraic_simplify (mk_inst IRMUL res (int_variable IRINT64 v) (int_item IRINT64 4607182418800017408)) =
     mk_inst IRMOVE res (int_variable IRINT64 v) nopar_item \<and>
   algebraic_simplify (mk_inst IRPOW res (int_variable IRINT64 v) (int_item IRINT64 0)) = mk_inst IRMOVE res (int_item IRINT64 0) nopar_item \<and>
   algebraic_simplify (mk_inst IRPOW res (int_item IRINT64 1) (int_variable IRINT64 v)) = mk_inst IRMOVE res (int_variable IRINT64 v) nopar_item \<and>
   algebraic_simplify (mk_inst IRREM res (int_variable IRINT64 v) (int_item IRINT64 0)) = mk_inst IRMOVE res (int_item IRINT64 0) nopar_item"
  by (simp_all add: algebraic_simplify_def simplify_product_def simplify_remainder_def constant_operand_def internal_translate_into_store_def
      internal_translate_into_store_to_value_def IRMETHOD_setInstructionType_def zero_constant_def f_is_one_def f_is_zero_def mk_inst_def
      int_variable_def int_item_def ir_instr_init_def nopar_item_def)

end
